(* ===== verification/Kcp_Prelude.thy ===== *)
theory Kcp_Prelude
  imports Main "HOL-Library.Word" "HOL-Library.Sublist"
begin

text \<open>
  Shared vocabulary of the development: the widths of Go's integers, results that may be
  a run-time panic, \<open>copy\<close> on byte slices, and the serial-number arithmetic that every
  comparison of sequence numbers and time stamps of the protocol goes through.

  Go's \<open>int\<close> has 64 bits on the platforms the program runs on and only ever holds lengths
  and small settings here, so it is modelled by \<open>int\<close> (or \<open>nat\<close> for a length);
  \<open>uint8\<close>, \<open>uint16\<close> and \<open>uint32\<close> wrap around in the program and are words.
\<close>

unbundle bit_operations_syntax

type_synonym u8 = "8 word"
type_synonym u16 = "16 word"
type_synonym u32 = "32 word"
type_synonym bytes = "u8 list"

named_theorems res_simps \<open>evaluation of results that may be a panic\<close>
named_theorems serial_simps \<open>serial number arithmetic\<close>

text \<open>Lengths and words are compared as natural numbers throughout.\<close>

declare of_nat_unat [simp del]

section \<open>Results: a value or a run-time panic\<close>

datatype panic =
    SliceBounds            \<comment> \<open>slice bounds out of range, index out of range\<close>
  | DivideByZero
  | CloseOfClosedChannel
  | SendOnClosedChannel
  | NilPointer
  | Explicit string        \<comment> \<open>an explicit \<open>panic\<close> or \<open>log.Panicf\<close> of the source\<close>

type_synonym 'a res = "panic + 'a"

definition bind_res :: "'a res \<Rightarrow> ('a \<Rightarrow> 'b res) \<Rightarrow> 'b res" where
  "bind_res m f = (case m of Inl e \<Rightarrow> Inl e | Inr x \<Rightarrow> f x)"

text \<open>The errors that operations of the connection layers return.\<close>

datatype conn_err = ErrEOF | ErrShortWrite | ErrTimeout | ErrBrokenPipe | ErrInvalidOperation

text \<open>Go's \<open>/\<close> and \<open>%\<close> truncate towards zero.\<close>

definition go_div :: "int \<Rightarrow> int \<Rightarrow> int" where
  "go_div a b = sgn a * sgn b * (\<bar>a\<bar> div \<bar>b\<bar>)"

definition go_mod :: "int \<Rightarrow> int \<Rightarrow> int" where
  "go_mod a b = a - b * go_div a b"

definition no_panic :: "'a res \<Rightarrow> bool" where
  "no_panic m = (case m of Inl e \<Rightarrow> False | Inr x \<Rightarrow> True)"

text \<open>Go's built-in \<open>copy(dst, src)\<close>: the new contents of \<open>dst\<close>.\<close>

definition go_copy :: "'a list \<Rightarrow> 'a list \<Rightarrow> 'a list" where
  "go_copy dst src = take (length dst) src @ drop (length src) dst"

text \<open>The conversion \<open>int32(x)\<close> of a Go \<open>int\<close> and \<open>uint32(x)\<close> of an \<open>int32\<close> or \<open>int\<close>.\<close>

definition to_int32 :: "int \<Rightarrow> int" where
  "to_int32 x = sint (word_of_int x :: u32)"

definition to_uint32 :: "int \<Rightarrow> u32" where
  "to_uint32 x = word_of_int x"

lemma bind_res_Inl [simp, res_simps]: "bind_res (Inl e) f = Inl e"
  by (simp add: bind_res_def)

lemma bind_res_Inr [simp, res_simps]: "bind_res (Inr x) f = f x"
  by (simp add: bind_res_def)

lemma bind_res_eq_Inr: "bind_res m f = Inr y \<longleftrightarrow> (\<exists>x. m = Inr x \<and> f x = Inr y)"
  by (cases m) auto

lemma bind_res_eq_Inl: "bind_res m f = Inl e \<longleftrightarrow> m = Inl e \<or> (\<exists>x. m = Inr x \<and> f x = Inl e)"
  by (cases m) auto

lemma bind_res_cong [fundef_cong]:
  "m = m' \<Longrightarrow> (\<And>x. m' = Inr x \<Longrightarrow> f x = g x) \<Longrightarrow> bind_res m f = bind_res m' g"
  by (cases m') auto

lemma no_panic_simps [simp, res_simps]: "no_panic (Inr x)" "\<not> no_panic (Inl e)"
  by (simp_all add: no_panic_def)

lemma no_panic_iff: "no_panic m \<longleftrightarrow> (\<exists>x. m = Inr x)"
  by (cases m) auto

lemma length_go_copy [simp]: "length (go_copy dst src) = length dst"
  by (simp add: go_copy_def)

lemma go_copy_full [simp]: "length src = length dst \<Longrightarrow> go_copy dst src = src"
  by (simp add: go_copy_def)

lemma go_copy_short: "length src \<le> length dst \<Longrightarrow> go_copy dst src = src @ drop (length src) dst"
  by (simp add: go_copy_def)

section \<open>Widening\<close>

lemma unat_ucast_16_32 [simp]: "unat (ucast (w :: u16) :: u32) = unat w"
  using unsigned_less [of w, where ?'a = nat] by (simp add: unsigned_ucast_eq take_bit_nat_eq_self)

lemma unat_ucast_8_32 [simp]: "unat (ucast (w :: u8) :: u32) = unat w"
  using unsigned_less [of w, where ?'a = nat] by (simp add: unsigned_ucast_eq take_bit_nat_eq_self)

lemma ucast_ucast_8_32 [simp]: "ucast (ucast (w :: u8) :: u32) = w"
  by (rule bit_word_eqI) (simp add: bit_simps)

section \<open>Strictly increasing lists\<close>

lemma sorted_wrt_less_length:
  assumes "sorted_wrt (<) xs" and "\<forall>x \<in> set xs. x \<le> (m::nat)"
  shows "length xs \<le> Suc m"
proof -
  have "distinct xs" using assms(1) by (simp add: strict_sorted_iff)
  then have "length xs = card (set xs)" by (simp add: distinct_card)
  also have "\<dots> \<le> card {0..m}" using assms(2) by (intro card_mono) auto
  finally show ?thesis by simp
qed

lemma sorted_wrt_map_minus:
  assumes "sorted_wrt (<) (map f xs)" "\<And>x. x \<in> set xs \<Longrightarrow> g x = f x - c \<and> c \<le> f x"
  shows "sorted_wrt (<) (map (g :: 'a \<Rightarrow> nat) xs)"
  using assms
proof (induction xs)
  case (Cons x xs)
  have "g x < g y" if "y \<in> set xs" for y
  proof -
    have "f x < f y" using Cons.prems(1) that by simp
    then show ?thesis
      using Cons.prems(2) [of x] Cons.prems(2) [of y] that by (simp add: diff_less_mono)
  qed
  with Cons show ?case by simp
qed simp

lemma sorted_wrt_subseq: "subseq xs ys \<Longrightarrow> sorted_wrt P ys \<Longrightarrow> sorted_wrt P xs"
proof (induction rule: list_emb.induct)
  case (list_emb_Cons2 x y xs ys)
  then show ?case using list_emb_set [of "(=)" xs ys] by fastforce
qed auto

section \<open>Serial number arithmetic\<close>

text \<open>
  \<open>int32(later - earlier)\<close>: the signed distance of two 32-bit counters that wrap around.
  It is the true distance whenever both counters lie within half the number circle of a
  common base (\<open>itimediff_base\<close>).
\<close>

definition itimediff :: "u32 \<Rightarrow> u32 \<Rightarrow> int" where
  "itimediff later earlier = sint (later - earlier)"

text \<open>Distance of \<open>x\<close> from \<open>base\<close>, walking forwards on the number circle.\<close>

definition soff :: "u32 \<Rightarrow> u32 \<Rightarrow> nat" where
  "soff base x = unat (x - base)"

lemma unat_u32_less: "unat (w :: u32) < 2 ^ 32"
  using unsigned_less [of w, where ?'a = nat] by simp

lemma wrap_int32:
  assumes "0 \<le> n" "n < 2 ^ 32"
  shows "(n + 2 ^ 31) mod 2 ^ 32 - 2 ^ 31 = (if n < 2 ^ 31 then n else n - (2::int) ^ 32)"
proof -
  have "(n + 2 ^ 31) mod 2 ^ 32 = n - 2 ^ 31" if "2 ^ 31 \<le> n"
    using that assms by (subst mod_pos_geq) simp_all
  with assms show ?thesis by auto
qed

lemma unat_less_2p31: "unat (w :: u32) < 2 ^ 31 \<longleftrightarrow> uint w < 2 ^ 31"
  using of_nat_less_iff [of "unat w" "2 ^ 31", where ?'a = int] by (simp add: of_nat_unat)

lemma sint_u32: "sint (w :: u32) = (if unat w < 2 ^ 31 then int (unat w) else int (unat w) - 2 ^ 32)"
proof -
  have "sint w = signed_take_bit 31 (uint w)"
    by (simp add: sint_uint)
  also have "\<dots> = (uint w + 2 ^ 31) mod 2 ^ 32 - 2 ^ 31"
    by (simp add: signed_take_bit_eq_take_bit_shift take_bit_eq_mod)
  also have "\<dots> = (if uint w < 2 ^ 31 then uint w else uint w - 2 ^ 32)"
    by (rule wrap_int32) (use uint_lt2p [of w] in simp_all)
  finally show ?thesis by (simp only: unat_less_2p31 of_nat_unat)
qed

lemma unat_sub_u32:
  "unat (x - y :: u32) = (if unat y \<le> unat x then unat x - unat y else unat x + 2 ^ 32 - unat y)"
  by (simp add: unat_sub_if')

lemma itimediff_base:
  assumes "soff c a < 2 ^ 31" "soff c b < 2 ^ 31"
  shows "itimediff a b = int (soff c a) - int (soff c b)"
proof -
  define x y where "x = a - c" and "y = b - c"
  have "a - b = x - y" by (simp add: x_def y_def)
  then have "itimediff a b = sint (x - y)" by (simp add: itimediff_def)
  also have "\<dots> = int (unat x) - int (unat y)"
  proof -
    have b: "unat x < 2 ^ 31" "unat y < 2 ^ 31"
      using assms by (simp_all only: soff_def x_def y_def)
    show ?thesis
    proof (cases "unat y \<le> unat x")
      case True
      then have "unat (x - y) = unat x - unat y" by (simp only: unat_sub_u32 if_True)
      with True b show ?thesis by (simp add: sint_u32)
    next
      case False
      then have "unat (x - y) = unat x + 2 ^ 32 - unat y" by (simp only: unat_sub_u32 if_False)
      with False b show ?thesis by (simp add: sint_u32)
    qed
  qed
  finally show ?thesis by (simp only: x_def y_def soff_def)
qed

lemma itimediff_nonneg: "0 \<le> itimediff a b \<longleftrightarrow> soff b a < 2 ^ 31"
  unfolding itimediff_def sint_u32 soff_def using unat_u32_less [of "a - b"]
  by auto

lemma itimediff_soff: "soff b a < 2 ^ 31 \<Longrightarrow> itimediff a b = int (soff b a)"
  unfolding itimediff_def sint_u32 soff_def by simp

lemma itimediff_self [simp, serial_simps]: "itimediff a a = 0"
  by (simp add: itimediff_def)

lemma itimediff_range: "- (2 ^ 31) \<le> itimediff a b \<and> itimediff a b < 2 ^ 31"
  unfolding itimediff_def sint_u32 using unat_u32_less [of "a - b"]
  by auto

lemma soff_self [simp, serial_simps]: "soff a a = 0"
  by (simp add: soff_def)

lemma soff_zero_base [simp, serial_simps]: "soff 0 a = unat a"
  by (simp add: soff_def)

lemma soff_bound: "soff a b < 2 ^ 32"
  unfolding soff_def using unat_u32_less [of "b - a"] by simp

lemma soff_eq_0 [serial_simps]: "soff a b = 0 \<longleftrightarrow> a = b"
  by (auto simp: soff_def unat_eq_0)

lemma soff_inject [serial_simps]: "soff c a = soff c b \<longleftrightarrow> a = b"
  by (auto simp: soff_def word_unat_eq_iff [symmetric])

lemma soff_of_nat: "n < 2 ^ 32 \<Longrightarrow> soff a (a + of_nat n) = n"
  by (simp add: soff_def unat_of_nat)

lemma soff_Suc: "soff a b < 2 ^ 32 - 1 \<Longrightarrow> soff a (b + 1) = Suc (soff a b)"
proof -
  assume h: "soff a b < 2 ^ 32 - 1"
  have "b + 1 - a = (b - a) + 1" by simp
  moreover from h have "unat ((b - a) + 1) = unat (b - a) + 1"
    unfolding soff_def by (intro unat_add_lem [THEN iffD1, THEN trans]) simp_all
  ultimately show ?thesis unfolding soff_def by (simp only: Suc_eq_plus1)
qed

lemma soff_shift: "soff a c \<le> soff a b \<Longrightarrow> soff c b = soff a b - soff a c"
proof -
  assume h: "soff a c \<le> soff a b"
  have "b - c = (b - a) - (c - a)" by simp
  with h show ?thesis by (simp only: soff_def unat_sub_u32 if_True)
qed

lemma soff_shift_back:
  assumes "soff c b + soff a c < 2 ^ 32"
  shows "soff a b = soff c b + soff a c"
proof -
  have "b - a = (b - c) + (c - a)" by simp
  moreover have "unat ((b - c) + (c - a)) = unat (b - c) + unat (c - a)"
    using assms unfolding soff_def by (intro unat_add_lem [THEN iffD1, THEN trans]) simp_all
  ultimately show ?thesis by (simp add: soff_def)
qed

section \<open>Transition systems\<close>

inductive reachable :: "('s \<Rightarrow> bool) \<Rightarrow> ('s \<Rightarrow> 's \<Rightarrow> bool) \<Rightarrow> 's \<Rightarrow> bool"
  for init :: "'s \<Rightarrow> bool" and step :: "'s \<Rightarrow> 's \<Rightarrow> bool" where
  reach_init: "init s \<Longrightarrow> reachable init step s"
| reach_step: "reachable init step s \<Longrightarrow> step s s' \<Longrightarrow> reachable init step s'"

text \<open>A predicate that holds at the start and that every step keeps.\<close>

locale invariant_system =
  fixes init :: "'s \<Rightarrow> bool" and step :: "'s \<Rightarrow> 's \<Rightarrow> bool" and inv :: "'s \<Rightarrow> bool"
  assumes init_inv: "init s \<Longrightarrow> inv s"
    and step_inv: "inv s \<Longrightarrow> step s s' \<Longrightarrow> inv s'"
begin

lemma reachable_inv: "reachable init step s \<Longrightarrow> inv s"
  by (induction rule: reachable.induct) (auto intro: init_inv step_inv)

text \<open>An invariant of the reachable states may be used to show that another one is kept.\<close>

lemma reachable_strengthen:
  assumes "\<And>s. init s \<Longrightarrow> P s" "\<And>s s'. inv s \<Longrightarrow> P s \<Longrightarrow> step s s' \<Longrightarrow> P s'"
  shows "reachable init step s \<Longrightarrow> P s"
proof -
  have "reachable init step s \<Longrightarrow> inv s \<and> P s"
    by (induction rule: reachable.induct) (auto intro: init_inv step_inv assms)
  then show "reachable init step s \<Longrightarrow> P s" by simp
qed

end

end
