(* ===== verification/Kcp_Wire.thy ===== *)
theory Kcp_Wire
  imports Kcp_Prelude
begin

text \<open>
  The wire format of \<open>go/kcp/kcp.go\<close> (lines 9 to 131): the protocol constants, the
  little-endian field codecs \<open>ikcp_encode*\<close> and \<open>ikcp_decode*\<close>, the 24-byte segment header
  written by \<open>segment.encode\<close> and read back field by field at the top of \<open>KCP.input\<close>, and
  the small helpers \<open>_imin_\<close>, \<open>_imax_\<close>, \<open>_ibound_\<close>.

  The destination slice \<open>p\<close> of an encoder is a window on a scratch buffer. It is modelled by
  the pair of what is left of it (its length) and the bytes already written in front of it;
  writing past its end is the run-time panic of the program. A decoder takes the
  slice and returns the decoded value and the rest.
\<close>

section \<open>Constants\<close>

definition IKCP_RTO_NDL :: u32 where "IKCP_RTO_NDL = 30"
definition IKCP_RTO_MIN :: u32 where "IKCP_RTO_MIN = 100"
definition IKCP_RTO_DEF :: u32 where "IKCP_RTO_DEF = 200"
definition IKCP_RTO_MAX :: u32 where "IKCP_RTO_MAX = 60000"
definition IKCP_CMD_CONNECT :: u32 where "IKCP_CMD_CONNECT = 80"
definition IKCP_CMD_PUSH :: u32 where "IKCP_CMD_PUSH = 81"
definition IKCP_CMD_ACK :: u32 where "IKCP_CMD_ACK = 82"
definition IKCP_CMD_WASK :: u32 where "IKCP_CMD_WASK = 83"
definition IKCP_CMD_WINS :: u32 where "IKCP_CMD_WINS = 84"
definition IKCP_ASK_SEND :: u32 where "IKCP_ASK_SEND = 1"
definition IKCP_ASK_TELL :: u32 where "IKCP_ASK_TELL = 2"
definition IKCP_WND_SND :: u32 where "IKCP_WND_SND = 32"
definition IKCP_WND_RCV :: u32 where "IKCP_WND_RCV = 32"
definition IKCP_MTU_DEF :: int where "IKCP_MTU_DEF = 1400"
definition IKCP_INTERVAL :: u32 where "IKCP_INTERVAL = 100"
definition IKCP_OVERHEAD :: nat where "IKCP_OVERHEAD = 24"
definition IKCP_DEADLINK :: u32 where "IKCP_DEADLINK = 20"
definition IKCP_THRESH_INIT :: u32 where "IKCP_THRESH_INIT = 2"
definition IKCP_THRESH_MIN :: u32 where "IKCP_THRESH_MIN = 2"
definition IKCP_PROBE_INIT :: u32 where "IKCP_PROBE_INIT = 7000"
definition IKCP_PROBE_LIMIT :: u32 where "IKCP_PROBE_LIMIT = 120000"
definition IKCP_STATE_CONNECTED :: u32 where "IKCP_STATE_CONNECTED = 1"
definition IKCP_STATE_REMOTE_CLOSED :: u32 where "IKCP_STATE_REMOTE_CLOSED = 2"
definition IKCP_STATE_LOCAL_CLOSED :: u32 where "IKCP_STATE_LOCAL_CLOSED = 4"
definition IKCP_STATE_DEAD :: u32 where "IKCP_STATE_DEAD = 8"

lemmas const_defs =
  IKCP_RTO_NDL_def IKCP_RTO_MIN_def IKCP_RTO_DEF_def IKCP_RTO_MAX_def
  IKCP_CMD_CONNECT_def IKCP_CMD_PUSH_def IKCP_CMD_ACK_def IKCP_CMD_WASK_def IKCP_CMD_WINS_def
  IKCP_ASK_SEND_def IKCP_ASK_TELL_def IKCP_WND_SND_def IKCP_WND_RCV_def IKCP_MTU_DEF_def
  IKCP_INTERVAL_def IKCP_OVERHEAD_def IKCP_DEADLINK_def IKCP_THRESH_INIT_def
  IKCP_THRESH_MIN_def IKCP_PROBE_INIT_def IKCP_PROBE_LIMIT_def
  IKCP_STATE_CONNECTED_def IKCP_STATE_REMOTE_CLOSED_def IKCP_STATE_LOCAL_CLOSED_def
  IKCP_STATE_DEAD_def

section \<open>Field codecs\<close>

text \<open>\<open>binary.LittleEndian.PutUint16\<close>, \<open>PutUint32\<close>, \<open>Uint16\<close> and \<open>Uint32\<close>.\<close>

definition le16 :: "u16 \<Rightarrow> bytes" where
  "le16 v = [ucast v, ucast (drop_bit 8 v)]"

definition le32 :: "u32 \<Rightarrow> bytes" where
  "le32 v = [ucast v, ucast (drop_bit 8 v), ucast (drop_bit 16 v), ucast (drop_bit 24 v)]"

definition un16 :: "u8 \<Rightarrow> u8 \<Rightarrow> u16" where
  "un16 a b = ucast a OR push_bit 8 (ucast b)"

definition un32 :: "u8 \<Rightarrow> u8 \<Rightarrow> u8 \<Rightarrow> u8 \<Rightarrow> u32" where
  "un32 a b c d =
     ucast a OR push_bit 8 (ucast b) OR push_bit 16 (ucast c) OR push_bit 24 (ucast d)"

type_synonym wslice = "nat \<times> bytes"

definition put_bytes :: "wslice \<Rightarrow> bytes \<Rightarrow> wslice res" where
  "put_bytes p bs =
     (if length bs \<le> fst p then Inr (fst p - length bs, snd p @ bs) else Inl SliceBounds)"

definition ikcp_encode8u :: "wslice \<Rightarrow> u8 \<Rightarrow> wslice res" where
  "ikcp_encode8u p c = put_bytes p [c]"

definition ikcp_encode16u :: "wslice \<Rightarrow> u16 \<Rightarrow> wslice res" where
  "ikcp_encode16u p w = put_bytes p (le16 w)"

definition ikcp_encode32u :: "wslice \<Rightarrow> u32 \<Rightarrow> wslice res" where
  "ikcp_encode32u p l = put_bytes p (le32 l)"

fun ikcp_decode8u :: "bytes \<Rightarrow> (u8 \<times> bytes) res" where
  "ikcp_decode8u (a # p) = Inr (a, p)"
| "ikcp_decode8u _ = Inl SliceBounds"

fun ikcp_decode16u :: "bytes \<Rightarrow> (u16 \<times> bytes) res" where
  "ikcp_decode16u (a # b # p) = Inr (un16 a b, p)"
| "ikcp_decode16u _ = Inl SliceBounds"

fun ikcp_decode32u :: "bytes \<Rightarrow> (u32 \<times> bytes) res" where
  "ikcp_decode32u (a # b # c # d # p) = Inr (un32 a b c d, p)"
| "ikcp_decode32u _ = Inl SliceBounds"

section \<open>Arithmetic helpers\<close>

definition imin :: "u32 \<Rightarrow> u32 \<Rightarrow> u32" where
  "imin a b = (if a \<le> b then a else b)"

definition imax :: "u32 \<Rightarrow> u32 \<Rightarrow> u32" where
  "imax a b = (if b \<le> a then a else b)"

definition ibound :: "u32 \<Rightarrow> u32 \<Rightarrow> u32 \<Rightarrow> u32" where
  "ibound lower middle upper = imin (imax lower middle) upper"

section \<open>Segments\<close>

record segment =
  s_conv :: u32
  s_cmd :: u32
  s_frg :: u32
  s_wnd :: u32
  s_ts :: u32
  s_sn :: u32
  s_una :: u32
  s_resendts :: u32
  s_rto :: u32
  s_fastack :: u32
  s_xmit :: u32
  s_data :: bytes

text \<open>The zero value of the struct.\<close>

definition segment0 :: segment where
  "segment0 = \<lparr> s_conv = 0, s_cmd = 0, s_frg = 0, s_wnd = 0, s_ts = 0, s_sn = 0, s_una = 0,
     s_resendts = 0, s_rto = 0, s_fastack = 0, s_xmit = 0, s_data = [] \<rparr>"

definition encode :: "segment \<Rightarrow> wslice \<Rightarrow> wslice res" where
  "encode seg ptr =
     bind_res (ikcp_encode32u ptr (s_conv seg)) (\<lambda>ptr.
     bind_res (ikcp_encode8u ptr (ucast (s_cmd seg))) (\<lambda>ptr.
     bind_res (ikcp_encode8u ptr (ucast (s_frg seg))) (\<lambda>ptr.
     bind_res (ikcp_encode16u ptr (ucast (s_wnd seg))) (\<lambda>ptr.
     bind_res (ikcp_encode32u ptr (s_ts seg)) (\<lambda>ptr.
     bind_res (ikcp_encode32u ptr (s_sn seg)) (\<lambda>ptr.
     bind_res (ikcp_encode32u ptr (s_una seg)) (\<lambda>ptr.
     ikcp_encode32u ptr (of_nat (length (s_data seg))))))))))"

text \<open>
  The local variables that \<open>KCP.input\<close> decodes from the front of the packet (lines 502 to
  521). The comparison of \<open>conv\<close> that the code makes after the first field is made by the
  caller once all eight fields are read, which no run can tell apart: the packet has at least
  24 bytes there, so no decoder panics.
\<close>

record header =
  h_conv :: u32
  h_cmd :: u8
  h_frg :: u8
  h_wnd :: u16
  h_ts :: u32
  h_sn :: u32
  h_una :: u32
  h_len :: u32

definition decode_header :: "bytes \<Rightarrow> (header \<times> bytes) res" where
  "decode_header d =
     bind_res (ikcp_decode32u d) (\<lambda>(cv, d).
     bind_res (ikcp_decode8u d) (\<lambda>(cmd, d).
     bind_res (ikcp_decode8u d) (\<lambda>(frg, d).
     bind_res (ikcp_decode16u d) (\<lambda>(wnd, d).
     bind_res (ikcp_decode32u d) (\<lambda>(ts, d).
     bind_res (ikcp_decode32u d) (\<lambda>(sn, d).
     bind_res (ikcp_decode32u d) (\<lambda>(una, d).
     bind_res (ikcp_decode32u d) (\<lambda>(len, d).
     Inr (\<lparr> h_conv = cv, h_cmd = cmd, h_frg = frg, h_wnd = wnd, h_ts = ts, h_sn = sn,
            h_una = una, h_len = len \<rparr>, d)))))))))"

text \<open>The bytes of a header, and the header a segment is written with.\<close>

definition header_bytes :: "header \<Rightarrow> bytes" where
  "header_bytes h = le32 (h_conv h) @ [h_cmd h] @ [h_frg h] @ le16 (h_wnd h) @ le32 (h_ts h)
     @ le32 (h_sn h) @ le32 (h_una h) @ le32 (h_len h)"

definition seg_header :: "segment \<Rightarrow> header" where
  "seg_header s = \<lparr> h_conv = s_conv s, h_cmd = ucast (s_cmd s), h_frg = ucast (s_frg s),
     h_wnd = ucast (s_wnd s), h_ts = s_ts s, h_sn = s_sn s, h_una = s_una s,
     h_len = of_nat (length (s_data s)) \<rparr>"

section \<open>Interface of a fixed-width codec\<close>

text \<open>
  What the packet code relies on for each field: the encoder produces exactly \<open>width\<close> bytes,
  the decoder gives back the value and the untouched rest, it panics exactly on a slice that
  is too short, and it accepts nothing but encodings.
\<close>

locale fixed_codec =
  fixes enc :: "'a \<Rightarrow> bytes" and dec :: "bytes \<Rightarrow> ('a \<times> bytes) res" and width :: nat
  assumes enc_length: "length (enc x) = width"
    and dec_enc: "dec (enc x @ rest) = Inr (x, rest)"
    and dec_short: "length p < width \<Longrightarrow> dec p = Inl SliceBounds"
    and dec_total: "width \<le> length p \<Longrightarrow> \<exists>x rest. dec p = Inr (x, rest)"
    and dec_exact: "dec p = Inr (x, rest) \<Longrightarrow> p = enc x @ rest"
begin

lemma dec_no_panic: "no_panic (dec p) \<longleftrightarrow> width \<le> length p"
  using dec_short [of p] dec_total [of p] by (cases "length p < width") auto

lemma dec_Inl: "dec p = Inl e \<longleftrightarrow> e = SliceBounds \<and> length p < width"
  using dec_short [of p] dec_total [of p] by (cases "length p < width") auto

lemma dec_rest_length: "dec p = Inr (x, rest) \<Longrightarrow> length p = width + length rest"
  using dec_exact [of p x rest] enc_length [of x] by simp

lemma enc_inject: "enc x @ r = enc y @ q \<longleftrightarrow> x = y \<and> r = q"
proof
  assume "enc x @ r = enc y @ q"
  then have "dec (enc x @ r) = dec (enc y @ q)" by simp
  then show "x = y \<and> r = q" by (simp add: dec_enc)
qed simp

lemma dec_iff: "dec p = Inr (x, rest) \<longleftrightarrow> p = enc x @ rest"
  using dec_exact dec_enc by blast

end

lemma un16_le16: "un16 (ucast v) (ucast (drop_bit 8 v)) = v"
  unfolding un16_def
proof (rule bit_word_eqI)
  fix n assume "n < LENGTH(16)"
  then consider "n < 8" | "8 \<le> n" "n < 16" by fastforce
  then show "bit (ucast (ucast v :: u8) OR push_bit 8 (ucast (ucast (drop_bit 8 v) :: u8)) :: u16) n
     = bit v n"
    by cases (auto simp: bit_simps)
qed

lemma un32_le32:
  "un32 (ucast v) (ucast (drop_bit 8 v)) (ucast (drop_bit 16 v)) (ucast (drop_bit 24 v)) = v"
  unfolding un32_def
proof (rule bit_word_eqI)
  fix n assume "n < LENGTH(32)"
  then consider "n < 8" | "8 \<le> n" "n < 16" | "16 \<le> n" "n < 24" | "24 \<le> n" "n < 32" by fastforce
  then show "bit (ucast (ucast v :: u8) OR push_bit 8 (ucast (ucast (drop_bit 8 v) :: u8)) OR
     push_bit 16 (ucast (ucast (drop_bit 16 v) :: u8)) OR
     push_bit 24 (ucast (ucast (drop_bit 24 v) :: u8)) :: u32) n = bit v n"
    by cases (auto simp: bit_simps)
qed

lemma le16_un16: "le16 (un16 a b) = [a, b]"
proof -
  have "ucast (un16 a b) = a" "ucast (drop_bit 8 (un16 a b)) = b"
    unfolding un16_def by (rule bit_word_eqI, auto simp: bit_simps dest: bit_imp_le_length)+
  then show ?thesis by (simp add: le16_def)
qed

lemma le32_un32: "le32 (un32 a b c d) = [a, b, c, d]"
proof -
  have "ucast (un32 a b c d) = a" "ucast (drop_bit 8 (un32 a b c d)) = b"
    "ucast (drop_bit 16 (un32 a b c d)) = c" "ucast (drop_bit 24 (un32 a b c d)) = d"
    unfolding un32_def by (rule bit_word_eqI, auto simp: bit_simps dest: bit_imp_le_length)+
  then show ?thesis by (simp add: le32_def)
qed

interpretation c8: fixed_codec "\<lambda>c. [c]" ikcp_decode8u 1
proof
  fix p :: bytes and x rest
  show "length p < 1 \<Longrightarrow> ikcp_decode8u p = Inl SliceBounds" by simp
  show "1 \<le> length p \<Longrightarrow> \<exists>x rest. ikcp_decode8u p = Inr (x, rest)" by (cases p) auto
  show "ikcp_decode8u p = Inr (x, rest) \<Longrightarrow> p = [x] @ rest" by (cases p) auto
qed simp_all

interpretation c16: fixed_codec le16 ikcp_decode16u 2
proof
  fix p :: bytes and x rest
  show "length (le16 x) = 2" by (simp add: le16_def)
  show "ikcp_decode16u (le16 x @ rest) = Inr (x, rest)" by (simp add: le16_def un16_le16)
  show "length p < 2 \<Longrightarrow> ikcp_decode16u p = Inl SliceBounds"
    by (cases p rule: ikcp_decode16u.cases) auto
  show "2 \<le> length p \<Longrightarrow> \<exists>x rest. ikcp_decode16u p = Inr (x, rest)"
    by (cases p rule: ikcp_decode16u.cases) auto
  show "ikcp_decode16u p = Inr (x, rest) \<Longrightarrow> p = le16 x @ rest"
    by (cases p rule: ikcp_decode16u.cases) (auto simp: le16_un16)
qed

interpretation c32: fixed_codec le32 ikcp_decode32u 4
proof
  fix p :: bytes and x rest
  show "length (le32 x) = 4" by (simp add: le32_def)
  show "ikcp_decode32u (le32 x @ rest) = Inr (x, rest)" by (simp add: le32_def un32_le32)
  show "length p < 4 \<Longrightarrow> ikcp_decode32u p = Inl SliceBounds"
    by (cases p rule: ikcp_decode32u.cases) auto
  show "4 \<le> length p \<Longrightarrow> \<exists>x rest. ikcp_decode32u p = Inr (x, rest)"
    by (cases p rule: ikcp_decode32u.cases) auto
  show "ikcp_decode32u p = Inr (x, rest) \<Longrightarrow> p = le32 x @ rest"
    by (cases p rule: ikcp_decode32u.cases) (auto simp: le32_un32)
qed

section \<open>The header as one codec\<close>

lemma length_header_bytes [simp]: "length (header_bytes h) = IKCP_OVERHEAD"
  by (simp add: header_bytes_def c16.enc_length c32.enc_length IKCP_OVERHEAD_def)

lemma decode_header_bytes: "decode_header (header_bytes h @ rest) = Inr (h, rest)"
  unfolding decode_header_def header_bytes_def
  by (simp add: c16.dec_enc c32.dec_enc)

lemma decode_header_exact: "decode_header p = Inr (h, rest) \<Longrightarrow> p = header_bytes h @ rest"
  unfolding decode_header_def header_bytes_def
  by (auto simp: bind_res_eq_Inr c8.dec_iff c16.dec_iff c32.dec_iff)

lemma decode_header_Inl:
  "decode_header p = Inl e \<Longrightarrow> e = SliceBounds \<and> length p < IKCP_OVERHEAD"
  unfolding decode_header_def IKCP_OVERHEAD_def
  by (auto simp: bind_res_eq_Inl c8.dec_Inl c16.dec_Inl c32.dec_Inl
      dest!: c8.dec_rest_length c16.dec_rest_length c32.dec_rest_length)

interpretation hdr: fixed_codec header_bytes decode_header IKCP_OVERHEAD
proof
  fix p :: bytes and h rest
  show "length p < IKCP_OVERHEAD \<Longrightarrow> decode_header p = Inl SliceBounds"
    by (cases "decode_header p") (auto dest: decode_header_Inl decode_header_exact)
  show "IKCP_OVERHEAD \<le> length p \<Longrightarrow> \<exists>h rest. decode_header p = Inr (h, rest)"
    by (cases "decode_header p") (auto dest: decode_header_Inl)
qed (simp_all add: decode_header_bytes decode_header_exact)

section \<open>Writing a segment\<close>

lemma put_bytes_Inr: "put_bytes p bs = Inr q \<longleftrightarrow>
    length bs \<le> fst p \<and> q = (fst p - length bs, snd p @ bs)"
  by (auto simp: put_bytes_def)

lemma encode_eq:
  "encode seg (n, w) =
     (if IKCP_OVERHEAD \<le> n then Inr (n - IKCP_OVERHEAD, w @ header_bytes (seg_header seg))
      else Inl SliceBounds)"
  by (auto simp: encode_def ikcp_encode8u_def ikcp_encode16u_def ikcp_encode32u_def put_bytes_def
      c16.enc_length c32.enc_length header_bytes_def seg_header_def IKCP_OVERHEAD_def)

lemma encode_decode:
  assumes "IKCP_OVERHEAD \<le> n"
  shows "\<exists>hb. encode seg (n, w) = Inr (n - IKCP_OVERHEAD, w @ hb) \<and>
    decode_header (hb @ rest) = Inr (seg_header seg, rest)"
  using assms by (auto simp: encode_eq decode_header_bytes)

section \<open>The helpers are the order operations\<close>

lemma imin_min [simp]: "imin a b = min a b"
  by (simp add: imin_def min_def)

lemma imax_max [simp]: "imax a b = max a b"
  by (auto simp: imax_def max_def)

lemma ibound_bounds: "lower \<le> upper \<Longrightarrow> lower \<le> ibound lower m upper \<and> ibound lower m upper \<le> upper"
  by (simp add: ibound_def)

end
