(* ===== verification/Kcp_State.thy ===== *)
theory Kcp_State
  imports Kcp_Wire
begin

text \<open>
  The control object \<open>KCP\<close> of \<open>go/kcp/kcp.go\<close> with its constructor, its setters and its
  queries, and the counters of \<open>go/kcp/stats.go\<close>.

  Fields keep the names of the source. Three of them need a word:
  \<^item> \<open>output\<close> is a callback in the source. The field \<open>outputs\<close> of the model
    records the packets handed to it
    (\<open>buf[:size]\<close>), oldest first; the connection layer takes them from there.
  \<^item> \<open>buffer\<close> is the scratch buffer \<open>flush\<close> assembles packets in. A packet is always
    written from the start of the buffer, so only its length matters.
  \<^item> \<open>gstats\<close> is what this control object has added to the package variable \<open>Stats\<close>
    (every update of the protocol core is an atomic addition).

  \<open>newKCP\<close> leaves the pointer \<open>stats\<close> nil; its only caller \<open>newKCPConn\<close> sets it before any
  operation runs, so the model starts with the counters at zero.
\<close>

section \<open>Counters\<close>

record KcpGlobalStats =
  g_SegPush :: int
  g_SegPushResend :: int
  g_TotalAccept :: int
  g_TotalConnect :: int
  g_TotalClose :: int
  g_TotalCloseDangling :: int
  g_ConnMax :: int
  g_ConnCurrent :: int
  g_ConnClosing :: int
  g_ErrorRead :: int
  g_ErrorInput :: int
  g_ErrorOutput :: int
  g_ByteRx :: int
  g_ByteTx :: int
  g_PacketIn :: int
  g_PacketOut :: int
  g_ByteIn :: int
  g_ByteOut :: int

definition KcpGlobalStats0 :: KcpGlobalStats where
  "KcpGlobalStats0 = \<lparr> g_SegPush = 0, g_SegPushResend = 0, g_TotalAccept = 0, g_TotalConnect = 0,
     g_TotalClose = 0, g_TotalCloseDangling = 0, g_ConnMax = 0, g_ConnCurrent = 0,
     g_ConnClosing = 0, g_ErrorRead = 0, g_ErrorInput = 0, g_ErrorOutput = 0, g_ByteRx = 0,
     g_ByteTx = 0, g_PacketIn = 0, g_PacketOut = 0, g_ByteIn = 0, g_ByteOut = 0 \<rparr>"

record KcpConnStats =
  ErrorRead :: int
  ErrorInput :: int
  ErrorOutput :: int
  ByteRx :: int
  ByteTx :: int
  PacketIn :: int
  PacketOut :: int
  ByteIn :: int
  ByteOut :: int
  SegRepeat :: int
  SegPush :: int
  SegPushResend :: int
  SegPushResendFast :: int
  SegPushResendLost :: int
  SegPushResendEarly :: int

definition KcpConnStats0 :: KcpConnStats where
  "KcpConnStats0 = \<lparr> ErrorRead = 0, ErrorInput = 0, ErrorOutput = 0, ByteRx = 0, ByteTx = 0,
     PacketIn = 0, PacketOut = 0, ByteIn = 0, ByteOut = 0, SegRepeat = 0, SegPush = 0,
     SegPushResend = 0, SegPushResendFast = 0, SegPushResendLost = 0, SegPushResendEarly = 0 \<rparr>"

section \<open>The control object\<close>

record ackItem =
  a_sn :: u32
  a_ts :: u32

record KCP =
  conv :: u32
  state :: u32
  mtu :: int
  mss :: int
  snd_una :: u32
  snd_nxt :: u32
  rcv_nxt :: u32
  ssthresh :: u32
  rx_rttval :: u32
  rx_srtt :: u32
  rx_rto :: u32
  rx_minrto :: u32
  snd_wnd :: u32
  rcv_wnd :: u32
  rmt_wnd :: u32
  cwnd :: u32
  probe :: u32
  interval :: u32
  ts_flush :: u32
  xmit :: u32
  nodelay :: u32
  updated :: u32
  ts_probe :: u32
  probe_wait :: u32
  dead_link :: u32
  incr :: u32
  fastresend :: int
  nocwnd :: int
  stream :: int
  snd_queue :: "segment list"
  rcv_queue :: "segment list"
  snd_buf :: "segment list"
  rcv_buf :: "segment list"
  acklist :: "ackItem list"
  buffer :: nat
  outputs :: "bytes list"
  stats :: KcpConnStats
  gstats :: KcpGlobalStats

definition newKCP :: KCP where
  "newKCP = \<lparr> conv = 0, state = 0, mtu = IKCP_MTU_DEF, mss = IKCP_MTU_DEF - int IKCP_OVERHEAD,
     snd_una = 0, snd_nxt = 0, rcv_nxt = 0, ssthresh = IKCP_THRESH_INIT,
     rx_rttval = 0, rx_srtt = 0, rx_rto = IKCP_RTO_DEF, rx_minrto = IKCP_RTO_MIN,
     snd_wnd = IKCP_WND_SND, rcv_wnd = IKCP_WND_RCV, rmt_wnd = IKCP_WND_RCV, cwnd = 0, probe = 0,
     interval = IKCP_INTERVAL, ts_flush = IKCP_INTERVAL, xmit = 0, nodelay = 0, updated = 0,
     ts_probe = 0, probe_wait = 0, dead_link = IKCP_DEADLINK, incr = 0,
     fastresend = 0, nocwnd = 0, stream = 0,
     snd_queue = [], rcv_queue = [], snd_buf = [], rcv_buf = [], acklist = [],
     buffer = nat ((IKCP_MTU_DEF + int IKCP_OVERHEAD) * 3),
     outputs = [], stats = KcpConnStats0, gstats = KcpGlobalStats0 \<rparr>"

text \<open>
  \<open>newSegment\<close> slices a pooled array of \<open>udpPacketSizeLimit\<close> bytes. What is left in it from
  an earlier use is unspecified (zero bytes here): every caller overwrites all of it.
\<close>

definition udpPacketSizeLimit :: nat where "udpPacketSizeLimit = 2048"

definition newSegment :: "nat \<Rightarrow> segment res" where
  "newSegment sz =
     (if sz \<le> udpPacketSizeLimit then Inr (segment0 \<lparr> s_data := replicate sz 0 \<rparr>)
      else Inl SliceBounds)"

section \<open>Setters\<close>

definition setMtu :: "int \<Rightarrow> KCP \<Rightarrow> int \<times> KCP" where
  "setMtu m k =
     (if m < 50 \<or> m < int IKCP_OVERHEAD then (-1, k)
      else (0, k \<lparr> mtu := m, mss := m - int IKCP_OVERHEAD,
                   buffer := nat ((m + int IKCP_OVERHEAD) * 3) \<rparr>))"

definition setNoDelay :: "int \<Rightarrow> int \<Rightarrow> int \<Rightarrow> int \<Rightarrow> KCP \<Rightarrow> int \<times> KCP" where
  "setNoDelay nodelay_arg interval_arg resend nc k =
     (let k = (if nodelay_arg \<ge> 0
               then k \<lparr> nodelay := to_uint32 nodelay_arg,
                        rx_minrto := (if nodelay_arg \<noteq> 0 then IKCP_RTO_NDL else IKCP_RTO_MIN) \<rparr>
               else k);
          k = (if interval_arg \<ge> 0
               then k \<lparr> interval := to_uint32 (if interval_arg > 5000 then 5000
                                               else if interval_arg < 10 then 10
                                               else interval_arg) \<rparr>
               else k);
          k = (if resend \<ge> 0 then k \<lparr> fastresend := to_int32 resend \<rparr> else k);
          k = (if nc \<ge> 0 then k \<lparr> nocwnd := to_int32 nc \<rparr> else k)
      in (0, k))"

definition setWndSize :: "int \<Rightarrow> int \<Rightarrow> KCP \<Rightarrow> int \<times> KCP" where
  "setWndSize sndwnd rcvwnd k =
     (let k = (if sndwnd > 0 then k \<lparr> snd_wnd := to_uint32 sndwnd \<rparr> else k);
          k = (if rcvwnd > 0 then k \<lparr> rcv_wnd := to_uint32 rcvwnd \<rparr> else k)
      in (0, k))"

section \<open>Queries\<close>

definition waitSnd :: "KCP \<Rightarrow> nat" where
  "waitSnd k = length (snd_buf k) + length (snd_queue k)"

definition isStateConnected :: "KCP \<Rightarrow> bool" where
  "isStateConnected k = (state k AND IKCP_STATE_CONNECTED \<noteq> 0)"

definition isStateRemoteClosed :: "KCP \<Rightarrow> bool" where
  "isStateRemoteClosed k = (state k AND IKCP_STATE_REMOTE_CLOSED \<noteq> 0)"

definition isStateLocalClosed :: "KCP \<Rightarrow> bool" where
  "isStateLocalClosed k = (state k AND IKCP_STATE_LOCAL_CLOSED \<noteq> 0)"

definition isStateDead :: "KCP \<Rightarrow> bool" where
  "isStateDead k = (state k AND IKCP_STATE_DEAD \<noteq> 0)"

definition isRemoteOpen :: "KCP \<Rightarrow> bool" where
  "isRemoteOpen k = (state k AND (IKCP_STATE_REMOTE_CLOSED OR IKCP_STATE_DEAD) = 0)"

definition isAllOpen :: "KCP \<Rightarrow> bool" where
  "isAllOpen k =
     (state k AND (IKCP_STATE_REMOTE_CLOSED OR IKCP_STATE_LOCAL_CLOSED OR IKCP_STATE_DEAD) = 0)"

definition shouldClose :: "KCP \<Rightarrow> bool" where
  "shouldClose k =
     (state k AND (IKCP_STATE_REMOTE_CLOSED OR IKCP_STATE_LOCAL_CLOSED) = IKCP_STATE_REMOTE_CLOSED)"

definition wnd_unused :: "KCP \<Rightarrow> int" where
  "wnd_unused k =
     (if length (rcv_queue k) < unat (rcv_wnd k)
      then to_int32 (int (unat (rcv_wnd k)) - int (length (rcv_queue k)))
      else 0)"

definition calc_cwnd :: "KCP \<Rightarrow> u32" where
  "calc_cwnd k =
     (let w = imin (snd_wnd k) (rmt_wnd k)
      in if nocwnd k = 0 then imin (cwnd k) w else w)"

definition sndBufAvail :: "KCP \<Rightarrow> int" where
  "sndBufAvail k = itimediff (snd_una k + calc_cwnd k) (snd_nxt k)"

section \<open>State bits\<close>

lemma closed_bits:
  "((w OR IKCP_STATE_LOCAL_CLOSED) AND NOT IKCP_STATE_CONNECTED) AND IKCP_STATE_LOCAL_CLOSED \<noteq> 0"
  "((w OR IKCP_STATE_LOCAL_CLOSED) AND NOT IKCP_STATE_CONNECTED) AND IKCP_STATE_CONNECTED = 0"
proof -
  have "bit (((w OR IKCP_STATE_LOCAL_CLOSED) AND NOT IKCP_STATE_CONNECTED) AND IKCP_STATE_LOCAL_CLOSED) 2"
    by (simp add: bit_simps const_defs)
  then show "((w OR IKCP_STATE_LOCAL_CLOSED) AND NOT IKCP_STATE_CONNECTED) AND IKCP_STATE_LOCAL_CLOSED \<noteq> 0"
    by (metis bit_0_eq bot_apply bot_bool_def)
  show "((w OR IKCP_STATE_LOCAL_CLOSED) AND NOT IKCP_STATE_CONNECTED) AND IKCP_STATE_CONNECTED = 0"
    by (simp add: and.assoc)
qed

end
