(* ===== verification/Kcp_Recv.thy ===== *)
theory Kcp_Recv
  imports Kcp_State
begin

text \<open>
  The receiving half of \<open>go/kcp/kcp.go\<close>: \<open>recvSize\<close>, \<open>recv\<close> and \<open>parse_data\<close>.
  \<open>parse_data\<close> files an incoming segment into the reorder buffer \<open>rcv_buf\<close>, which is kept
  sorted by sequence number and free of duplicates, and moves the run of segments that starts
  at \<open>rcv_nxt\<close> to \<open>rcv_queue\<close>; \<open>recv\<close> merges the fragments of the first message of
  \<open>rcv_queue\<close> into the caller's slice.

  The invariant \<open>rcv_inv\<close> is stated with distances on the number circle, so it covers the
  wrap-around of the 32-bit sequence numbers, and it holds whatever the peer sends.
\<close>

section \<open>Operations\<close>

text \<open>The loop of \<open>recvSize\<close> that adds up the fragments of the first message.\<close>

fun frag_len :: "segment list \<Rightarrow> nat" where
  "frag_len [] = 0"
| "frag_len (s # ss) = length (s_data s) + (if s_frg s = 0 then 0 else frag_len ss)"

definition recvSize :: "KCP \<Rightarrow> int \<times> KCP" where
  "recvSize k =
     (case rcv_queue k of
        [] \<Rightarrow> (0, k)
      | seg # _ \<Rightarrow>
          if s_frg seg = 0 then
            (int (length (s_data seg)),
             if length (s_data seg) = 0 then k \<lparr> state := state k OR IKCP_STATE_REMOTE_CLOSED \<rparr> else k)
          else if length (rcv_queue k) < unat (s_frg seg + 1) then (-1, k)
          else (int (frag_len (rcv_queue k)), k))"

text \<open>
  The merge loop of \<open>recv\<close>: the contents of the caller's slice afterwards, the number of
  bytes and the number of segments consumed. \<open>buffer = buffer[len(seg.data):]\<close> panics when the
  slice is shorter than the segment.
\<close>

fun recv_merge :: "segment list \<Rightarrow> bytes \<Rightarrow> (bytes \<times> nat \<times> nat) res" where
  "recv_merge [] buf = Inr (buf, 0, 0)"
| "recv_merge (s # ss) buf =
     (let buf' = go_copy buf (s_data s); l = length (s_data s)
      in if length buf < l then Inl SliceBounds
         else if s_frg s = 0 then Inr (buf', l, 1)
         else bind_res (recv_merge ss (drop l buf'))
                (\<lambda>(rest, n, count). Inr (take l buf' @ rest, l + n, Suc count)))"

text \<open>
  \<open>move available data from rcv_buf -> rcv_queue\<close>, which \<open>recv\<close> and \<open>parse_data\<close> share. The
  guard on the length of \<open>rcv_queue\<close> reads the same length in every round, because the queue
  is only appended to after the loop.
\<close>

fun ready_count :: "segment list \<Rightarrow> u32 \<Rightarrow> bool \<Rightarrow> nat" where
  "ready_count [] nxt room = 0"
| "ready_count (s # ss) nxt room =
     (if s_sn s = nxt \<and> room then Suc (ready_count ss (nxt + 1) room) else 0)"

definition move_ready :: "KCP \<Rightarrow> KCP" where
  "move_ready k =
     (let count = ready_count (rcv_buf k) (rcv_nxt k) (length (rcv_queue k) < unat (rcv_wnd k))
      in k \<lparr> rcv_nxt := rcv_nxt k + of_nat count,
             rcv_queue := rcv_queue k @ take count (rcv_buf k),
             rcv_buf := drop count (rcv_buf k) \<rparr>)"

definition recv :: "bytes \<Rightarrow> KCP \<Rightarrow> (int \<times> bytes \<times> KCP) res" where
  "recv buf k =
     (let fast_recover = (length (rcv_queue k) \<ge> unat (rcv_wnd k))
      in bind_res (recv_merge (rcv_queue k) buf) (\<lambda>(buf', n, count).
           let k = move_ready (k \<lparr> rcv_queue := drop count (rcv_queue k) \<rparr>);
               k = (if length (rcv_queue k) < unat (rcv_wnd k) \<and> fast_recover
                    then k \<lparr> probe := probe k OR IKCP_ASK_TELL \<rparr> else k)
           in Inr (int n, buf', k)))"

text \<open>
  The backward scan of \<open>parse_data\<close> over the first \<open>i\<close> entries: whether the sequence number
  is a repeat, and otherwise the index to insert at.
\<close>

fun find_slot :: "segment list \<Rightarrow> u32 \<Rightarrow> nat \<Rightarrow> bool \<times> nat" where
  "find_slot buf sn 0 = (False, 0)"
| "find_slot buf sn (Suc i) =
     (if s_sn (buf ! i) = sn then (True, 0)
      else if itimediff sn (s_sn (buf ! i)) > 0 then (False, Suc i)
      else find_slot buf sn i)"

definition insert_seg :: "segment list \<Rightarrow> nat \<Rightarrow> segment \<Rightarrow> segment list" where
  "insert_seg buf idx newseg =
     (if idx = length buf then buf @ [newseg]
      else let b = buf @ [segment0];
               b = take (idx + 1) b @ go_copy (drop (idx + 1) b) (drop idx b)
           in b[idx := newseg])"

definition parse_data :: "segment \<Rightarrow> KCP \<Rightarrow> KCP" where
  "parse_data newseg k =
     (let sn = s_sn newseg
      in if itimediff sn (rcv_nxt k + rcv_wnd k) \<ge> 0 \<or> itimediff sn (rcv_nxt k) < 0 then k
         else let (repeat, idx) = find_slot (rcv_buf k) sn (length (rcv_buf k));
                  k = (if repeat
                       then k \<lparr> stats := (stats k) \<lparr> SegRepeat := SegRepeat (stats k) + 1 \<rparr> \<rparr>
                       else k \<lparr> rcv_buf := insert_seg (rcv_buf k) idx newseg \<rparr>)
              in move_ready k)"

section \<open>Invariant\<close>

text \<open>
  Distances are taken from \<open>rcv_nxt - 1\<close>: the next segment expected has distance 1. Distance 0
  is possible only in the one state where a \<open>CONNECT\<close> has moved \<open>rcv_nxt\<close> past a buffered
  segment 0.
\<close>

definition roff :: "KCP \<Rightarrow> segment \<Rightarrow> nat" where
  "roff k s = soff (rcv_nxt k - 1) (s_sn s)"

definition rcv_inv :: "KCP \<Rightarrow> bool" where
  "rcv_inv k \<longleftrightarrow>
     unat (rcv_wnd k) < 2 ^ 31 \<and>
     sorted_wrt (<) (map (roff k) (rcv_buf k)) \<and>
     (\<forall>s \<in> set (rcv_buf k). roff k s \<le> unat (rcv_wnd k) \<and> (roff k s = 0 \<longrightarrow> rcv_nxt k = 1)) \<and>
     length (rcv_queue k) \<le> 2 * unat (rcv_wnd k)"

text \<open>The invariant reads four fields; updates of any other field keep it.\<close>

lemma roff_frame [simp]:
  "roff (k \<lparr> conv := x_conv \<rparr>) = roff k"
  "roff (k \<lparr> state := x_state \<rparr>) = roff k"
  "roff (k \<lparr> mtu := x_mtu \<rparr>) = roff k"
  "roff (k \<lparr> mss := x_mss \<rparr>) = roff k"
  "roff (k \<lparr> snd_una := x_snd_una \<rparr>) = roff k"
  "roff (k \<lparr> snd_nxt := x_snd_nxt \<rparr>) = roff k"
  "roff (k \<lparr> ssthresh := x_ssthresh \<rparr>) = roff k"
  "roff (k \<lparr> rx_rttval := x_rx_rttval \<rparr>) = roff k"
  "roff (k \<lparr> rx_srtt := x_rx_srtt \<rparr>) = roff k"
  "roff (k \<lparr> rx_rto := x_rx_rto \<rparr>) = roff k"
  "roff (k \<lparr> rx_minrto := x_rx_minrto \<rparr>) = roff k"
  "roff (k \<lparr> snd_wnd := x_snd_wnd \<rparr>) = roff k"
  "roff (k \<lparr> rcv_wnd := x_rcv_wnd \<rparr>) = roff k"
  "roff (k \<lparr> rmt_wnd := x_rmt_wnd \<rparr>) = roff k"
  "roff (k \<lparr> cwnd := x_cwnd \<rparr>) = roff k"
  "roff (k \<lparr> probe := x_probe \<rparr>) = roff k"
  "roff (k \<lparr> interval := x_interval \<rparr>) = roff k"
  "roff (k \<lparr> ts_flush := x_ts_flush \<rparr>) = roff k"
  "roff (k \<lparr> xmit := x_xmit \<rparr>) = roff k"
  "roff (k \<lparr> nodelay := x_nodelay \<rparr>) = roff k"
  "roff (k \<lparr> updated := x_updated \<rparr>) = roff k"
  "roff (k \<lparr> ts_probe := x_ts_probe \<rparr>) = roff k"
  "roff (k \<lparr> probe_wait := x_probe_wait \<rparr>) = roff k"
  "roff (k \<lparr> dead_link := x_dead_link \<rparr>) = roff k"
  "roff (k \<lparr> incr := x_incr \<rparr>) = roff k"
  "roff (k \<lparr> fastresend := x_fastresend \<rparr>) = roff k"
  "roff (k \<lparr> nocwnd := x_nocwnd \<rparr>) = roff k"
  "roff (k \<lparr> stream := x_stream \<rparr>) = roff k"
  "roff (k \<lparr> snd_queue := x_snd_queue \<rparr>) = roff k"
  "roff (k \<lparr> rcv_queue := x_rcv_queue \<rparr>) = roff k"
  "roff (k \<lparr> snd_buf := x_snd_buf \<rparr>) = roff k"
  "roff (k \<lparr> rcv_buf := x_rcv_buf \<rparr>) = roff k"
  "roff (k \<lparr> acklist := x_acklist \<rparr>) = roff k"
  "roff (k \<lparr> buffer := x_buffer \<rparr>) = roff k"
  "roff (k \<lparr> outputs := x_outputs \<rparr>) = roff k"
  "roff (k \<lparr> stats := x_stats \<rparr>) = roff k"
  "roff (k \<lparr> gstats := x_gstats \<rparr>) = roff k"
  by (simp_all add: fun_eq_iff roff_def)

lemma rcv_inv_frame [simp]:
  "rcv_inv (k \<lparr> conv := x_conv \<rparr>) = rcv_inv k"
  "rcv_inv (k \<lparr> state := x_state \<rparr>) = rcv_inv k"
  "rcv_inv (k \<lparr> mtu := x_mtu \<rparr>) = rcv_inv k"
  "rcv_inv (k \<lparr> mss := x_mss \<rparr>) = rcv_inv k"
  "rcv_inv (k \<lparr> snd_una := x_snd_una \<rparr>) = rcv_inv k"
  "rcv_inv (k \<lparr> snd_nxt := x_snd_nxt \<rparr>) = rcv_inv k"
  "rcv_inv (k \<lparr> ssthresh := x_ssthresh \<rparr>) = rcv_inv k"
  "rcv_inv (k \<lparr> rx_rttval := x_rx_rttval \<rparr>) = rcv_inv k"
  "rcv_inv (k \<lparr> rx_srtt := x_rx_srtt \<rparr>) = rcv_inv k"
  "rcv_inv (k \<lparr> rx_rto := x_rx_rto \<rparr>) = rcv_inv k"
  "rcv_inv (k \<lparr> rx_minrto := x_rx_minrto \<rparr>) = rcv_inv k"
  "rcv_inv (k \<lparr> snd_wnd := x_snd_wnd \<rparr>) = rcv_inv k"
  "rcv_inv (k \<lparr> rmt_wnd := x_rmt_wnd \<rparr>) = rcv_inv k"
  "rcv_inv (k \<lparr> cwnd := x_cwnd \<rparr>) = rcv_inv k"
  "rcv_inv (k \<lparr> probe := x_probe \<rparr>) = rcv_inv k"
  "rcv_inv (k \<lparr> interval := x_interval \<rparr>) = rcv_inv k"
  "rcv_inv (k \<lparr> ts_flush := x_ts_flush \<rparr>) = rcv_inv k"
  "rcv_inv (k \<lparr> xmit := x_xmit \<rparr>) = rcv_inv k"
  "rcv_inv (k \<lparr> nodelay := x_nodelay \<rparr>) = rcv_inv k"
  "rcv_inv (k \<lparr> updated := x_updated \<rparr>) = rcv_inv k"
  "rcv_inv (k \<lparr> ts_probe := x_ts_probe \<rparr>) = rcv_inv k"
  "rcv_inv (k \<lparr> probe_wait := x_probe_wait \<rparr>) = rcv_inv k"
  "rcv_inv (k \<lparr> dead_link := x_dead_link \<rparr>) = rcv_inv k"
  "rcv_inv (k \<lparr> incr := x_incr \<rparr>) = rcv_inv k"
  "rcv_inv (k \<lparr> fastresend := x_fastresend \<rparr>) = rcv_inv k"
  "rcv_inv (k \<lparr> nocwnd := x_nocwnd \<rparr>) = rcv_inv k"
  "rcv_inv (k \<lparr> stream := x_stream \<rparr>) = rcv_inv k"
  "rcv_inv (k \<lparr> snd_queue := x_snd_queue \<rparr>) = rcv_inv k"
  "rcv_inv (k \<lparr> snd_buf := x_snd_buf \<rparr>) = rcv_inv k"
  "rcv_inv (k \<lparr> acklist := x_acklist \<rparr>) = rcv_inv k"
  "rcv_inv (k \<lparr> buffer := x_buffer \<rparr>) = rcv_inv k"
  "rcv_inv (k \<lparr> outputs := x_outputs \<rparr>) = rcv_inv k"
  "rcv_inv (k \<lparr> stats := x_stats \<rparr>) = rcv_inv k"
  "rcv_inv (k \<lparr> gstats := x_gstats \<rparr>) = rcv_inv k"
  by (simp_all add: rcv_inv_def)

section \<open>Merging the first message\<close>

text \<open>The segments that make up the first message: up to and including the first with \<open>frg = 0\<close>.\<close>

fun first_msg :: "segment list \<Rightarrow> segment list" where
  "first_msg [] = []"
| "first_msg (s # ss) = (if s_frg s = 0 then [s] else s # first_msg ss)"

lemma frag_len_first_msg: "frag_len q = length (concat (map s_data (first_msg q)))"
  by (induction q) auto

lemma first_msg_prefix: "first_msg q = take (length (first_msg q)) q"
  by (induction q) auto

lemma recv_merge_ok:
  "frag_len q \<le> length buf \<Longrightarrow>
   recv_merge q buf = Inr (concat (map s_data (first_msg q)) @ drop (frag_len q) buf,
     frag_len q, length (first_msg q))"
proof (induction q arbitrary: buf)
  case Nil
  then show ?case by simp
next
  case (Cons s ss)
  have IH: "recv_merge ss (drop (length (s_data s)) buf) =
      Inr (concat (map s_data (first_msg ss)) @ drop (frag_len ss) (drop (length (s_data s)) buf),
        frag_len ss, length (first_msg ss))" if "s_frg s \<noteq> 0"
    using Cons.prems that by (intro Cons.IH) simp
  show ?case using Cons.prems
    by (auto simp: go_copy_short IH add.commute Let_def)
qed

lemma recv_merge_panics: "length buf < frag_len q \<Longrightarrow> recv_merge q buf = Inl SliceBounds"
  by (induction q arbitrary: buf) (auto simp: Let_def go_copy_short split: if_splits)

section \<open>Moving the ready run\<close>

lemma ready_count_no_room [simp]: "ready_count ss nxt False = 0"
  by (cases ss) auto

lemma ready_count_le: "ready_count ss nxt room \<le> length ss"
  by (induction ss nxt room rule: ready_count.induct) auto

lemma ready_count_sn: "i < ready_count ss nxt room \<Longrightarrow> s_sn (ss ! i) = nxt + of_nat i"
proof (induction ss nxt room arbitrary: i rule: ready_count.induct)
  case (2 s ss nxt room)
  then show ?case
    by (cases i) (auto simp: algebra_simps split: if_splits)
qed simp

lemma ready_count_stop:
  "room \<Longrightarrow> ready_count ss nxt room < length ss \<Longrightarrow>
   s_sn (ss ! ready_count ss nxt room) \<noteq> nxt + of_nat (ready_count ss nxt room)"
proof (induction ss nxt room rule: ready_count.induct)
  case (2 s ss nxt room)
  then show ?case by (auto simp: algebra_simps)
qed simp

lemma move_ready_stream:
  "rcv_queue (move_ready k) @ rcv_buf (move_ready k) = rcv_queue k @ rcv_buf k"
  by (simp add: move_ready_def Let_def)

lemma rcv_buf_length: "rcv_inv k \<Longrightarrow> length (rcv_buf k) \<le> Suc (unat (rcv_wnd k))"
  using sorted_wrt_less_length [of "map (roff k) (rcv_buf k)"] by (auto simp: rcv_inv_def)

lemma ready_off:
  assumes inv: "rcv_inv k" and i: "i < ready_count (rcv_buf k) (rcv_nxt k) room"
  shows "roff k (rcv_buf k ! i) = Suc i"
proof -
  have "Suc i \<le> length (rcv_buf k)" using i ready_count_le [of "rcv_buf k" "rcv_nxt k" room] by linarith
  also have "\<dots> \<le> Suc (2 ^ 31)" using rcv_buf_length [OF inv] inv by (simp add: rcv_inv_def)
  finally have "Suc i < 2 ^ 32" by simp
  moreover have "s_sn (rcv_buf k ! i) = (rcv_nxt k - 1) + of_nat (Suc i)"
    using ready_count_sn [OF i] by simp
  ultimately show ?thesis by (simp only: roff_def soff_of_nat)
qed

lemma ready_count_bound:
  assumes "rcv_inv k"
  shows "ready_count (rcv_buf k) (rcv_nxt k) room \<le> unat (rcv_wnd k)"
proof (cases "ready_count (rcv_buf k) (rcv_nxt k) room")
  case (Suc n)
  then have "roff k (rcv_buf k ! n) = Suc n" "n < length (rcv_buf k)"
    using ready_off [OF assms, of n room] ready_count_le [of "rcv_buf k" "rcv_nxt k" room] by simp_all
  then show ?thesis using assms Suc nth_mem [of n "rcv_buf k"] unfolding rcv_inv_def by metis
qed simp

lemma roff_after_ready:
  assumes inv: "rcv_inv k" and c: "c = ready_count (rcv_buf k) (rcv_nxt k) room" "0 < c"
    and j: "c \<le> j" "j < length (rcv_buf k)"
  shows "c < roff k (rcv_buf k ! j)"
    and "soff (rcv_nxt k + of_nat c - 1) (s_sn (rcv_buf k ! j)) = roff k (rcv_buf k ! j) - c"
proof -
  have "roff k (rcv_buf k ! (c - 1)) = c"
    using ready_off [OF inv, of "c - 1" room] c by simp
  moreover have "roff k (rcv_buf k ! (c - 1)) < roff k (rcv_buf k ! j)"
    using inv c j sorted_wrt_nth_less [of "(<)" "map (roff k) (rcv_buf k)" "c - 1" j]
    by (auto simp: rcv_inv_def)
  ultimately show gt: "c < roff k (rcv_buf k ! j)" by simp
  have "c < 2 ^ 32" using ready_count_bound [OF inv, of room] inv c by (simp add: rcv_inv_def)
  then have "soff (rcv_nxt k - 1) (rcv_nxt k + of_nat c - 1) = c"
    using soff_of_nat [of c "rcv_nxt k - 1"] by (simp add: algebra_simps)
  with gt show "soff (rcv_nxt k + of_nat c - 1) (s_sn (rcv_buf k ! j)) = roff k (rcv_buf k ! j) - c"
    unfolding roff_def 
    by (subst soff_shift [of "rcv_nxt k - 1"]) simp_all
qed

lemma move_ready_fields [simp]:
  "rcv_wnd (move_ready k) = rcv_wnd k"
  "stats (move_ready k) = stats k"
  "probe (move_ready k) = probe k"
  by (simp_all add: move_ready_def Let_def)

lemma move_ready_inv:
  assumes inv: "rcv_inv k"
  shows "rcv_inv (move_ready k)"
proof -
  let ?room = "length (rcv_queue k) < unat (rcv_wnd k)"
  define c where "c = ready_count (rcv_buf k) (rcv_nxt k) ?room"
  have k': "move_ready k = k \<lparr> rcv_nxt := rcv_nxt k + of_nat c,
      rcv_queue := rcv_queue k @ take c (rcv_buf k), rcv_buf := drop c (rcv_buf k) \<rparr>"
    by (simp add: move_ready_def c_def Let_def)
  show ?thesis
  proof (cases "c = 0")
    case True
    then show ?thesis using inv by (simp add: k')
  next
    case False
    have roff': "roff (move_ready k) s = soff (rcv_nxt k + of_nat c - 1) (s_sn s)" for s
      by (simp add: roff_def k')
    have rest: "roff (move_ready k) s = roff k s - c \<and> c < roff k s" if "s \<in> set (drop c (rcv_buf k))" for s
    proof -
      from that obtain j where "s = rcv_buf k ! j" "c \<le> j" "j < length (rcv_buf k)"
        by (auto simp: in_set_conv_nth intro: that [of "c + _"])
      then show ?thesis
        using roff_after_ready [OF inv c_def] False by (simp add: roff')
    qed
    have "?room" using False unfolding c_def by (cases ?room) auto
    then have "length (rcv_queue (move_ready k)) \<le> 2 * unat (rcv_wnd k)"
      using ready_count_bound [OF inv, of ?room] by (simp add: k' c_def)
    moreover have "sorted_wrt (<) (map (roff (move_ready k)) (drop c (rcv_buf k)))"
      by (rule sorted_wrt_map_minus [of "roff k" _ _ c])
        (use inv rest in \<open>auto simp: rcv_inv_def sorted_wrt_drop drop_map [symmetric] less_imp_le\<close>)
    moreover have "roff (move_ready k) s \<le> unat (rcv_wnd k) \<and> roff (move_ready k) s \<noteq> 0"
      if "s \<in> set (drop c (rcv_buf k))" for s
      using inv rest [OF that] in_set_dropD [OF that] unfolding rcv_inv_def by fastforce
    moreover have "rcv_buf (move_ready k) = drop c (rcv_buf k)" by (simp add: k')
    ultimately show ?thesis
      using inv unfolding rcv_inv_def by (metis move_ready_fields(1))
  qed
qed

section \<open>Filing a segment\<close>

lemma insert_seg_eq: "idx \<le> length buf \<Longrightarrow> insert_seg buf idx s = take idx buf @ s # drop idx buf"
proof (cases "idx = length buf")
  case False
  assume "idx \<le> length buf"
  with False have lt: "idx < length buf" by simp
  have d: "drop idx (buf @ [segment0]) = drop idx buf @ [segment0]" using lt by simp
  have c: "go_copy (drop (Suc idx) (buf @ [segment0])) (drop idx (buf @ [segment0])) = drop idx buf"
    using lt by (simp add: go_copy_def)
  have "take (Suc idx) (buf @ [segment0]) = take idx buf @ [buf ! idx]"
    using lt by (simp add: take_Suc_conv_app_nth)
  then show ?thesis using lt False
    using c d by (simp add: insert_seg_def Let_def list_update_append)
qed (simp add: insert_seg_def)

text \<open>The scan finds the place in a sorted buffer, whatever order \<open>f\<close> the comparison stands for.\<close>

lemma find_slot_spec:
  fixes f :: "u32 \<Rightarrow> nat"
  assumes cmp: "\<And>s. s \<in> set buf \<Longrightarrow> itimediff sn (s_sn s) > 0 \<longleftrightarrow> f (s_sn s) < f sn"
    and eq: "\<And>s. s \<in> set buf \<Longrightarrow> s_sn s = sn \<longleftrightarrow> f (s_sn s) = f sn"
    and n: "n \<le> length buf" and res: "find_slot buf sn n = (rep, p)"
  shows "(rep \<longrightarrow> (\<exists>s \<in> set buf. s_sn s = sn)) \<and>
    (\<not> rep \<longrightarrow> p \<le> n \<and> (\<forall>i. p \<le> i \<and> i < n \<longrightarrow> f sn < f (s_sn (buf ! i))) \<and>
      (0 < p \<longrightarrow> f (s_sn (buf ! (p - 1))) < f sn))"
  using n res
proof (induction n)
  case (Suc n)
  have mem: "buf ! n \<in> set buf" using Suc.prems(1) by simp
  consider "s_sn (buf ! n) = sn" | "s_sn (buf ! n) \<noteq> sn" "f (s_sn (buf ! n)) < f sn"
    | "s_sn (buf ! n) \<noteq> sn" "f sn < f (s_sn (buf ! n))"
    using eq [OF mem] by linarith
  then show ?case
  proof cases
    case 1
    then show ?thesis using Suc.prems mem by auto
  next
    case 2
    then show ?thesis using Suc.prems cmp [OF mem] by auto
  next
    case 3
    then have "find_slot buf sn n = (rep, p)"
      using Suc.prems cmp [OF mem] by (simp split: if_splits)
    with Suc.IH Suc.prems 3 show ?thesis
      by (auto simp: less_Suc_eq)
  qed
qed simp

lemma sorted_insert_mid:
  assumes "sorted_wrt (<) (map f xs)" "p \<le> length xs"
    and "\<forall>i. p \<le> i \<and> i < length xs \<longrightarrow> f a < (f (xs ! i) :: nat)"
    and "0 < p \<longrightarrow> f (xs ! (p - 1)) < f a"
  shows "sorted_wrt (<) (map f (take p xs @ a # drop p xs))"
proof -
  have 1: "sorted_wrt (<) (map f (take p xs) @ map f (drop p xs))"
    using assms(1) by (simp flip: map_append)
  have 2: "f x < f a" if "x \<in> set (take p xs)" for x
  proof -
    from that obtain i where i: "i < p" "i < length xs" "x = xs ! i"
      by (auto simp: in_set_conv_nth)
    then have "i < p - 1 \<Longrightarrow> f x < f (xs ! (p - 1))"
      using assms(1,2) sorted_wrt_nth_less [of "(<)" "map f xs" i "p - 1"] by simp
    with i assms(4) show ?thesis by (cases "i = p - 1") fastforce+
  qed
  have 3: "f a < f x" if "x \<in> set (drop p xs)" for x
    using that assms(3) by (auto simp: in_set_conv_nth)
  show ?thesis using 1 2 3 by (auto simp: sorted_wrt_append)
qed

lemma parse_data_window:
  assumes "unat (rcv_wnd k) < 2 ^ 31"
  shows "(itimediff sn (rcv_nxt k + rcv_wnd k) \<ge> 0 \<or> itimediff sn (rcv_nxt k) < 0)
    \<longleftrightarrow> \<not> soff (rcv_nxt k) sn < unat (rcv_wnd k)"
proof (cases "soff (rcv_nxt k) sn < 2 ^ 31")
  case True
  have "soff (rcv_nxt k) (rcv_nxt k + rcv_wnd k) = unat (rcv_wnd k)" by (simp add: soff_def)
  with True assms itimediff_base [of "rcv_nxt k" sn "rcv_nxt k + rcv_wnd k"]
    itimediff_nonneg [of sn "rcv_nxt k"] show ?thesis by auto
next
  case False
  with itimediff_nonneg [of sn "rcv_nxt k"] assms show ?thesis by auto
qed

lemma roff_in_window:
  assumes "soff (rcv_nxt k) (s_sn s) < unat (rcv_wnd k)" "unat (rcv_wnd k) < 2 ^ 31"
  shows "roff k s = Suc (soff (rcv_nxt k) (s_sn s))"
proof -
  have "soff (rcv_nxt k - 1) (rcv_nxt k) = 1" by (simp add: soff_def)
  then show ?thesis
    using assms soff_shift_back [of "rcv_nxt k" "s_sn s" "rcv_nxt k - 1"] by (simp add: roff_def)
qed

text \<open>
  Everything \<open>parse_data\<close> does with a segment inside the window, before the ready run is moved:
  a repeat changes nothing but a counter; a new segment is inserted in its place.
\<close>

definition rcv_filed :: "segment \<Rightarrow> KCP \<Rightarrow> KCP" where
  "rcv_filed newseg k =
     (let (repeat, idx) = find_slot (rcv_buf k) (s_sn newseg) (length (rcv_buf k))
      in if repeat then k \<lparr> stats := (stats k) \<lparr> SegRepeat := SegRepeat (stats k) + 1 \<rparr> \<rparr>
         else k \<lparr> rcv_buf := insert_seg (rcv_buf k) idx newseg \<rparr>)"

lemma parse_data_eq:
  "unat (rcv_wnd k) < 2 ^ 31 \<Longrightarrow>
   parse_data newseg k =
     (if soff (rcv_nxt k) (s_sn newseg) < unat (rcv_wnd k) then move_ready (rcv_filed newseg k) else k)"
  unfolding parse_data_def rcv_filed_def Let_def
  by (subst parse_data_window) (auto split: prod.splits)

lemma find_slot_window:
  assumes inv: "rcv_inv k" and win: "soff (rcv_nxt k) (s_sn ns) < unat (rcv_wnd k)"
    and res: "find_slot (rcv_buf k) (s_sn ns) (length (rcv_buf k)) = (rep, p)"
  shows "(rep \<longrightarrow> s_sn ns \<in> s_sn ` set (rcv_buf k)) \<and>
    (\<not> rep \<longrightarrow> p \<le> length (rcv_buf k) \<and>
      (\<forall>i. p \<le> i \<and> i < length (rcv_buf k) \<longrightarrow> roff k ns < roff k (rcv_buf k ! i)) \<and>
      (0 < p \<longrightarrow> roff k (rcv_buf k ! (p - 1)) < roff k ns))"
proof -
  define f where "f = soff (rcv_nxt k - 1)"
  have rf: "roff k s = f (s_sn s)" for s by (simp add: roff_def f_def)
  have w: "unat (rcv_wnd k) < 2 ^ 31" using inv by (simp add: rcv_inv_def)
  have new: "f (s_sn ns) < 2 ^ 31"
    using roff_in_window [OF win w] win w by (simp add: rf [symmetric])
  have old: "f (s_sn s) < 2 ^ 31" if "s \<in> set (rcv_buf k)" for s
    using inv that w unfolding rcv_inv_def rf by fastforce
  have cmp: "itimediff (s_sn ns) (s_sn s) > 0 \<longleftrightarrow> f (s_sn s) < f (s_sn ns)" if "s \<in> set (rcv_buf k)" for s
    using itimediff_base [of "rcv_nxt k - 1" "s_sn ns" "s_sn s"] new old [OF that] by (simp add: f_def)
  have eq: "s_sn s = s_sn ns \<longleftrightarrow> f (s_sn s) = f (s_sn ns)" for s
    by (simp add: f_def soff_inject)
  from find_slot_spec [where f = f, OF cmp eq order_refl res] show ?thesis
    unfolding rf by (metis image_eqI)
qed

lemma rcv_filed_cases:
  assumes inv: "rcv_inv k" and win: "soff (rcv_nxt k) (s_sn ns) < unat (rcv_wnd k)"
  obtains
    (repeat) "s_sn ns \<in> s_sn ` set (rcv_buf k)"
      "rcv_filed ns k = k \<lparr> stats := (stats k) \<lparr> SegRepeat := SegRepeat (stats k) + 1 \<rparr> \<rparr>"
  | (insert) p where "s_sn ns \<notin> s_sn ` set (rcv_buf k)"
      "rcv_filed ns k = k \<lparr> rcv_buf := take p (rcv_buf k) @ ns # drop p (rcv_buf k) \<rparr>"
      "sorted_wrt (<) (map (roff k) (take p (rcv_buf k) @ ns # drop p (rcv_buf k)))"
proof -
  obtain rep p where fs: "find_slot (rcv_buf k) (s_sn ns) (length (rcv_buf k)) = (rep, p)" by fastforce
  note spec = find_slot_window [OF inv win fs]
  show thesis
  proof (cases rep)
    case True
    with spec fs show thesis by (intro repeat) (auto simp: rcv_filed_def)
  next
    case False
    with spec have sp: "p \<le> length (rcv_buf k)"
      "\<forall>i. p \<le> i \<and> i < length (rcv_buf k) \<longrightarrow> roff k ns < roff k (rcv_buf k ! i)"
      "0 < p \<longrightarrow> roff k (rcv_buf k ! (p - 1)) < roff k ns" by auto
    have sorted: "sorted_wrt (<) (map (roff k) (take p (rcv_buf k) @ ns # drop p (rcv_buf k)))"
      using inv sp by (intro sorted_insert_mid) (auto simp: rcv_inv_def)
    have "roff k ns \<noteq> roff k s" if "s \<in> set (rcv_buf k)" for s
    proof -
      have "s \<in> set (take p (rcv_buf k)) \<or> s \<in> set (drop p (rcv_buf k))"
        using that by (metis append_take_drop_id Un_iff set_append)
      with sorted show ?thesis by (auto simp: sorted_wrt_append)
    qed
    then have "s_sn ns \<notin> s_sn ` set (rcv_buf k)" by (metis imageE roff_def)
    moreover have "rcv_filed ns k = k \<lparr> rcv_buf := take p (rcv_buf k) @ ns # drop p (rcv_buf k) \<rparr>"
      using fs False sp(1) by (simp add: rcv_filed_def insert_seg_eq)
    ultimately show thesis using sorted by (rule insert)
  qed
qed

lemma rcv_filed_inv:
  assumes inv: "rcv_inv k" and win: "soff (rcv_nxt k) (s_sn ns) < unat (rcv_wnd k)"
  shows "rcv_inv (rcv_filed ns k)"
  using inv win
proof (cases rule: rcv_filed_cases)
  case repeat
  have "roff (rcv_filed ns k) = roff k" by (rule ext) (simp add: roff_def repeat)
  then show ?thesis using inv by (simp add: rcv_inv_def repeat)
next
  case (insert p)
  have eq: "roff (rcv_filed ns k) = roff k" by (rule ext) (simp add: roff_def insert)
  have "roff k ns = Suc (soff (rcv_nxt k) (s_sn ns))"
    using inv win by (intro roff_in_window) (auto simp: rcv_inv_def)
  then show ?thesis using inv win insert(3)
    unfolding rcv_inv_def eq unfolding insert(2)
    by (auto dest: in_set_takeD in_set_dropD)
qed

lemma parse_data_inv: "rcv_inv k \<Longrightarrow> rcv_inv (parse_data s k)"
  by (subst parse_data_eq) (auto simp: rcv_inv_def [of k] intro!: move_ready_inv rcv_filed_inv
      simp flip: rcv_inv_def)

lemma rcv_filed_fields:
  assumes "rcv_inv k" "soff (rcv_nxt k) (s_sn s) < unat (rcv_wnd k)"
  shows "rcv_nxt (rcv_filed s k) = rcv_nxt k \<and> rcv_queue (rcv_filed s k) = rcv_queue k \<and>
    rcv_wnd (rcv_filed s k) = rcv_wnd k \<and>
    set (rcv_buf (rcv_filed s k)) = set (rcv_buf k) \<union> (if s_sn s \<in> s_sn ` set (rcv_buf k) then {} else {s})"
  using assms
proof (cases rule: rcv_filed_cases)
  case (insert p)
  have "set (rcv_buf k) = set (take p (rcv_buf k)) \<union> set (drop p (rcv_buf k))"
    by (metis append_take_drop_id set_append)
  then show ?thesis using insert(1,2) by auto
qed simp

text \<open>The segments \<open>move_ready\<close> moves, and where it stops.\<close>

lemma move_ready_moves:
  "\<exists>new. rcv_queue (move_ready k) = rcv_queue k @ new \<and>
     map s_sn new = map (\<lambda>i. rcv_nxt k + of_nat i) [0..<length new] \<and>
     rcv_nxt (move_ready k) = rcv_nxt k + of_nat (length new) \<and>
     set new \<union> set (rcv_buf (move_ready k)) = set (rcv_buf k) \<and>
     (length (rcv_queue k) < unat (rcv_wnd k) \<longrightarrow>
       rcv_buf (move_ready k) = [] \<or> s_sn (hd (rcv_buf (move_ready k))) \<noteq> rcv_nxt (move_ready k))"
proof -
  define c where "c = ready_count (rcv_buf k) (rcv_nxt k) (length (rcv_queue k) < unat (rcv_wnd k))"
  have m: "rcv_nxt (move_ready k) = rcv_nxt k + of_nat c"
    "rcv_queue (move_ready k) = rcv_queue k @ take c (rcv_buf k)" "rcv_buf (move_ready k) = drop c (rcv_buf k)"
    by (simp_all add: move_ready_def Let_def c_def)
  have c: "c \<le> length (rcv_buf k)" using ready_count_le by (simp add: c_def)
  have "map s_sn (take c (rcv_buf k)) = map (\<lambda>i. rcv_nxt k + of_nat i) [0..<c]"
    using c ready_count_sn by (intro nth_equalityI) (auto simp: c_def)
  moreover have "set (take c (rcv_buf k)) \<union> set (drop c (rcv_buf k)) = set (rcv_buf k)"
    by (metis append_take_drop_id set_append)
  moreover have "s_sn (hd (drop c (rcv_buf k))) \<noteq> rcv_nxt k + of_nat c"
    if "length (rcv_queue k) < unat (rcv_wnd k)" "drop c (rcv_buf k) \<noteq> []"
  proof -
    have "c = ready_count (rcv_buf k) (rcv_nxt k) True" using that(1) by (simp add: c_def)
    then show ?thesis using ready_count_stop [of True "rcv_buf k" "rcv_nxt k"] that(2) by (simp add: hd_drop_conv_nth)
  qed
  ultimately show ?thesis using m c by (intro exI [of _ "take c (rcv_buf k)"]) auto
qed

end
