(* ===== verification/Kcp_Send.thy ===== *)
theory Kcp_Send
  imports Kcp_Recv
begin

text \<open>
  \<open>KCP.send\<close>: cutting user data into segments of at most \<open>mss\<close> bytes at the end of
  \<open>snd_queue\<close>. In stream mode the last queued segment is filled up first and every segment is a
  message of its own (\<open>frg = 0\<close>); in message mode the fragments of one call are numbered down
  to 0, which is how \<open>recv\<close> finds the end of the message.
\<close>

section \<open>Operations\<close>

text \<open>
  Lines 279 to 302: append to the previous segment. The result is what is left of the user's
  buffer. \<open>seg.data[:n]\<close> reslices a pooled array of \<open>udpPacketSizeLimit\<close> bytes.
\<close>

definition send_extend :: "bytes \<Rightarrow> KCP \<Rightarrow> (bytes \<times> KCP) res" where
  "send_extend buf k =
     (if snd_queue k = [] then Inr (buf, k)
      else let old = last (snd_queue k); oldDataLen = length (s_data old)
           in if int oldDataLen < mss k \<and> s_cmd old = IKCP_CMD_PUSH
              then let capacity = nat (mss k - int oldDataLen);
                       extend = (if length buf < capacity then length buf else capacity)
                   in if oldDataLen + extend \<le> udpPacketSizeLimit
                      then let grown = s_data old @ replicate extend 0;
                               seg = old \<lparr> s_data := take oldDataLen grown
                                            @ go_copy (drop oldDataLen grown) buf \<rparr>
                           in Inr (drop extend buf, k \<lparr> snd_queue := butlast (snd_queue k) @ [seg] \<rparr>)
                      else Inl SliceBounds
              else Inr (buf, k))"

text \<open>Lines 311 to 328; the argument counts the fragments still to be cut (\<open>count - i\<close>).\<close>

fun send_loop :: "nat \<Rightarrow> bytes \<Rightarrow> KCP \<Rightarrow> KCP res" where
  "send_loop 0 buf k = Inr k"
| "send_loop (Suc r) buf k =
     (let sz = (if int (length buf) > mss k then nat (mss k) else length buf)
      in bind_res (newSegment sz) (\<lambda>seg.
           let seg = seg \<lparr> s_cmd := IKCP_CMD_PUSH,
                           s_data := go_copy (s_data seg) (take sz buf),
                           s_frg := (if stream k = 0 then of_nat r else 0) \<rparr>
           in send_loop r (drop sz buf) (k \<lparr> snd_queue := snd_queue k @ [seg] \<rparr>)))"

definition frag_count :: "bytes \<Rightarrow> KCP \<Rightarrow> int" where
  "frag_count buf k = (int (length buf) + mss k - 1) div mss k"

definition send_frags :: "bytes \<Rightarrow> KCP \<Rightarrow> (int \<times> KCP) res" where
  "send_frags buf k =
     (if mss k = 0 then Inl DivideByZero
      else if stream k = 0 \<and> frag_count buf k > 255 then Inr (-2, k)
      else bind_res (send_loop (nat (frag_count buf k)) buf k) (\<lambda>k. Inr (0, k)))"

definition send :: "bytes \<Rightarrow> KCP \<Rightarrow> (int \<times> KCP) res" where
  "send buf k =
     (if buf = [] then Inr (-1, k)
      else if stream k \<noteq> 0
           then bind_res (send_extend buf k) (\<lambda>(buf, k).
                  if buf = [] then Inr (0, k) else send_frags buf k)
           else send_frags buf k)"

section \<open>Chunks\<close>

text \<open>Reference cutting: chunks of \<open>m\<close> bytes, the last one possibly shorter.\<close>

function chunks :: "nat \<Rightarrow> 'a list \<Rightarrow> 'a list list" where
  "chunks m xs = (if xs = [] \<or> m = 0 then [] else take m xs # chunks m (drop m xs))"
  by pat_completeness auto
termination
  by (relation "measure (\<lambda>(m, xs). length xs)") auto

declare chunks.simps [simp del]

lemma chunks_Nil [simp]: "chunks m [] = []"
  by (simp add: chunks.simps)

lemma chunks_Cons: "xs \<noteq> [] \<Longrightarrow> 0 < m \<Longrightarrow> chunks m xs = take m xs # chunks m (drop m xs)"
  by (subst chunks.simps) simp

lemma concat_chunks: "0 < m \<Longrightarrow> concat (chunks m xs) = xs"
proof (induction m xs rule: chunks.induct)
  case (1 m xs)
  then show ?case by (cases "xs = []") (simp_all add: chunks_Cons)
qed

lemma chunks_size: "c \<in> set (chunks m xs) \<Longrightarrow> 0 < length c \<and> length c \<le> m"
proof (induction m xs rule: chunks.induct)
  case (1 m xs)
  then show ?case by (cases "xs = [] \<or> m = 0") (auto simp: chunks_Cons chunks.simps [of m xs])
qed

text \<open>The segments one call of \<open>send\<close> appends: chunks with their fragment numbers.\<close>

fun mk_frags :: "bool \<Rightarrow> bytes list \<Rightarrow> segment list" where
  "mk_frags msg [] = []"
| "mk_frags msg (c # cs) =
     segment0 \<lparr> s_cmd := IKCP_CMD_PUSH, s_data := c, s_frg := (if msg then of_nat (length cs) else 0) \<rparr>
     # mk_frags msg cs"

lemma mk_frags_data: "map s_data (mk_frags msg cs) = cs"
  by (induction cs) auto

lemma mk_frags_cmd: "s \<in> set (mk_frags msg cs) \<Longrightarrow> s_cmd s = IKCP_CMD_PUSH"
  by (induction cs) auto

lemma first_msg_mk_frags:
  assumes "cs \<noteq> []" "length cs \<le> 2 ^ 32"
  shows "first_msg (mk_frags True cs @ rest) = mk_frags True cs"
  using assms
proof (induction cs)
  case (Cons c cs)
  show ?case
  proof (cases "cs = []")
    case False
    then have "(of_nat (length cs) :: u32) \<noteq> 0"
      using Cons.prems by (auto simp: word_unat_eq_iff unat_of_nat)
    then show ?thesis using Cons False by simp
  qed simp
qed simp

lemma length_chunks: "0 < m \<Longrightarrow> length (chunks m xs) = (length xs + m - 1) div m"
proof (induction m xs rule: chunks.induct)
  case (1 m xs)
  show ?case
  proof (cases "xs = []")
    case False
    have "(length xs + m - 1) div m = Suc ((length xs - m + m - 1) div m)"
    proof (cases "length xs \<le> m")
      case True
      obtain n where "length xs = Suc n" using False by (cases xs) auto
      moreover have "(n + m) div m = n div m + 1" using True 1 by (intro div_add_self2) simp
      ultimately show ?thesis using True 1 by simp
    next
      case F: False
      then obtain q where q: "length xs = q + m" by (metis nat_le_linear le_add_diff_inverse2)
      have "(q + m - 1 + m) div m = (q + m - 1) div m + 1" using 1 by (intro div_add_self2) simp
      moreover have "length xs + m - 1 = q + m - 1 + m" using q 1 by simp
      ultimately show ?thesis using q by simp
    qed
    with 1 False show ?thesis by (simp add: chunks_Cons)
  qed (use 1 in simp)
qed

section \<open>What a call of \<open>send\<close> does\<close>

lemma send_loop_eq:
  assumes "0 < mss k" "mss k \<le> int udpPacketSizeLimit"
  shows "send_loop (length (chunks (nat (mss k)) buf)) buf k =
    Inr (k \<lparr> snd_queue := snd_queue k @ mk_frags (stream k = 0) (chunks (nat (mss k)) buf) \<rparr>)"
  using assms
proof (induction "length buf" arbitrary: buf k rule: less_induct)
  case less
  show ?case
  proof (cases "buf = []")
    case False
    let ?m = "nat (mss k)"
    define sz where "sz = (if int (length buf) > mss k then nat (mss k) else length buf)"
    have cut: "take sz buf = take ?m buf" "drop sz buf = drop ?m buf" "sz \<le> udpPacketSizeLimit"
      "length (take sz buf) = sz"
      using less.prems by (auto simp: sz_def)
    have ch: "chunks ?m buf = take ?m buf # chunks ?m (drop ?m buf)"
      using False less.prems by (simp add: chunks_Cons)
    define seg where "seg = segment0 \<lparr> s_cmd := IKCP_CMD_PUSH, s_data := take ?m buf,
      s_frg := (if stream k = 0 then of_nat (length (chunks ?m (drop ?m buf))) else 0) \<rparr>"
    have step: "send_loop (length (chunks ?m buf)) buf k =
        send_loop (length (chunks ?m (drop ?m buf))) (drop ?m buf) (k \<lparr> snd_queue := snd_queue k @ [seg] \<rparr>)"
      using cut by (simp add: ch newSegment_def seg_def flip: sz_def)
    have "length (drop ?m buf) < length buf" using False less.prems by simp
    from less.hyps [OF this, of "k \<lparr> snd_queue := snd_queue k @ [seg] \<rparr>"] less.prems show ?thesis
      unfolding step by (simp add: ch seg_def)
  qed simp
qed

lemma frag_count_chunks: "0 < mss k \<Longrightarrow> nat (frag_count buf k) = length (chunks (nat (mss k)) buf)"
proof -
  assume m: "0 < mss k"
  then have "frag_count buf k = int ((length buf + nat (mss k) - 1) div nat (mss k))"
    by (simp add: frag_count_def zdiv_int of_nat_diff)
  then show ?thesis using m by (simp add: length_chunks)
qed

lemma send_frags_eq:
  assumes "0 < mss k" "mss k \<le> int udpPacketSizeLimit"
  shows "send_frags buf k =
    (if stream k = 0 \<and> length (chunks (nat (mss k)) buf) > 255 then Inr (-2, k)
     else Inr (0, k \<lparr> snd_queue := snd_queue k @ mk_frags (stream k = 0) (chunks (nat (mss k)) buf) \<rparr>))"
proof -
  have "frag_count buf k > 255 \<longleftrightarrow> length (chunks (nat (mss k)) buf) > 255"
    using frag_count_chunks [OF assms(1), of buf] by linarith
  with assms show ?thesis
    by (simp add: send_frags_def frag_count_chunks send_loop_eq)
qed

text \<open>Stream mode: how much of the data goes into the segment at the end of the queue.\<close>

definition room_in_last :: "KCP \<Rightarrow> nat" where
  "room_in_last k =
     (if snd_queue k = [] \<or> s_cmd (last (snd_queue k)) \<noteq> IKCP_CMD_PUSH then 0
      else nat (mss k - int (length (s_data (last (snd_queue k))))))"

definition fill_last :: "bytes \<Rightarrow> KCP \<Rightarrow> segment list" where
  "fill_last buf k =
     (if room_in_last k = 0 then snd_queue k
      else butlast (snd_queue k) @ [(last (snd_queue k)) \<lparr> s_data :=
             s_data (last (snd_queue k)) @ take (room_in_last k) buf \<rparr>])"

lemma send_extend_eq:
  assumes "0 < mss k" "mss k \<le> int udpPacketSizeLimit"
  shows "send_extend buf k = Inr (drop (room_in_last k) buf, k \<lparr> snd_queue := fill_last buf k \<rparr>)"
  using assms
  by (auto simp: send_extend_def room_in_last_def fill_last_def Let_def go_copy_def min_def)

lemma fill_last_data:
  "concat (map s_data (fill_last buf k)) = concat (map s_data (snd_queue k)) @ take (room_in_last k) buf"
proof (cases "room_in_last k = 0")
  case False
  then have ne: "snd_queue k \<noteq> []" by (auto simp: room_in_last_def)
  have "concat (map s_data (snd_queue k)) =
      concat (map s_data (butlast (snd_queue k))) @ s_data (last (snd_queue k))"
    using arg_cong [OF append_butlast_last_id [OF ne], of "\<lambda>q. concat (map s_data q)"] by simp
  with False show ?thesis by (simp add: fill_last_def)
qed (simp add: fill_last_def)

lemma send_stream_eq:
  assumes "0 < mss k" "mss k \<le> int udpPacketSizeLimit" "stream k \<noteq> 0" "buf \<noteq> []"
  shows "send buf k = Inr (0, k \<lparr> snd_queue := fill_last buf k @
     mk_frags False (chunks (nat (mss k)) (drop (room_in_last k) buf)) \<rparr>)"
  using assms by (auto simp: send_def send_extend_eq send_frags_eq)

lemma send_msg_eq:
  assumes "0 < mss k" "mss k \<le> int udpPacketSizeLimit" "stream k = 0" "buf \<noteq> []"
  shows "send buf k =
    (if length (chunks (nat (mss k)) buf) > 255 then Inr (-2, k)
     else Inr (0, k \<lparr> snd_queue := snd_queue k @ mk_frags True (chunks (nat (mss k)) buf) \<rparr>))"
  using assms by (simp add: send_def send_frags_eq)

section \<open>Announcing a message\<close>

lemma recvSize_mk_frags:
  assumes "cs \<noteq> []" "length cs \<le> 255" "rcv_queue r = mk_frags True cs @ rest"
  shows "fst (recvSize r) = int (frag_len (rcv_queue r))"
proof -
  obtain c cs' where c: "cs = c # cs'" using assms(1) by (cases cs) auto
  have l: "length (mk_frags True cs) = length cs" using mk_frags_data by (metis length_map)
  have u: "unat (of_nat (length cs') + 1 :: u32) = length cs"
  proof -
    have "(of_nat (length cs') + 1 :: u32) = of_nat (length cs)" using c by (simp add: add.commute)
    then show ?thesis using assms(2) by (simp add: unat_of_nat)
  qed
  have "s_frg (hd (rcv_queue r)) = of_nat (length cs')" "rcv_queue r \<noteq> []" "length cs \<le> length (rcv_queue r)"
    using assms(3) c l by simp_all
  then show ?thesis using u by (cases "rcv_queue r") (auto simp: recvSize_def)
qed

lemma chunks_total: "0 < m \<Longrightarrow> length xs \<le> length (chunks m xs) * m"
proof (induction m xs rule: chunks.induct)
  case (1 m xs)
  then show ?case by (cases "xs = []") (auto simp: chunks_Cons)
qed

lemma chunks_count_gt: "0 < m \<Longrightarrow> n * m < length xs \<Longrightarrow> n < length (chunks m xs)"
proof -
  assume m: "0 < m" and l: "n * m < length xs"
  have "n * m < length (chunks m xs) * m"
    using chunks_total [OF m, of xs] l by (rule less_le_trans [rotated])
  then show ?thesis by simp
qed

end
