(* ===== verification/Kcp_Ack.thy ===== *)
theory Kcp_Ack
  imports Kcp_Send
begin

text \<open>
  Acknowledgement bookkeeping of \<open>go/kcp/kcp.go\<close>: the retransmission-timeout estimator
  \<open>update_ack\<close>, and \<open>shrink_buf\<close>, \<open>parse_ack\<close>, \<open>parse_fastack\<close>, \<open>parse_una\<close>, \<open>ack_push\<close>.
  The invariant \<open>snd_inv\<close> describes the in-flight window \<open>snd_buf\<close> between \<open>snd_una\<close> and
  \<open>snd_nxt\<close> with distances on the number circle; it survives any acknowledgement a peer can send.
\<close>

section \<open>Operations\<close>

text \<open>\<open>update_ack\<close>: lines 358 to 371 smooth the sample, lines 372 and 373 set the timeout.\<close>

definition rtt_sample :: "int \<Rightarrow> KCP \<Rightarrow> KCP" where
  "rtt_sample rtt k =
     (if rx_srtt k = 0
      then k \<lparr> rx_srtt := to_uint32 rtt, rx_rttval := to_uint32 rtt div 2 \<rparr>
      else let delta = to_int32 (rtt - sint (rx_srtt k));
               delta = (if delta < 0 then to_int32 (- delta) else delta);
               k = k \<lparr> rx_rttval := (3 * rx_rttval k + to_uint32 delta) div 4 \<rparr>;
               k = k \<lparr> rx_srtt := (7 * rx_srtt k + to_uint32 rtt) div 8 \<rparr>
           in if rx_srtt k < 1 then k \<lparr> rx_srtt := 1 \<rparr> else k)"

definition update_ack :: "int \<Rightarrow> KCP \<Rightarrow> KCP" where
  "update_ack rtt k =
     (let k = rtt_sample rtt k;
          rto = rx_srtt k + imax (interval k) (4 * rx_rttval k)
      in k \<lparr> rx_rto := ibound (rx_minrto k) rto IKCP_RTO_MAX \<rparr>)"

definition shrink_buf :: "KCP \<Rightarrow> KCP" where
  "shrink_buf k =
     (case snd_buf k of
        seg # _ \<Rightarrow> k \<lparr> snd_una := s_sn seg \<rparr>
      | [] \<Rightarrow> k \<lparr> snd_una := snd_nxt k \<rparr>)"

text \<open>The loop of \<open>parse_ack\<close>: the first segment with the number is cut out, later ones are not searched.\<close>

fun ack_remove :: "u32 \<Rightarrow> segment list \<Rightarrow> segment list" where
  "ack_remove sn [] = []"
| "ack_remove sn (seg # segs) =
     (if sn = s_sn seg then segs
      else if itimediff sn (s_sn seg) < 0 then seg # segs
      else seg # ack_remove sn segs)"

definition parse_ack :: "u32 \<Rightarrow> KCP \<Rightarrow> KCP" where
  "parse_ack sn k =
     (if itimediff sn (snd_una k) < 0 \<or> itimediff sn (snd_nxt k) \<ge> 0 then k
      else k \<lparr> snd_buf := ack_remove sn (snd_buf k) \<rparr>)"

fun fastack_mark :: "u32 \<Rightarrow> segment list \<Rightarrow> segment list" where
  "fastack_mark sn [] = []"
| "fastack_mark sn (seg # segs) =
     (if itimediff sn (s_sn seg) < 0 then seg # segs
      else (if sn \<noteq> s_sn seg then seg \<lparr> s_fastack := s_fastack seg + 1 \<rparr> else seg)
           # fastack_mark sn segs)"

definition parse_fastack :: "u32 \<Rightarrow> KCP \<Rightarrow> KCP" where
  "parse_fastack sn k =
     (if itimediff sn (snd_una k) < 0 \<or> itimediff sn (snd_nxt k) \<ge> 0 then k
      else k \<lparr> snd_buf := fastack_mark sn (snd_buf k) \<rparr>)"

fun una_count :: "u32 \<Rightarrow> segment list \<Rightarrow> nat" where
  "una_count una [] = 0"
| "una_count una (seg # segs) = (if itimediff una (s_sn seg) > 0 then Suc (una_count una segs) else 0)"

definition parse_una :: "u32 \<Rightarrow> KCP \<Rightarrow> KCP" where
  "parse_una una k = k \<lparr> snd_buf := drop (una_count una (snd_buf k)) (snd_buf k) \<rparr>"

definition ack_push :: "u32 \<Rightarrow> u32 \<Rightarrow> KCP \<Rightarrow> KCP" where
  "ack_push sn ts k = k \<lparr> acklist := acklist k @ [\<lparr> a_sn = sn, a_ts = ts \<rparr>] \<rparr>"

section \<open>The in-flight window\<close>

definition WND_MAX :: nat where "WND_MAX = 65535"

text \<open>
  \<open>in_flight base nxt sns\<close>: the sequence numbers \<open>sns\<close> increase strictly and lie from
  \<open>base\<close> up to but not including \<open>nxt\<close>.
\<close>

definition in_flight :: "u32 \<Rightarrow> u32 \<Rightarrow> u32 list \<Rightarrow> bool" where
  "in_flight base nxt sns \<longleftrightarrow>
     soff base nxt \<le> WND_MAX \<and>
     sorted_wrt (<) (map (soff base) sns) \<and>
     (\<forall>sn \<in> set sns. soff base sn < soff base nxt)"

definition una_of :: "KCP \<Rightarrow> u32" where
  "una_of k = (case snd_buf k of [] \<Rightarrow> snd_nxt k | s # _ \<Rightarrow> s_sn s)"

definition snd_inv :: "KCP \<Rightarrow> bool" where
  "snd_inv k \<longleftrightarrow> in_flight (snd_una k) (snd_nxt k) (map s_sn (snd_buf k)) \<and> una_of k = snd_una k \<and>
     unat (rmt_wnd k) \<le> WND_MAX"

lemma una_of_frame [simp]:
  "una_of (k \<lparr> conv := x_conv \<rparr>) = una_of k"
  "una_of (k \<lparr> state := x_state \<rparr>) = una_of k"
  "una_of (k \<lparr> mtu := x_mtu \<rparr>) = una_of k"
  "una_of (k \<lparr> mss := x_mss \<rparr>) = una_of k"
  "una_of (k \<lparr> snd_una := x_snd_una \<rparr>) = una_of k"
  "una_of (k \<lparr> rcv_nxt := x_rcv_nxt \<rparr>) = una_of k"
  "una_of (k \<lparr> ssthresh := x_ssthresh \<rparr>) = una_of k"
  "una_of (k \<lparr> rx_rttval := x_rx_rttval \<rparr>) = una_of k"
  "una_of (k \<lparr> rx_srtt := x_rx_srtt \<rparr>) = una_of k"
  "una_of (k \<lparr> rx_rto := x_rx_rto \<rparr>) = una_of k"
  "una_of (k \<lparr> rx_minrto := x_rx_minrto \<rparr>) = una_of k"
  "una_of (k \<lparr> snd_wnd := x_snd_wnd \<rparr>) = una_of k"
  "una_of (k \<lparr> rcv_wnd := x_rcv_wnd \<rparr>) = una_of k"
  "una_of (k \<lparr> rmt_wnd := x_rmt_wnd \<rparr>) = una_of k"
  "una_of (k \<lparr> cwnd := x_cwnd \<rparr>) = una_of k"
  "una_of (k \<lparr> probe := x_probe \<rparr>) = una_of k"
  "una_of (k \<lparr> interval := x_interval \<rparr>) = una_of k"
  "una_of (k \<lparr> ts_flush := x_ts_flush \<rparr>) = una_of k"
  "una_of (k \<lparr> xmit := x_xmit \<rparr>) = una_of k"
  "una_of (k \<lparr> nodelay := x_nodelay \<rparr>) = una_of k"
  "una_of (k \<lparr> updated := x_updated \<rparr>) = una_of k"
  "una_of (k \<lparr> ts_probe := x_ts_probe \<rparr>) = una_of k"
  "una_of (k \<lparr> probe_wait := x_probe_wait \<rparr>) = una_of k"
  "una_of (k \<lparr> dead_link := x_dead_link \<rparr>) = una_of k"
  "una_of (k \<lparr> incr := x_incr \<rparr>) = una_of k"
  "una_of (k \<lparr> fastresend := x_fastresend \<rparr>) = una_of k"
  "una_of (k \<lparr> nocwnd := x_nocwnd \<rparr>) = una_of k"
  "una_of (k \<lparr> stream := x_stream \<rparr>) = una_of k"
  "una_of (k \<lparr> snd_queue := x_snd_queue \<rparr>) = una_of k"
  "una_of (k \<lparr> rcv_queue := x_rcv_queue \<rparr>) = una_of k"
  "una_of (k \<lparr> rcv_buf := x_rcv_buf \<rparr>) = una_of k"
  "una_of (k \<lparr> acklist := x_acklist \<rparr>) = una_of k"
  "una_of (k \<lparr> buffer := x_buffer \<rparr>) = una_of k"
  "una_of (k \<lparr> outputs := x_outputs \<rparr>) = una_of k"
  "una_of (k \<lparr> stats := x_stats \<rparr>) = una_of k"
  "una_of (k \<lparr> gstats := x_gstats \<rparr>) = una_of k"
  by (simp_all add: una_of_def split: list.split)

lemma snd_inv_frame [simp]:
  "snd_inv (k \<lparr> conv := x_conv \<rparr>) = snd_inv k"
  "snd_inv (k \<lparr> state := x_state \<rparr>) = snd_inv k"
  "snd_inv (k \<lparr> mtu := x_mtu \<rparr>) = snd_inv k"
  "snd_inv (k \<lparr> mss := x_mss \<rparr>) = snd_inv k"
  "snd_inv (k \<lparr> rcv_nxt := x_rcv_nxt \<rparr>) = snd_inv k"
  "snd_inv (k \<lparr> ssthresh := x_ssthresh \<rparr>) = snd_inv k"
  "snd_inv (k \<lparr> rx_rttval := x_rx_rttval \<rparr>) = snd_inv k"
  "snd_inv (k \<lparr> rx_srtt := x_rx_srtt \<rparr>) = snd_inv k"
  "snd_inv (k \<lparr> rx_rto := x_rx_rto \<rparr>) = snd_inv k"
  "snd_inv (k \<lparr> rx_minrto := x_rx_minrto \<rparr>) = snd_inv k"
  "snd_inv (k \<lparr> snd_wnd := x_snd_wnd \<rparr>) = snd_inv k"
  "snd_inv (k \<lparr> rcv_wnd := x_rcv_wnd \<rparr>) = snd_inv k"
  "snd_inv (k \<lparr> cwnd := x_cwnd \<rparr>) = snd_inv k"
  "snd_inv (k \<lparr> probe := x_probe \<rparr>) = snd_inv k"
  "snd_inv (k \<lparr> interval := x_interval \<rparr>) = snd_inv k"
  "snd_inv (k \<lparr> ts_flush := x_ts_flush \<rparr>) = snd_inv k"
  "snd_inv (k \<lparr> xmit := x_xmit \<rparr>) = snd_inv k"
  "snd_inv (k \<lparr> nodelay := x_nodelay \<rparr>) = snd_inv k"
  "snd_inv (k \<lparr> updated := x_updated \<rparr>) = snd_inv k"
  "snd_inv (k \<lparr> ts_probe := x_ts_probe \<rparr>) = snd_inv k"
  "snd_inv (k \<lparr> probe_wait := x_probe_wait \<rparr>) = snd_inv k"
  "snd_inv (k \<lparr> dead_link := x_dead_link \<rparr>) = snd_inv k"
  "snd_inv (k \<lparr> incr := x_incr \<rparr>) = snd_inv k"
  "snd_inv (k \<lparr> fastresend := x_fastresend \<rparr>) = snd_inv k"
  "snd_inv (k \<lparr> nocwnd := x_nocwnd \<rparr>) = snd_inv k"
  "snd_inv (k \<lparr> stream := x_stream \<rparr>) = snd_inv k"
  "snd_inv (k \<lparr> snd_queue := x_snd_queue \<rparr>) = snd_inv k"
  "snd_inv (k \<lparr> rcv_queue := x_rcv_queue \<rparr>) = snd_inv k"
  "snd_inv (k \<lparr> rcv_buf := x_rcv_buf \<rparr>) = snd_inv k"
  "snd_inv (k \<lparr> acklist := x_acklist \<rparr>) = snd_inv k"
  "snd_inv (k \<lparr> buffer := x_buffer \<rparr>) = snd_inv k"
  "snd_inv (k \<lparr> outputs := x_outputs \<rparr>) = snd_inv k"
  "snd_inv (k \<lparr> stats := x_stats \<rparr>) = snd_inv k"
  "snd_inv (k \<lparr> gstats := x_gstats \<rparr>) = snd_inv k"
  by (simp_all add: snd_inv_def)

lemma in_flight_subseq:
  assumes "in_flight b n sns" "subseq sns' sns"
  shows "in_flight b n sns'"
proof -
  have "sorted_wrt (<) (map (soff b) sns')"
    using assms by (auto simp: in_flight_def intro: sorted_wrt_subseq [OF subseq_map])
  moreover have "set sns' \<subseteq> set sns" using list_emb_set [OF assms(2)] by blast
  ultimately show ?thesis using assms(1) by (auto simp: in_flight_def)
qed

lemma in_flight_rebase:
  assumes fl: "in_flight b n (x # rest)"
  shows "in_flight x n (x # rest)"
proof -
  let ?sns = "x # rest" and ?d = "soff b x"
  have lt: "?d < soff b n" using fl by (simp add: in_flight_def)
  have le: "?d \<le> soff b y" if "y \<in> set ?sns" for y
    using fl that by (auto simp: in_flight_def)
  have n: "soff x n = soff b n - ?d" using lt by (intro soff_shift) simp
  have y: "soff x y = soff b y - ?d" if "y \<in> set ?sns" for y
    using le [OF that] by (rule soff_shift)
  have "sorted_wrt (<) (map (soff x) ?sns)"
    by (rule sorted_wrt_map_minus [of "soff b" _ _ ?d])
      (use fl y le in \<open>auto simp: in_flight_def\<close>)
  moreover have "soff x z < soff x n" if "z \<in> set ?sns" for z
    using fl that le [OF that] unfolding y [OF that] n in_flight_def by (intro diff_less_mono) auto
  moreover have "soff x n \<le> WND_MAX" using fl unfolding n in_flight_def by linarith
  ultimately show ?thesis by (simp add: in_flight_def)
qed

lemma in_flight_Nil [simp]: "in_flight n n []"
  by (simp add: in_flight_def)

text \<open>\<open>shrink_buf\<close> turns any window into one that starts at its first segment.\<close>

lemma shrink_buf_una: "snd_una (shrink_buf k) = una_of k"
  by (simp add: shrink_buf_def una_of_def split: list.splits)

lemma shrink_buf_fields [simp]:
  "snd_buf (shrink_buf k) = snd_buf k" "snd_nxt (shrink_buf k) = snd_nxt k"
  "rmt_wnd (shrink_buf k) = rmt_wnd k" "una_of (shrink_buf k) = una_of k"
  by (simp_all add: shrink_buf_def una_of_def split: list.splits)

lemma shrink_buf_inv:
  assumes "in_flight b (snd_nxt k) (map s_sn (snd_buf k))" "unat (rmt_wnd k) \<le> WND_MAX"
  shows "snd_inv (shrink_buf k)"
proof (cases "snd_buf k")
  case (Cons s rest)
  then show ?thesis
    using in_flight_rebase [of b] assms by (simp add: snd_inv_def shrink_buf_una una_of_def)
qed (use assms in \<open>simp add: snd_inv_def shrink_buf_una una_of_def\<close>)

section \<open>Acknowledgements under the invariant\<close>

lemma subseq_ack_remove: "subseq (ack_remove sn segs) segs"
  by (induction segs) auto

lemma subseq_drop: "subseq (drop n xs) xs"
  by (metis append_take_drop_id list_emb_append2 subseq_order.refl)

lemma parse_ack_fields [simp]:
  "snd_una (parse_ack sn k) = snd_una k" "snd_nxt (parse_ack sn k) = snd_nxt k"
  "rmt_wnd (parse_ack sn k) = rmt_wnd k"
  by (simp_all add: parse_ack_def)

lemma parse_una_fields [simp]:
  "snd_una (parse_una una k) = snd_una k" "snd_nxt (parse_una una k) = snd_nxt k"
  "rmt_wnd (parse_una una k) = rmt_wnd k"
  by (simp_all add: parse_una_def)

lemma parse_fastack_fields [simp]:
  "snd_una (parse_fastack sn k) = snd_una k" "snd_nxt (parse_fastack sn k) = snd_nxt k"
  "rmt_wnd (parse_fastack sn k) = rmt_wnd k"
  by (simp_all add: parse_fastack_def)

lemma parse_ack_flight:
  "in_flight b n (map s_sn (snd_buf k)) \<Longrightarrow> in_flight b n (map s_sn (snd_buf (parse_ack sn k)))"
  unfolding parse_ack_def
  by (auto intro: in_flight_subseq [OF _ subseq_map [OF subseq_ack_remove]])

lemma parse_una_flight:
  "in_flight b n (map s_sn (snd_buf k)) \<Longrightarrow> in_flight b n (map s_sn (snd_buf (parse_una una k)))"
  unfolding parse_una_def
  using in_flight_subseq [OF _ subseq_map [OF subseq_drop]] by simp

lemma fastack_mark_sn [simp]: "map s_sn (fastack_mark sn segs) = map s_sn segs"
  by (induction segs) auto

lemma parse_fastack_sn [simp]: "map s_sn (snd_buf (parse_fastack sn k)) = map s_sn (snd_buf k)"
  by (simp add: parse_fastack_def)

lemma una_of_sn: "una_of k = (case map s_sn (snd_buf k) of [] \<Rightarrow> snd_nxt k | x # _ \<Rightarrow> x)"
  by (simp add: una_of_def split: list.splits)

lemma parse_fastack_inv: "snd_inv k \<Longrightarrow> snd_inv (parse_fastack sn k)"
  unfolding snd_inv_def una_of_sn parse_fastack_sn parse_fastack_fields .

lemma ack_shrink_inv: "snd_inv k \<Longrightarrow> snd_inv (shrink_buf (parse_ack sn k))"
  by (rule shrink_buf_inv [of "snd_una k"]) (auto simp: snd_inv_def intro: parse_ack_flight)

lemma una_shrink_inv: "snd_inv k \<Longrightarrow> snd_inv (shrink_buf (parse_una una k))"
  by (rule shrink_buf_inv [of "snd_una k"]) (auto simp: snd_inv_def intro: parse_una_flight)

section \<open>What an acknowledgement removes and marks\<close>

lemma in_flight_tl: "in_flight b n (x # xs) \<Longrightarrow> in_flight b n xs"
  by (simp add: in_flight_def)

lemma snd_inv_flight: "snd_inv k \<Longrightarrow> in_flight (snd_una k) (snd_nxt k) (map s_sn (snd_buf k))"
  unfolding snd_inv_def by blast

lemma snd_inv_span: "snd_inv k \<Longrightarrow> soff (snd_una k) (snd_nxt k) \<le> 65535"
  using snd_inv_flight [of k] by (simp add: in_flight_def WND_MAX_def)

lemma ack_window:
  assumes "snd_inv k"
  shows "\<not> (itimediff sn (snd_una k) < 0 \<or> itimediff sn (snd_nxt k) \<ge> 0)
    \<longleftrightarrow> soff (snd_una k) sn < soff (snd_una k) (snd_nxt k)"
proof -
  have n: "soff (snd_una k) (snd_nxt k) < 2 ^ 31"
    using snd_inv_span [OF assms] by simp
  show ?thesis
  proof (cases "soff (snd_una k) sn < 2 ^ 31")
    case True
    with n itimediff_base [of "snd_una k" sn "snd_nxt k"] itimediff_nonneg [of sn "snd_una k"]
    show ?thesis by auto
  next
    case False
    with n itimediff_nonneg [of sn "snd_una k"] show ?thesis by auto
  qed
qed

lemma itimediff_in_flight:
  assumes "in_flight b n sns" "x \<in> set sns" "soff b sn < 2 ^ 31"
  shows "itimediff sn x = int (soff b sn) - int (soff b x)"
  using assms by (intro itimediff_base) (auto simp: in_flight_def WND_MAX_def)

lemma ack_remove_filter:
  "in_flight b n (map s_sn segs) \<Longrightarrow> soff b sn < 2 ^ 31 \<Longrightarrow>
   ack_remove sn segs = filter (\<lambda>s. s_sn s \<noteq> sn) segs"
proof (induction segs)
  case (Cons s segs)
  have fl: "in_flight b n (map s_sn segs)"
    using Cons.prems(1) by (auto dest: in_flight_tl)
  have lt: "soff b (s_sn s) < soff b (s_sn x)" if "x \<in> set segs" for x
    using Cons.prems(1) that by (auto simp: in_flight_def)
  have d: "itimediff sn (s_sn s) = int (soff b sn) - int (soff b (s_sn s))"
    using itimediff_in_flight [OF Cons.prems(1) _ Cons.prems(2), of "s_sn s"] by simp
  have "s_sn x \<noteq> sn" if "x \<in> set segs" "soff b sn \<le> soff b (s_sn s)" for x
    using lt [OF that(1)] that(2) by auto
  then have "filter (\<lambda>s. s_sn s \<noteq> sn) segs = segs" if "soff b sn \<le> soff b (s_sn s)"
    using that by (simp add: filter_id_conv)
  then show ?case using Cons.IH [OF fl Cons.prems(2)] d by auto
qed simp

lemma parse_ack_exact:
  assumes inv: "snd_inv k"
  shows "parse_ack sn k = k \<lparr> snd_buf := filter (\<lambda>s. s_sn s \<noteq> sn) (snd_buf k) \<rparr>"
proof (cases "soff (snd_una k) sn < soff (snd_una k) (snd_nxt k)")
  case True
  have "soff (snd_una k) sn < 2 ^ 31"
    using True snd_inv_span [OF inv] by simp
  then show ?thesis
    using ack_window [OF inv, of sn] True ack_remove_filter [OF snd_inv_flight [OF inv], of sn]
    by (simp add: parse_ack_def)
next
  case False
  then have "\<forall>s \<in> set (snd_buf k). s_sn s \<noteq> sn"
    using snd_inv_flight [OF inv] by (auto simp: in_flight_def)
  then have "filter (\<lambda>s. s_sn s \<noteq> sn) (snd_buf k) = snd_buf k" by (simp add: filter_id_conv)
  then show ?thesis
    using ack_window [OF inv, of sn] False by (simp add: parse_ack_def)
qed

lemma una_count_filter:
  "in_flight b n (map s_sn segs) \<Longrightarrow> soff b una < 2 ^ 31 \<Longrightarrow>
   drop (una_count una segs) segs = filter (\<lambda>s. soff b una \<le> soff b (s_sn s)) segs"
proof (induction segs)
  case (Cons s segs)
  have fl: "in_flight b n (map s_sn segs)"
    using Cons.prems(1) by (auto dest: in_flight_tl)
  have lt: "soff b (s_sn s) < soff b (s_sn x)" if "x \<in> set segs" for x
    using Cons.prems(1) that by (auto simp: in_flight_def)
  have d: "itimediff una (s_sn s) = int (soff b una) - int (soff b (s_sn s))"
    using itimediff_in_flight [OF Cons.prems(1) _ Cons.prems(2), of "s_sn s"] by simp
  have "filter (\<lambda>s. soff b una \<le> soff b (s_sn s)) segs = segs" if "soff b una \<le> soff b (s_sn s)"
    using that lt by (force simp: filter_id_conv)
  then show ?case using Cons.IH [OF fl Cons.prems(2)] d by auto
qed simp

lemma parse_una_exact:
  assumes inv: "snd_inv k"
  shows "snd_buf (parse_una una k) =
    (if soff (snd_una k) una < 2 ^ 31
     then filter (\<lambda>s. soff (snd_una k) una \<le> soff (snd_una k) (s_sn s)) (snd_buf k)
     else snd_buf k)"
proof (cases "soff (snd_una k) una < 2 ^ 31")
  case True
  then show ?thesis
    using una_count_filter [OF snd_inv_flight [OF inv], of una] by (simp add: parse_una_def)
next
  case False
  show ?thesis
  proof (cases "snd_buf k")
    case (Cons s rest)
    then have "s_sn s = snd_una k" using inv by (simp add: snd_inv_def una_of_def)
    then show ?thesis
      using Cons False itimediff_nonneg [of una "snd_una k"] by (simp add: parse_una_def)
  qed (simp add: parse_una_def)
qed

lemma fastack_mark_map:
  "in_flight b n (map s_sn segs) \<Longrightarrow> soff b sn < 2 ^ 31 \<Longrightarrow>
   fastack_mark sn segs = map (\<lambda>s. if soff b (s_sn s) < soff b sn
     then s \<lparr> s_fastack := s_fastack s + 1 \<rparr> else s) segs"
proof (induction segs)
  case (Cons s segs)
  have fl: "in_flight b n (map s_sn segs)"
    using Cons.prems(1) by (auto dest: in_flight_tl)
  have lt: "soff b (s_sn s) < soff b (s_sn x)" if "x \<in> set segs" for x
    using Cons.prems(1) that by (auto simp: in_flight_def)
  have d: "itimediff sn (s_sn s) = int (soff b sn) - int (soff b (s_sn s))"
    using itimediff_in_flight [OF Cons.prems(1) _ Cons.prems(2), of "s_sn s"] by simp
  have eq: "sn = s_sn s \<longleftrightarrow> soff b sn = soff b (s_sn s)" by (simp add: soff_inject)
  have "map (\<lambda>s. if soff b (s_sn s) < soff b sn then s \<lparr> s_fastack := s_fastack s + 1 \<rparr> else s) segs = segs"
    if "soff b sn \<le> soff b (s_sn s)"
    using that lt by (force intro: map_idI)
  then show ?case using Cons.IH [OF fl Cons.prems(2)] d eq by auto
qed simp

lemma parse_fastack_exact:
  assumes inv: "snd_inv k"
  shows "snd_buf (parse_fastack sn k) = map (\<lambda>s.
    if soff (snd_una k) sn < soff (snd_una k) (snd_nxt k) \<and> soff (snd_una k) (s_sn s) < soff (snd_una k) sn
    then s \<lparr> s_fastack := s_fastack s + 1 \<rparr> else s) (snd_buf k)"
proof (cases "soff (snd_una k) sn < soff (snd_una k) (snd_nxt k)")
  case True
  then have "soff (snd_una k) sn < 2 ^ 31"
    using snd_inv_span [OF inv] by simp
  then show ?thesis
    using True ack_window [OF inv, of sn] fastack_mark_map [OF snd_inv_flight [OF inv], of sn]
    by (simp add: parse_fastack_def)
qed (use ack_window [OF inv, of sn] in \<open>simp add: parse_fastack_def\<close>)

section \<open>The retransmission timeout\<close>

lemma rtt_sample_eq: "\<exists>a b. rtt_sample rtt k = k \<lparr> rx_srtt := a, rx_rttval := b \<rparr>"
proof -
  have "\<exists>a b. k \<lparr> rx_rttval := y, rx_srtt := x \<rparr> = k \<lparr> rx_srtt := a, rx_rttval := b \<rparr>" for x y
    by (intro exI [of _ x] exI [of _ y]) simp
  then show ?thesis unfolding rtt_sample_def Let_def by (auto simp del: KCP.update_convs)
qed

lemma update_ack_eq: "\<exists>a b c. update_ack rtt k = k \<lparr> rx_srtt := a, rx_rttval := b, rx_rto := c \<rparr>"
proof -
  obtain a b where "rtt_sample rtt k = k \<lparr> rx_srtt := a, rx_rttval := b \<rparr>"
    using rtt_sample_eq [of rtt k] by blast
  then have "update_ack rtt k = k \<lparr> rx_srtt := a, rx_rttval := b,
      rx_rto := ibound (rx_minrto k) (a + imax (interval k) (4 * b)) IKCP_RTO_MAX \<rparr>"
    by (simp add: update_ack_def Let_def)
  then show ?thesis by blast
qed

lemma update_ack_fields [simp]:
  "snd_buf (update_ack rtt k) = snd_buf k" "snd_una (update_ack rtt k) = snd_una k"
  "snd_nxt (update_ack rtt k) = snd_nxt k" "rmt_wnd (update_ack rtt k) = rmt_wnd k"
  "rx_minrto (update_ack rtt k) = rx_minrto k"
  using update_ack_eq [of rtt k] by auto

lemma update_ack_bounds:
  assumes "rx_minrto k \<le> IKCP_RTO_MAX"
  shows "rx_minrto k \<le> rx_rto (update_ack rtt k) \<and> rx_rto (update_ack rtt k) \<le> IKCP_RTO_MAX"
proof -
  have "rx_minrto (rtt_sample rtt k) = rx_minrto k" using rtt_sample_eq [of rtt k] by auto
  then have "rx_rto (update_ack rtt k) = ibound (rx_minrto k)
      (rx_srtt (rtt_sample rtt k) + imax (interval (rtt_sample rtt k)) (4 * rx_rttval (rtt_sample rtt k)))
      IKCP_RTO_MAX"
    by (simp add: update_ack_def Let_def)
  then show ?thesis using ibound_bounds [OF assms] by simp
qed

end
