(* ===== verification/Kcp_Input.thy ===== *)
theory Kcp_Input
  imports Kcp_Ack
begin

text \<open>
  \<open>KCP.input\<close>: one datagram holds any number of segments; each is decoded, checked and
  dispatched on its command, then the round-trip estimate and the congestion window are
  updated. The loop is defined by recursion on the rest of the datagram; every round consumes
  the 24 bytes of a header at least.
\<close>

section \<open>Operations\<close>

text \<open>The local variables \<open>flag\<close>, \<open>maxack\<close> and \<open>recentack\<close> that the loop carries.\<close>

record ackvars =
  flag :: int
  maxack :: u32
  recentack :: u32

definition ackvars0 :: ackvars where
  "ackvars0 = \<lparr> flag = 0, maxack = 0, recentack = 0 \<rparr>"

text \<open>How the loop ends: an early \<open>return\<close> of the whole function, or \<open>break\<close>.\<close>

datatype input_exit = Return int | Break ackvars

definition seg_repeat :: "KCP \<Rightarrow> KCP" where
  "seg_repeat k = k \<lparr> stats := (stats k) \<lparr> SegRepeat := SegRepeat (stats k) + 1 \<rparr> \<rparr>"

text \<open>Lines 536 to 541.\<close>

definition input_connect :: "header \<Rightarrow> KCP \<Rightarrow> KCP" where
  "input_connect h k =
     (if rcv_nxt k = 0
      then let k = ack_push (h_sn h) (h_ts h) k
           in k \<lparr> rcv_nxt := rcv_nxt k + 1, state := state k OR IKCP_STATE_CONNECTED \<rparr>
      else k)"

text \<open>Lines 542 to 551.\<close>

definition input_ack :: "header \<Rightarrow> ackvars \<Rightarrow> KCP \<Rightarrow> ackvars \<times> KCP" where
  "input_ack h v k =
     (let k = shrink_buf (parse_ack (h_sn h) k);
          v = (if flag v = 0 then v \<lparr> flag := 1, maxack := h_sn h \<rparr>
               else if itimediff (h_sn h) (maxack v) > 0 then v \<lparr> maxack := h_sn h \<rparr> else v)
      in (v \<lparr> recentack := h_ts h \<rparr>, k))"

text \<open>Lines 552 to 571; \<open>d\<close> is the datagram after the header.\<close>

definition input_push :: "header \<Rightarrow> bytes \<Rightarrow> KCP \<Rightarrow> KCP res" where
  "input_push h d k =
     (if itimediff (h_sn h) (rcv_nxt k + rcv_wnd k) < 0
      then let k = ack_push (h_sn h) (h_ts h) k
           in if itimediff (h_sn h) (rcv_nxt k) \<ge> 0
              then bind_res (newSegment (unat (h_len h))) (\<lambda>seg.
                     let seg = seg \<lparr> s_conv := h_conv h, s_cmd := ucast (h_cmd h),
                                     s_frg := ucast (h_frg h), s_wnd := ucast (h_wnd h),
                                     s_ts := h_ts h, s_sn := h_sn h, s_una := h_una h,
                                     s_data := go_copy (s_data seg) (take (unat (h_len h)) d) \<rparr>
                     in Inr (parse_data seg k))
              else Inr (seg_repeat k)
      else Inr (seg_repeat k))"

definition known_cmd :: "u8 \<Rightarrow> bool" where
  "known_cmd c \<longleftrightarrow> ucast c \<in> {IKCP_CMD_PUSH, IKCP_CMD_ACK, IKCP_CMD_WASK, IKCP_CMD_WINS, IKCP_CMD_CONNECT}"

text \<open>Lines 532 to 580: one segment that has passed the checks.\<close>

definition input_seg :: "header \<Rightarrow> bytes \<Rightarrow> ackvars \<Rightarrow> KCP \<Rightarrow> (ackvars \<times> KCP) res" where
  "input_seg h d v k =
     (let k = k \<lparr> rmt_wnd := ucast (h_wnd h) \<rparr>;
          k = shrink_buf (parse_una (h_una h) k);
          cmd = ucast (h_cmd h)
      in if cmd = IKCP_CMD_CONNECT then Inr (v, input_connect h k)
         else if cmd = IKCP_CMD_ACK then Inr (input_ack h v k)
         else if cmd = IKCP_CMD_PUSH then bind_res (input_push h d k) (\<lambda>k. Inr (v, k))
         else if cmd = IKCP_CMD_WASK then Inr (v, k \<lparr> probe := probe k OR IKCP_ASK_TELL \<rparr>)
         else Inr (v, k))"

function input_loop :: "bytes \<Rightarrow> ackvars \<Rightarrow> KCP \<Rightarrow> (input_exit \<times> KCP) res" where
  "input_loop data v k =
     (if length data < IKCP_OVERHEAD then Inr (Break v, k)
      else case decode_header data of
             Inl e \<Rightarrow> Inl e
           | Inr (h, d) \<Rightarrow>
               if h_conv h \<noteq> conv k then Inr (Return (-1), k)
               else if length d < unat (h_len h) then Inr (Return (-2), k)
               else if \<not> known_cmd (h_cmd h) then Inr (Return (-3), k)
               else case input_seg h d v k of
                      Inl e \<Rightarrow> Inl e
                    | Inr (v', k') \<Rightarrow> input_loop (drop (unat (h_len h)) d) v' k')"
  by pat_completeness auto
termination
  by (relation "measure (\<lambda>(data, v, k). length data)")
    (auto dest!: decode_header_exact simp: IKCP_OVERHEAD_def)

declare input_loop.simps [simp del]

text \<open>Lines 592 to 612: growth of the congestion window after an acknowledgement advanced \<open>snd_una\<close>.\<close>

definition cwnd_avoid :: "u32 \<Rightarrow> KCP \<Rightarrow> KCP res" where
  "cwnd_avoid m k =
     (let k = (if incr k < m then k \<lparr> incr := m \<rparr> else k)
      in if incr k = 0 then Inl DivideByZero
         else let k = k \<lparr> incr := incr k + ((m * m) div incr k + m div 16) \<rparr>
              in Inr (if (cwnd k + 1) * m \<le> incr k then k \<lparr> cwnd := cwnd k + 1 \<rparr> else k))"

definition cwnd_grow :: "KCP \<Rightarrow> KCP res" where
  "cwnd_grow k =
     (if cwnd k < rmt_wnd k
      then let m = to_uint32 (mss k)
           in bind_res (if cwnd k < ssthresh k
                        then Inr (k \<lparr> cwnd := cwnd k + 1, incr := incr k + m \<rparr>)
                        else cwnd_avoid m k)
                (\<lambda>k. Inr (if rmt_wnd k < cwnd k
                           then k \<lparr> cwnd := rmt_wnd k, incr := rmt_wnd k * m \<rparr> else k))
      else Inr k)"

text \<open>Lines 585 to 590.\<close>

definition input_rtt :: "u32 \<Rightarrow> bool \<Rightarrow> ackvars \<Rightarrow> KCP \<Rightarrow> KCP" where
  "input_rtt current upd v k =
     (if flag v \<noteq> 0 \<and> upd
      then let k = parse_fastack (maxack v) k
           in if itimediff current (recentack v) \<ge> 0
              then update_ack (itimediff current (recentack v)) k else k
      else k)"

definition input :: "u32 \<Rightarrow> bytes \<Rightarrow> bool \<Rightarrow> KCP \<Rightarrow> (int \<times> KCP) res" where
  "input current data upd k =
     (let una = snd_una k
      in if length data < IKCP_OVERHEAD then Inr (-1, k)
         else bind_res (input_loop data ackvars0 k) (\<lambda>(ex, k).
                case ex of
                  Return r \<Rightarrow> Inr (r, k)
                | Break v \<Rightarrow>
                    let k = input_rtt current upd v k
                    in if itimediff (snd_una k) una > 0
                       then bind_res (cwnd_grow k) (\<lambda>k. Inr (0, k)) else Inr (0, k)))"

section \<open>Preservation of the two invariants\<close>

lemma snd_inv_move_ready [simp]: "snd_inv (move_ready k) = snd_inv k"
  by (simp add: move_ready_def Let_def)

lemma snd_inv_parse_data [simp]: "snd_inv (parse_data s k) = snd_inv k"
  by (simp add: parse_data_def Let_def split: prod.split)

lemma snd_inv_ack_push [simp]: "snd_inv (ack_push sn t k) = snd_inv k"
  by (simp add: ack_push_def)

lemma rcv_inv_ack_push [simp]: "rcv_inv (ack_push sn t k) = rcv_inv k"
  by (simp add: ack_push_def)

lemma rcv_inv_snd_ops [simp]:
  "rcv_inv (shrink_buf k) = rcv_inv k"
  "rcv_inv (parse_ack sn k) = rcv_inv k"
  "rcv_inv (parse_una una k) = rcv_inv k"
  "rcv_inv (parse_fastack sn k) = rcv_inv k"
  by (simp_all add: shrink_buf_def parse_ack_def parse_una_def parse_fastack_def split: list.split)

lemma update_ack_invs [simp]:
  "rcv_inv (update_ack rtt k) = rcv_inv k"
  "snd_inv (update_ack rtt k) = snd_inv k"
  using update_ack_eq [of rtt k] by auto

lemma snd_inv_rmt_wnd: "snd_inv k \<Longrightarrow> snd_inv (k \<lparr> rmt_wnd := ucast (w :: u16) \<rparr>)"
proof -
  have "unat (ucast w :: u32) \<le> WND_MAX"
    using unsigned_less [of w, where ?'a = nat] by (simp add: WND_MAX_def)
  then show "snd_inv k \<Longrightarrow> snd_inv (k \<lparr> rmt_wnd := ucast w \<rparr>)" by (simp add: snd_inv_def)
qed

text \<open>A \<open>CONNECT\<close> moves \<open>rcv_nxt\<close> from 0 to 1 whatever the reorder buffer holds.\<close>

lemma connect_rcv_inv:
  assumes inv: "rcv_inv k" and z: "rcv_nxt k = 0"
  shows "rcv_inv (k \<lparr> rcv_nxt := 1 \<rparr>)"
proof -
  have pos: "1 \<le> roff k s" if "s \<in> set (rcv_buf k)" for s
    using inv z that by (fastforce simp: rcv_inv_def Suc_le_eq)
  have shift: "roff (k \<lparr> rcv_nxt := 1 \<rparr>) s = roff k s - 1" if "s \<in> set (rcv_buf k)" for s
  proof -
    have "soff (- 1) 0 = 1" by (simp add: soff_def)
    then show ?thesis using soff_shift [of "- 1" 0 "s_sn s"] pos [OF that] z by (simp add: roff_def)
  qed
  have "sorted_wrt (<) (map (roff (k \<lparr> rcv_nxt := 1 \<rparr>)) (rcv_buf k))"
    by (rule sorted_wrt_map_minus [of "roff k" _ _ 1]) (use inv pos shift in \<open>auto simp: rcv_inv_def\<close>)
  with inv shift show ?thesis by (auto simp: rcv_inv_def)
qed

lemma input_connect_inv:
  "rcv_inv k \<Longrightarrow> rcv_inv (input_connect h k)"
  "snd_inv k \<Longrightarrow> snd_inv (input_connect h k)"
  using connect_rcv_inv [of "ack_push (h_sn h) (h_ts h) k"]
  by (simp_all add: input_connect_def Let_def ack_push_def)

lemma input_ack_inv:
  "input_ack h v k = (v', k') \<Longrightarrow> rcv_inv k \<Longrightarrow> rcv_inv k'"
  "input_ack h v k = (v', k') \<Longrightarrow> snd_inv k \<Longrightarrow> snd_inv k'"
  by (auto simp: input_ack_def Let_def intro: ack_shrink_inv)

lemma input_push_inv:
  "input_push h d k = Inr k' \<Longrightarrow> rcv_inv k \<Longrightarrow> rcv_inv k'"
  "input_push h d k = Inr k' \<Longrightarrow> snd_inv k \<Longrightarrow> snd_inv k'"
  by (auto simp: input_push_def Let_def seg_repeat_def bind_res_eq_Inr parse_data_inv split: if_splits)

lemma input_seg_inv:
  assumes "input_seg h d v k = Inr (v', k')"
  shows "rcv_inv k \<Longrightarrow> rcv_inv k'" and "snd_inv k \<Longrightarrow> snd_inv k'"
proof -
  let ?k = "shrink_buf (parse_una (h_una h) (k \<lparr> rmt_wnd := ucast (h_wnd h) \<rparr>))"
  show "rcv_inv k'" if "rcv_inv k"
  proof -
    have "rcv_inv ?k" using that by simp
    with assms show ?thesis
      by (auto simp: input_seg_def Let_def bind_res_eq_Inr
          intro: input_connect_inv input_ack_inv(1) input_push_inv split: if_splits)
  qed
  show "snd_inv k'" if "snd_inv k"
  proof -
    have "snd_inv ?k" using that by (intro una_shrink_inv snd_inv_rmt_wnd)
    with assms show ?thesis
      by (auto simp: input_seg_def Let_def bind_res_eq_Inr
          intro: input_connect_inv input_ack_inv(2) input_push_inv split: if_splits)
  qed
qed

lemma input_loop_inv:
  assumes "input_loop data v k = Inr (ex, k')"
  shows "rcv_inv k \<Longrightarrow> rcv_inv k'" and "snd_inv k \<Longrightarrow> snd_inv k'"
  using assms
proof (induction data v k rule: input_loop.induct)
  case (1 data v k)
  {
    case 1
    then show ?case using "1.IH" input_seg_inv(1)
      by (subst (asm) input_loop.simps) (auto split: if_splits sum.splits prod.splits)
  next
    case 2
    then show ?case using "1.IH" input_seg_inv(2)
      by (subst (asm) input_loop.simps) (auto split: if_splits sum.splits prod.splits)
  }
qed

text \<open>The fields that no datagram can change.\<close>

definition input_frame where
  "input_frame k = (conv k, mtu k, mss k, buffer k, stream k, snd_nxt k, snd_queue k, snd_wnd k, rcv_wnd k,
     interval k, ts_flush k, nodelay k, updated k, fastresend k, nocwnd k, rx_minrto k, outputs k,
     ssthresh k, gstats k)"

lemmas input_frame_defs = input_connect_def input_ack_def input_push_def seg_repeat_def ack_push_def
  parse_data_def move_ready_def shrink_buf_def parse_ack_def parse_una_def parse_fastack_def Let_def

lemma input_frame_parse_data [simp]: "input_frame (parse_data s k) = input_frame k"
  by (simp add: input_frame_def parse_data_def move_ready_def Let_def split: prod.split)

lemma input_frame_snd_ops [simp]:
  "input_frame (shrink_buf k) = input_frame k"
  "input_frame (parse_ack sn k) = input_frame k"
  "input_frame (parse_una una k) = input_frame k"
  "input_frame (parse_fastack sn k) = input_frame k"
  "input_frame (ack_push sn t k) = input_frame k"
  "input_frame (input_connect h k) = input_frame k"
  "input_frame (seg_repeat k) = input_frame k"
  "input_frame (k \<lparr> rmt_wnd := w \<rparr>) = input_frame k"
  "input_frame (k \<lparr> probe := p \<rparr>) = input_frame k"
  "input_frame (snd (input_ack h v k)) = input_frame k"
  by (simp_all add: input_frame_def input_frame_defs split: list.split)

lemma input_frame_seg: "input_seg h d v k = Inr (v', k') \<Longrightarrow> input_frame k' = input_frame k"
proof -
  assume a: "input_seg h d v k = Inr (v', k')"
  have p: "input_frame q' = input_frame q" if "input_push h d q = Inr q'" for q q'
    using that by (auto simp: input_push_def bind_res_eq_Inr Let_def split: if_splits)
  have q: "input_frame k' = input_frame q" if "input_ack h v q = (v', k')" for q
    using input_frame_snd_ops(10) [of h v q] that by simp
  show ?thesis using a
    by (auto simp: input_seg_def Let_def bind_res_eq_Inr dest!: p q split: if_splits)
qed

lemma input_frame_loop: "input_loop data v k = Inr (ex, k') \<Longrightarrow> input_frame k' = input_frame k"
proof (induction data v k rule: input_loop.induct)
  case (1 data v k)
  from 1(2) show ?case using "1.IH" input_frame_seg
    by (subst (asm) input_loop.simps) (auto split: if_splits sum.splits prod.splits)
qed

section \<open>Panic freedom\<close>

lemma input_push_no_panic: "unat (h_len h) \<le> udpPacketSizeLimit \<Longrightarrow> no_panic (input_push h d k)"
  by (auto simp: input_push_def newSegment_def Let_def)

lemma input_seg_no_panic: "unat (h_len h) \<le> udpPacketSizeLimit \<Longrightarrow> no_panic (input_seg h d v k)"
proof -
  assume "unat (h_len h) \<le> udpPacketSizeLimit"
  then have "no_panic (bind_res (input_push h d q) (\<lambda>k. Inr (v, k)))" for q
    using input_push_no_panic [of h d q] by (auto simp: no_panic_iff)
  then show ?thesis by (simp add: input_seg_def Let_def)
qed

lemma input_loop_no_panic:
  "length data \<le> IKCP_OVERHEAD + udpPacketSizeLimit \<Longrightarrow> no_panic (input_loop data v k)"
proof (induction data v k rule: input_loop.induct)
  case (1 data v k)
  show ?case
  proof (cases "length data < IKCP_OVERHEAD")
    case True
    then show ?thesis by (subst input_loop.simps) simp
  next
    case False
    then obtain h d where hd: "decode_header data = Inr (h, d)" using hdr.dec_total [of data] by auto
    have len: "length data = IKCP_OVERHEAD + length d" using hdr.dec_rest_length [OF hd] .
    show ?thesis
    proof (cases "h_conv h \<noteq> conv k \<or> length d < unat (h_len h) \<or> \<not> known_cmd (h_cmd h)")
      case True
      then show ?thesis using False hd by (subst input_loop.simps) auto
    next
      case ok: False
      then have "unat (h_len h) \<le> udpPacketSizeLimit" using 1(2) len by simp
      then obtain v' k' where seg: "input_seg h d v k = Inr (v', k')"
        using input_seg_no_panic [of h d v k] by (auto simp: no_panic_iff)
      have "no_panic (input_loop (drop (unat (h_len h)) d) v' k')"
        using False ok hd seg 1(2) len by (intro 1(1)) auto
      then show ?thesis using False ok hd seg by (subst input_loop.simps) simp
    qed
  qed
qed

lemma cwnd_grow_no_panic: "to_uint32 (mss k) \<noteq> 0 \<Longrightarrow> no_panic (cwnd_grow k)"
proof -
  assume m: "to_uint32 (mss k) \<noteq> 0"
  then have "no_panic (cwnd_avoid (to_uint32 (mss k)) k)"
    by (auto simp: cwnd_avoid_def Let_def word_neq_0_conv)
  then show ?thesis by (auto simp: cwnd_grow_def Let_def no_panic_iff)
qed

section \<open>The whole of \<open>input\<close>\<close>

lemma cwnd_avoid_upd: "cwnd_avoid m k = Inr k' \<Longrightarrow> \<exists>a b. k' = k \<lparr> cwnd := a, incr := b \<rparr>"
proof -
  have "\<exists>a b. k \<lparr> incr := y, cwnd := x \<rparr> = k \<lparr> cwnd := a, incr := b \<rparr>" for x y
    by (intro exI [of _ x] exI [of _ y]) simp
  moreover have "\<exists>a b. k \<lparr> incr := y \<rparr> = k \<lparr> cwnd := a, incr := b \<rparr>" for y
    by (intro exI [of _ "cwnd k"] exI [of _ y]) simp
  ultimately show "cwnd_avoid m k = Inr k' \<Longrightarrow> ?thesis"
    unfolding cwnd_avoid_def Let_def by (auto split: if_splits)
qed

lemma cwnd_grow_upd: "cwnd_grow k = Inr k' \<Longrightarrow> \<exists>a b. k' = k \<lparr> cwnd := a, incr := b \<rparr>"
proof -
  assume g: "cwnd_grow k = Inr k'"
  have id: "\<exists>a b. k = k \<lparr> cwnd := a, incr := b \<rparr>"
    by (intro exI [of _ "cwnd k"] exI [of _ "incr k"]) simp
  have clip: "\<exists>a b. (if rmt_wnd q < cwnd q then q \<lparr> cwnd := x, incr := y \<rparr> else q) = k \<lparr> cwnd := a, incr := b \<rparr>"
    if "\<exists>a b. q = k \<lparr> cwnd := a, incr := b \<rparr>" for q x y
    using that by (cases "rmt_wnd q < cwnd q") (auto, blast)
  have grown: "\<exists>a b. q = k \<lparr> cwnd := a, incr := b \<rparr>"
    if "(if cwnd k < ssthresh k then Inr (k \<lparr> cwnd := x, incr := y \<rparr>) else cwnd_avoid m k) = Inr q" for q x y m
    using that cwnd_avoid_upd by (auto split: if_splits)
  show ?thesis
  proof (cases "cwnd k < rmt_wnd k")
    case True
    let ?m = "to_uint32 (mss k)"
    obtain q where "(if cwnd k < ssthresh k then Inr (k \<lparr> cwnd := cwnd k + 1, incr := incr k + ?m \<rparr>)
        else cwnd_avoid ?m k) = Inr q"
      "k' = (if rmt_wnd q < cwnd q then q \<lparr> cwnd := rmt_wnd q, incr := rmt_wnd q * ?m \<rparr> else q)"
      using g True by (force simp only: cwnd_grow_def Let_def bind_res_eq_Inr if_True sum.inject)
    then show ?thesis using clip [OF grown] by blast
  qed (use g id in \<open>simp add: cwnd_grow_def\<close>)
qed

lemma input_frame_rtt [simp]: "input_frame (input_rtt current upd v k) = input_frame k"
proof -
  have "input_frame (update_ack r q) = input_frame q" for r q
    using update_ack_eq [of r q] by (auto simp: input_frame_def)
  then show ?thesis by (simp add: input_rtt_def Let_def)
qed

lemma input_cases:
  assumes "input current data upd k = Inr (r, k')"
  obtains (short) "length data < IKCP_OVERHEAD" "r = -1" "k' = k"
  | (rejected) "input_loop data ackvars0 k = Inr (Return r, k')"
  | (accepted) v q a b where "input_loop data ackvars0 k = Inr (Break v, q)" "r = 0"
      "k' = input_rtt current upd v q \<or>
       k' = (input_rtt current upd v q) \<lparr> cwnd := a, incr := b \<rparr>"
proof (cases "length data < IKCP_OVERHEAD")
  case True
  then show thesis using assms by (intro short) (auto simp: input_def)
next
  case False
  then obtain ex q where l: "input_loop data ackvars0 k = Inr (ex, q)"
    using assms by (auto simp: input_def Let_def bind_res_eq_Inr)
  show thesis
  proof (cases ex)
    case (Return x)
    then show thesis using assms False l by (intro rejected) (auto simp: input_def Let_def)
  next
    case (Break v)
    then have "r = 0 \<and> (k' = input_rtt current upd v q \<or> cwnd_grow (input_rtt current upd v q) = Inr k')"
      using assms False l by (auto simp: input_def Let_def bind_res_eq_Inr split: if_splits)
    then show thesis using accepted [of v q] l Break cwnd_grow_upd by metis
  qed
qed

lemma input_rtt_inv:
  "rcv_inv k \<Longrightarrow> rcv_inv (input_rtt current upd v k)"
  "snd_inv k \<Longrightarrow> snd_inv (input_rtt current upd v k)"
  by (auto simp: input_rtt_def Let_def parse_fastack_inv)

lemma input_inv:
  assumes "input current data upd k = Inr (r, k')"
  shows "rcv_inv k \<Longrightarrow> rcv_inv k'" and "snd_inv k \<Longrightarrow> snd_inv k'"
  using assms input_loop_inv input_rtt_inv by (auto elim!: input_cases)

lemma input_frame_input: "input current data upd k = Inr (r, k') \<Longrightarrow> input_frame k' = input_frame k"
proof (erule input_cases)
  fix v q a b
  assume accepted: "input_loop data ackvars0 k = Inr (Break v, q)"
    "k' = input_rtt current upd v q \<or> k' = (input_rtt current upd v q) \<lparr> cwnd := a, incr := b \<rparr>"
  have "input_frame k' = input_frame (input_rtt current upd v q)"
    using accepted(2) by (auto simp: input_frame_def)
  then show "input_frame k' = input_frame k" using input_frame_loop [OF accepted(1)] by simp
qed (auto dest: input_frame_loop)

lemma input_no_panic:
  assumes "length data \<le> IKCP_OVERHEAD + udpPacketSizeLimit" "to_uint32 (mss k) \<noteq> 0"
  shows "no_panic (input current data upd k)"
proof (cases "length data < IKCP_OVERHEAD")
  case False
  obtain ex q where l: "input_loop data ackvars0 k = Inr (ex, q)"
    using input_loop_no_panic [OF assms(1), of ackvars0 k] by (auto simp: no_panic_iff)
  have "mss (input_rtt current upd v q) = mss k" for v
    using input_frame_loop [OF l] input_frame_rtt [of current upd v q] by (simp add: input_frame_def)
  then have "no_panic (cwnd_grow (input_rtt current upd v q))" for v
    using assms(2) by (intro cwnd_grow_no_panic) simp
  then have "no_panic (bind_res (cwnd_grow (input_rtt current upd v q)) (\<lambda>k. Inr (0::int, k)))" for v
    by (auto simp: no_panic_iff bind_res_eq_Inr)
  then show ?thesis using l False by (simp add: input_def Let_def split: input_exit.split)
qed (simp add: input_def)

section \<open>A datagram is its segments and what ends it\<close>

text \<open>The segments of a datagram, one after the other.\<close>

fun input_segs :: "(header \<times> bytes) list \<Rightarrow> ackvars \<Rightarrow> KCP \<Rightarrow> (ackvars \<times> KCP) res" where
  "input_segs [] v k = Inr (v, k)"
| "input_segs ((h, d) # fs) v k = bind_res (input_seg h d v k) (\<lambda>(v, k). input_segs fs v k)"

definition seg_bytes :: "header \<times> bytes \<Rightarrow> bytes" where
  "seg_bytes f = header_bytes (fst f) @ snd f"

text \<open>What \<open>input\<close> accepts in a conversation.\<close>

definition seg_valid :: "u32 \<Rightarrow> header \<times> bytes \<Rightarrow> bool" where
  "seg_valid cv f \<longleftrightarrow> h_conv (fst f) = cv \<and> length (snd f) = unat (h_len (fst f)) \<and> known_cmd (h_cmd (fst f))"

text \<open>The rest of a datagram that ends it, with the error code it gives.\<close>

definition bad_rest :: "u32 \<Rightarrow> bytes \<Rightarrow> int \<Rightarrow> bool" where
  "bad_rest cv rest r \<longleftrightarrow> (\<exists>h d. decode_header rest = Inr (h, d) \<and>
     (h_conv h \<noteq> cv \<and> r = -1 \<or>
      h_conv h = cv \<and> length d < unat (h_len h) \<and> r = -2 \<or>
      h_conv h = cv \<and> unat (h_len h) \<le> length d \<and> \<not> known_cmd (h_cmd h) \<and> r = -3))"

lemma input_seg_rest: "length d = unat (h_len h) \<Longrightarrow> input_seg h (d @ rest) v k = input_seg h d v k"
  by (simp add: input_seg_def input_push_def Let_def)

lemma input_seg_conv: "input_seg h d v k = Inr (v', k') \<Longrightarrow> conv k' = conv k"
  using input_frame_seg by (fastforce simp: input_frame_def)

lemma decode_short: "decode_header data = Inr (h, d) \<Longrightarrow> \<not> length data < IKCP_OVERHEAD"
  by (auto dest!: decode_header_exact)

lemma input_loop_split:
  "list_all (seg_valid (conv k)) fs \<Longrightarrow>
   input_loop (concat (map seg_bytes fs) @ rest) v k = bind_res (input_segs fs v k) (\<lambda>(v, k). input_loop rest v k)"
proof (induction fs arbitrary: v k)
  case (Cons f fs)
  obtain h d where f: "f = (h, d)" by (cases f)
  have ok: "h_conv h = conv k" "length d = unat (h_len h)" "known_cmd (h_cmd h)" using Cons.prems f by (simp_all add: seg_valid_def)
  let ?tl = "concat (map seg_bytes fs) @ rest"
  have dec: "decode_header (concat (map seg_bytes (f # fs)) @ rest) = Inr (h, d @ ?tl)"
    using decode_header_bytes [of h "d @ ?tl"] by (simp add: f seg_bytes_def)
  show ?case
  proof (cases "input_seg h d v k")
    case (Inl e)
    then show ?thesis using dec decode_short [OF dec] ok input_seg_rest [OF ok(2)] f
      by (subst input_loop.simps) simp
  next
    case (Inr p)
    obtain v' k' where p: "input_seg h d v k = Inr (v', k')" using Inr by (cases p) simp
    have "input_loop (concat (map seg_bytes (f # fs)) @ rest) v k = input_loop ?tl v' k'"
      using dec decode_short [OF dec] ok input_seg_rest [OF ok(2)] p by (subst input_loop.simps) simp
    also have "\<dots> = bind_res (input_segs fs v' k') (\<lambda>(v, k). input_loop rest v k)"
      using Cons.IH Cons.prems input_seg_conv [OF p] by simp
    finally show ?thesis using p f by simp
  qed
qed simp

lemma input_loop_bad: "bad_rest (conv k) rest r \<Longrightarrow> input_loop rest v k = Inr (Return r, k)"
  by (subst input_loop.simps) (auto simp: bad_rest_def dest: decode_short)

lemma input_segs_conv: "input_segs fs v k = Inr (v', k') \<Longrightarrow> conv k' = conv k"
proof (induction fs arbitrary: v k)
  case (Cons f fs)
  then show ?case using input_seg_conv by (cases f) (fastforce simp: bind_res_eq_Inr)
qed simp

text \<open>Every datagram whose loop does not panic is such segments and a rest that is too short or bad.\<close>

lemma input_loop_exits:
  "input_loop data v k = Inr (ex, k') \<Longrightarrow>
   \<exists>fs rest v'. data = concat (map seg_bytes fs) @ rest \<and> list_all (seg_valid (conv k)) fs \<and>
     input_segs fs v k = Inr (v', k') \<and>
     (case ex of Return r \<Rightarrow> bad_rest (conv k) rest r | Break w \<Rightarrow> w = v' \<and> length rest < IKCP_OVERHEAD)"
proof (induction data v k rule: input_loop.induct)
  case (1 data v k)
  show ?case
  proof (cases "length data < IKCP_OVERHEAD")
    case True
    then have "ex = Break v \<and> k' = k" using "1.prems" by (subst (asm) input_loop.simps) simp
    then show ?thesis using True by (intro exI [of _ "[]"] exI [of _ data] exI [of _ v]) simp
  next
    case len: False
    then obtain h d where hd: "decode_header data = Inr (h, d)" using "1.prems"
      by (subst (asm) input_loop.simps) (auto split: sum.splits)
    show ?thesis
    proof (cases "h_conv h = conv k \<and> unat (h_len h) \<le> length d \<and> known_cmd (h_cmd h)")
      case False
      then obtain r where "ex = Return r" "bad_rest (conv k) data r \<and> k' = k" using "1.prems" len hd
        by (subst (asm) input_loop.simps) (auto simp: bad_rest_def split: if_splits)
      then show ?thesis by (intro exI [of _ "[]"] exI [of _ data] exI [of _ v]) simp
    next
      case True
      let ?n = "unat (h_len h)"
      obtain v1 k1 where s: "input_seg h d v k = Inr (v1, k1)" "input_loop (drop ?n d) v1 k1 = Inr (ex, k')"
        using "1.prems" len hd True by (subst (asm) input_loop.simps) (auto split: sum.splits)
      have cv: "conv k1 = conv k" using input_seg_conv [OF s(1)] .
      from "1.IH" [OF len hd refl _ _ _ s(1) refl s(2)] True obtain fs rest v' where
        i: "drop ?n d = concat (map seg_bytes fs) @ rest" "list_all (seg_valid (conv k)) fs" "input_segs fs v1 k1 = Inr (v', k')"
          "case ex of Return r \<Rightarrow> bad_rest (conv k) rest r | Break w \<Rightarrow> w = v' \<and> length rest < IKCP_OVERHEAD"
        unfolding cv by auto
      have d: "d = take ?n d @ concat (map seg_bytes fs) @ rest" using i(1) by (metis append_take_drop_id)
      have "data = header_bytes h @ d" using decode_header_exact [OF hd] by simp
      then have "data = concat (map seg_bytes ((h, take ?n d) # fs)) @ rest" using d by (simp add: seg_bytes_def)
      moreover have "input_seg h (take ?n d) v k = Inr (v1, k1)"
        using input_seg_rest [of "take ?n d" h "drop ?n d" v k] True s(1) by simp
      moreover have "seg_valid (conv k) (h, take ?n d)" using True by (simp add: seg_valid_def)
      ultimately show ?thesis using i(2-4)
        by (intro exI [of _ "(h, take ?n d) # fs"] exI [of _ rest] exI [of _ v']) simp
    qed
  qed
qed

lemma input_rejected:
  "input current data upd k = Inr (r, k') \<and> r \<noteq> 0 \<longleftrightarrow>
   length data < IKCP_OVERHEAD \<and> r = -1 \<and> k' = k \<or>
   (\<exists>fs rest v. data = concat (map seg_bytes fs) @ rest \<and> list_all (seg_valid (conv k)) fs \<and> bad_rest (conv k) rest r \<and>
      input_segs fs ackvars0 k = Inr (v, k'))" (is "?l \<longleftrightarrow> ?short \<or> ?bad")
proof
  assume l: ?l
  then have "input current data upd k = Inr (r, k')" by simp
  then show "?short \<or> ?bad"
    by (cases rule: input_cases) (use l in \<open>auto dest!: input_loop_exits\<close>)
next
  assume "?short \<or> ?bad"
  then show ?l
  proof
    assume ?bad
    then obtain fs rest v where b: "data = concat (map seg_bytes fs) @ rest" "list_all (seg_valid (conv k)) fs" "bad_rest (conv k) rest r"
      "input_segs fs ackvars0 k = Inr (v, k')" by blast
    have "input_loop data ackvars0 k = Inr (Return r, k')"
      using input_loop_split [OF b(2)] input_loop_bad [of k' rest r] b(3,4) input_segs_conv [OF b(4)] by (simp add: b(1))
    moreover have "\<not> length data < IKCP_OVERHEAD" using b(1,3) decode_short by (fastforce simp: bad_rest_def)
    ultimately show ?l using b(3) by (auto simp: input_def Let_def bad_rest_def)
  qed (simp add: input_def)
qed

end
