(* ===== verification/Kcp_Flush.thy ===== *)
theory Kcp_Flush
  imports Kcp_Input
begin

text \<open>
  \<open>KCP.flush\<close>: acknowledgements, window probes, admission of queued segments into the
  congestion window, (re)transmission of the in-flight segments, and the congestion control
  that follows from the losses seen; then the two operations built on it, \<open>sendConnectFlush\<close>
  and \<open>sendCloseFlush\<close>.

  The scratch buffer is the pair described in \<open>Kcp_Wire\<close>; \<open>ptr = buffer\<close> is
  \<open>(buffer k, [])\<close> and \<open>size := len(buffer) - len(ptr)\<close> is the number of bytes written.
\<close>

section \<open>Operations\<close>

text \<open>Hand the packet out when \<open>need\<close> more bytes would exceed the MTU, and start a new one.\<close>

definition emit_if_over :: "nat \<Rightarrow> KCP \<Rightarrow> wslice \<Rightarrow> KCP \<times> wslice" where
  "emit_if_over need k ptr =
     (if int (length (snd ptr) + need) > mtu k
      then (k \<lparr> outputs := outputs k @ [snd ptr] \<rparr>, (buffer k, []))
      else (k, ptr))"

text \<open>The template \<open>seg\<close> of lines 644 to 648.\<close>

definition flush_template :: "KCP \<Rightarrow> segment" where
  "flush_template k = segment0 \<lparr> s_conv := conv k, s_cmd := IKCP_CMD_ACK,
     s_wnd := to_uint32 (wnd_unused k), s_una := rcv_nxt k \<rparr>"

text \<open>Lines 651 to 663. The template keeps the numbers of the last acknowledgement written.\<close>

fun flush_acks :: "ackItem list \<Rightarrow> segment \<Rightarrow> KCP \<Rightarrow> wslice \<Rightarrow> (segment \<times> KCP \<times> wslice) res" where
  "flush_acks [] seg k ptr = Inr (seg, k, ptr)"
| "flush_acks (ack # acks) seg k ptr =
     (let (k, ptr) = emit_if_over IKCP_OVERHEAD k ptr
      in if a_sn ack \<ge> rcv_nxt k \<or> acks = []
         then let seg = seg \<lparr> s_sn := a_sn ack, s_ts := a_ts ack \<rparr>
              in bind_res (encode seg ptr) (\<lambda>ptr. flush_acks acks seg k ptr)
         else flush_acks acks seg k ptr)"

text \<open>Lines 666 to 687: when to ask a peer with a closed window.\<close>

definition flush_probe :: "u32 \<Rightarrow> KCP \<Rightarrow> KCP" where
  "flush_probe current k =
     (if rmt_wnd k = 0
      then if probe_wait k = 0
           then k \<lparr> probe_wait := IKCP_PROBE_INIT, ts_probe := current + IKCP_PROBE_INIT \<rparr>
           else if itimediff current (ts_probe k) \<ge> 0
                then let w = (if probe_wait k < IKCP_PROBE_INIT then IKCP_PROBE_INIT else probe_wait k);
                         w = w + w div 2;
                         w = (if w > IKCP_PROBE_LIMIT then IKCP_PROBE_LIMIT else w)
                     in k \<lparr> probe_wait := w, ts_probe := current + w,
                            probe := probe k OR IKCP_ASK_SEND \<rparr>
                else k
      else k \<lparr> ts_probe := 0, probe_wait := 0 \<rparr>)"

text \<open>Lines 689 to 709, once per probing command.\<close>

definition flush_cmd :: "u32 \<Rightarrow> u32 \<Rightarrow> segment \<Rightarrow> KCP \<Rightarrow> wslice \<Rightarrow> (segment \<times> KCP \<times> wslice) res" where
  "flush_cmd ask cmd seg k ptr =
     (if probe k AND ask \<noteq> 0
      then let seg = seg \<lparr> s_cmd := cmd \<rparr>;
               (k, ptr) = emit_if_over IKCP_OVERHEAD k ptr
           in bind_res (encode seg ptr) (\<lambda>ptr. Inr (seg, k, ptr))
      else Inr (seg, k, ptr))"

text \<open>Lines 714 to 734: the sliding window; the result counts the segments admitted.\<close>

fun flush_admit :: "u32 \<Rightarrow> u32 \<Rightarrow> u32 \<Rightarrow> segment list \<Rightarrow> KCP \<Rightarrow> nat \<times> KCP" where
  "flush_admit cw wnd current [] k = (0, k)"
| "flush_admit cw wnd current (s # ss) k =
     (if itimediff (snd_nxt k) (snd_una k + cw) \<ge> 0 then (0, k)
      else let newseg = s \<lparr> s_conv := conv k, s_wnd := wnd, s_ts := current, s_sn := snd_nxt k,
                            s_una := rcv_nxt k, s_resendts := current, s_rto := rx_rto k \<rparr>;
               (count, k) = flush_admit cw wnd current ss
                 (k \<lparr> snd_buf := snd_buf k @ [newseg], snd_nxt := snd_nxt k + 1 \<rparr>)
           in (Suc count, k))"

definition flush_window :: "u32 \<Rightarrow> u32 \<Rightarrow> u32 \<Rightarrow> KCP \<Rightarrow> nat \<times> KCP" where
  "flush_window cw wnd current k =
     (let (count, k) = flush_admit cw wnd current (snd_queue k) k
      in (count, k \<lparr> snd_queue := drop count (snd_queue k) \<rparr>))"

text \<open>The counters of the transmission loop.\<close>

record flush_vars =
  change :: int
  lost :: bool
  lostSegs :: int
  fastRetransSegs :: int
  earlyRetransSegs :: int

definition flush_vars0 :: flush_vars where
  "flush_vars0 = \<lparr> change = 0, lost = False, lostSegs = 0, fastRetransSegs = 0, earlyRetransSegs = 0 \<rparr>"

text \<open>Lines 752 to 790: whether a segment is (re)sent now, and what that does to it.\<close>

definition resend_early_enough :: "u32 \<Rightarrow> KCP \<Rightarrow> segment \<Rightarrow> bool" where
  "resend_early_enough current k s =
     (itimediff current (s_resendts s - s_rto s) \<ge> sint (rx_rto k div 4))"

definition seg_decide ::
    "u32 \<Rightarrow> u32 \<Rightarrow> bool \<Rightarrow> segment \<Rightarrow> KCP \<Rightarrow> flush_vars \<Rightarrow> bool \<times> segment \<times> KCP \<times> flush_vars" where
  "seg_decide current resent hasPending s k fv =
     (if s_xmit s = 0
      then (True, s \<lparr> s_xmit := s_xmit s + 1, s_rto := rx_rto k, s_resendts := current + rx_rto k \<rparr>, k, fv)
      else if itimediff current (s_resendts s) \<ge> 0
      then let rto = s_rto s + (if nodelay k = 0 then rx_rto k else rx_rto k div 2)
           in (True, s \<lparr> s_xmit := s_xmit s + 1, s_rto := rto, s_resendts := current + rto \<rparr>,
               k \<lparr> xmit := xmit k + 1 \<rparr>, fv \<lparr> lost := True, lostSegs := lostSegs fv + 1 \<rparr>)
      else if s_fastack s \<ge> resent
      then if resend_early_enough current k s
           then (True, s \<lparr> s_xmit := s_xmit s + 1, s_fastack := 0, s_resendts := current + s_rto s \<rparr>, k,
                 fv \<lparr> change := change fv + 1, fastRetransSegs := fastRetransSegs fv + 1 \<rparr>)
           else (False, s, k, fv)
      else if s_fastack s > 0 \<and> \<not> hasPending
      then if resend_early_enough current k s
           then (True, s \<lparr> s_xmit := s_xmit s + 1, s_fastack := 0, s_resendts := current + s_rto s \<rparr>, k,
                 fv \<lparr> change := change fv + 1, earlyRetransSegs := earlyRetransSegs fv + 1 \<rparr>)
           else (False, s, k, fv)
      else (False, s, k, fv))"

definition count_push :: "segment \<Rightarrow> KCP \<Rightarrow> KCP" where
  "count_push s k =
     (if s_cmd s = IKCP_CMD_PUSH
      then k \<lparr> stats := (stats k) \<lparr> SegPush := SegPush (stats k) + 1 \<rparr>,
               gstats := (gstats k) \<lparr> g_SegPush := g_SegPush (gstats k) + 1 \<rparr> \<rparr>
      else k)"

text \<open>Lines 792 to 819: write one segment that is due.\<close>

definition send_seg :: "u32 \<Rightarrow> u32 \<Rightarrow> segment \<Rightarrow> KCP \<Rightarrow> wslice \<Rightarrow> (segment \<times> KCP \<times> wslice) res" where
  "send_seg current wnd s k ptr =
     (let s = s \<lparr> s_ts := current, s_wnd := wnd, s_una := rcv_nxt k \<rparr>;
          (k, ptr) = emit_if_over (IKCP_OVERHEAD + length (s_data s)) k ptr;
          k = count_push s k
      in bind_res (encode s ptr) (\<lambda>ptr.
         bind_res (put_bytes ptr (s_data s)) (\<lambda>ptr. Inr (s, k, ptr))))"

text \<open>Lines 748 to 820.\<close>

fun flush_data :: "u32 \<Rightarrow> u32 \<Rightarrow> bool \<Rightarrow> u32 \<Rightarrow> segment list \<Rightarrow> KCP \<Rightarrow> wslice \<Rightarrow> flush_vars
    \<Rightarrow> (segment list \<times> KCP \<times> wslice \<times> flush_vars) res" where
  "flush_data current resent hasPending wnd [] k ptr fv = Inr ([], k, ptr, fv)"
| "flush_data current resent hasPending wnd (s # ss) k ptr fv =
     (let (needsend, s, k, fv) = seg_decide current resent hasPending s k fv
      in bind_res (if needsend then send_seg current wnd s k ptr else Inr (s, k, ptr)) (\<lambda>(s, k, ptr).
         bind_res (flush_data current resent hasPending wnd ss k ptr fv) (\<lambda>(ss, k, ptr, fv).
         Inr (s # ss, k, ptr, fv))))"

text \<open>Lines 822 to 827.\<close>

definition flush_stats :: "flush_vars \<Rightarrow> KCP \<Rightarrow> KCP" where
  "flush_stats fv k =
     (let resend = lostSegs fv + fastRetransSegs fv + earlyRetransSegs fv; st = stats k
      in k \<lparr> stats := st \<lparr> SegPushResend := SegPushResend st + resend,
                           SegPushResendLost := SegPushResendLost st + lostSegs fv,
                           SegPushResendFast := SegPushResendFast st + fastRetransSegs fv,
                           SegPushResendEarly := SegPushResendEarly st + earlyRetransSegs fv \<rparr>,
             gstats := (gstats k) \<lparr> g_SegPushResend := g_SegPushResend (gstats k) + resend \<rparr> \<rparr>)"

text \<open>Lines 829 to 833.\<close>

definition flush_last :: "KCP \<Rightarrow> wslice \<Rightarrow> KCP" where
  "flush_last k ptr =
     (if length (snd ptr) > 0 then k \<lparr> outputs := outputs k @ [snd ptr] \<rparr> else k)"

text \<open>Lines 835 to 860.\<close>

definition flush_cwnd :: "u32 \<Rightarrow> u32 \<Rightarrow> flush_vars \<Rightarrow> KCP \<Rightarrow> KCP" where
  "flush_cwnd cw resent fv k =
     (let k = (if change fv \<noteq> 0
               then let inflight = snd_nxt k - snd_una k;
                        th = (if inflight div 2 < IKCP_THRESH_MIN then IKCP_THRESH_MIN else inflight div 2)
                    in k \<lparr> ssthresh := th, cwnd := th + resent, incr := (th + resent) * to_uint32 (mss k) \<rparr>
               else k);
          k = (if lost fv
               then let th = (if cw div 2 < IKCP_THRESH_MIN then IKCP_THRESH_MIN else cw div 2)
                    in k \<lparr> ssthresh := th, cwnd := 1, incr := to_uint32 (mss k) \<rparr>
               else k)
      in if cwnd k < 1 then k \<lparr> cwnd := 1, incr := to_uint32 (mss k) \<rparr> else k)"

definition flush_resent :: "KCP \<Rightarrow> u32" where
  "flush_resent k = (if fastresend k \<le> 0 then 0xffffffff else to_uint32 (fastresend k))"

definition flush :: "u32 \<Rightarrow> KCP \<Rightarrow> KCP res" where
  "flush current k =
     (let wnd = to_uint32 (wnd_unused k)
      in bind_res (flush_acks (acklist k) (flush_template k) k (buffer k, [])) (\<lambda>(seg, k, ptr).
         let k = flush_probe current (k \<lparr> acklist := [] \<rparr>)
         in bind_res (flush_cmd IKCP_ASK_SEND IKCP_CMD_WASK seg k ptr) (\<lambda>(seg, k, ptr).
            bind_res (flush_cmd IKCP_ASK_TELL IKCP_CMD_WINS seg k ptr) (\<lambda>(seg, k, ptr).
            let k = k \<lparr> probe := 0 \<rparr>;
                cw = calc_cwnd k;
                (count, k) = flush_window cw wnd current k;
                resent = flush_resent k
            in bind_res (flush_data current resent (count > 0) wnd (snd_buf k) k ptr flush_vars0)
                 (\<lambda>(segs, k, ptr, fv).
                   Inr (flush_cwnd cw resent fv
                          (flush_last (flush_stats fv (k \<lparr> snd_buf := segs \<rparr>)) ptr)))))))"

definition sendConnectFlush :: "u32 \<Rightarrow> KCP \<Rightarrow> KCP res" where
  "sendConnectFlush current k =
     (if waitSnd k = 0 \<and> snd_nxt k = 0
      then bind_res (newSegment 0) (\<lambda>seg.
             flush current (k \<lparr> snd_queue := snd_queue k @ [seg \<lparr> s_cmd := IKCP_CMD_CONNECT \<rparr>] \<rparr>))
      else Inr k)"

definition sendCloseFlush :: "u32 \<Rightarrow> KCP \<Rightarrow> KCP res" where
  "sendCloseFlush current k =
     (if isStateConnected k \<and> \<not> isStateLocalClosed k
      then let k = k \<lparr> state := state k OR IKCP_STATE_LOCAL_CLOSED \<rparr>;
               k = k \<lparr> state := state k AND NOT IKCP_STATE_CONNECTED \<rparr>
           in bind_res (newSegment 0) (\<lambda>seg.
                flush current (k \<lparr> snd_queue := snd_queue k @ [seg \<lparr> s_cmd := IKCP_CMD_PUSH \<rparr>] \<rparr>))
      else Inr k)"

section \<open>What is written: frames\<close>

text \<open>
  A packet is a sequence of frames, each the header of a segment followed by its data.
  \<open>writer P out k ptr\<close> holds all along a run of \<open>flush\<close> that started with the output log
  \<open>out\<close>: the scratch buffer is accounted for, and every packet handed out since, like the one
  being written, is a sequence of frames of segments in \<open>P\<close> that fits the MTU.
\<close>

definition wire :: "segment \<Rightarrow> bytes" where
  "wire s = header_bytes (seg_header s) @ s_data s"

definition frames :: "(segment \<Rightarrow> bool) \<Rightarrow> bytes \<Rightarrow> bool" where
  "frames P bs \<longleftrightarrow> (\<exists>segs. bs = concat (map wire segs) \<and> (\<forall>s \<in> set segs. P s))"

definition pkt_ok :: "(segment \<Rightarrow> bool) \<Rightarrow> int \<Rightarrow> bytes \<Rightarrow> bool" where
  "pkt_ok P m p \<longleftrightarrow> frames P p \<and> p \<noteq> [] \<and> int (length p) \<le> m"

definition writer :: "(segment \<Rightarrow> bool) \<Rightarrow> bytes list \<Rightarrow> KCP \<Rightarrow> wslice \<Rightarrow> bool" where
  "writer P out k ptr \<longleftrightarrow>
     fst ptr + length (snd ptr) = buffer k \<and> int (length (snd ptr)) \<le> mtu k \<and> mtu k \<le> int (buffer k) \<and>
     frames P (snd ptr) \<and> (\<exists>pkts. outputs k = out @ pkts \<and> (\<forall>p \<in> set pkts. pkt_ok P (mtu k) p))"

definition only_out :: "KCP \<Rightarrow> KCP \<Rightarrow> bool" where
  "only_out k k' \<longleftrightarrow> (\<exists>out. k' = k \<lparr> outputs := out \<rparr>)"

definition only_tx :: "KCP \<Rightarrow> KCP \<Rightarrow> bool" where
  "only_tx k k' \<longleftrightarrow>
     (\<exists>out x st g. k' = k \<lparr> outputs := out, xmit := x, stats := st, gstats := g \<rparr>)"

lemma frames_Nil [simp]: "frames P []"
  by (auto simp: frames_def intro: exI [of _ "[]"])

lemma frames_snoc: "frames P bs \<Longrightarrow> P s \<Longrightarrow> frames P (bs @ wire s)"
proof -
  assume "frames P bs" "P s"
  then obtain segs where "bs = concat (map wire segs)" "\<forall>s \<in> set segs. P s" by (auto simp: frames_def)
  with \<open>P s\<close> show ?thesis unfolding frames_def by (intro exI [of _ "segs @ [s]"]) auto
qed

lemma frames_mono: "frames P bs \<Longrightarrow> (\<And>s. P s \<Longrightarrow> Q s) \<Longrightarrow> frames Q bs"
  unfolding frames_def by blast

lemma length_wire [simp]: "length (wire s) = IKCP_OVERHEAD + length (s_data s)"
  by (simp add: wire_def)

lemma only_outI: "only_out k (k \<lparr> outputs := out \<rparr>)"
  unfolding only_out_def by blast

lemma only_txI: "only_tx k (k \<lparr> outputs := out, xmit := x, stats := st, gstats := g \<rparr>)"
  unfolding only_tx_def by blast

lemma only_out_refl [simp]: "only_out k k"
  using only_outI [of k "outputs k"] by simp

lemma only_tx_refl [simp]: "only_tx k k"
  using only_txI [of k "gstats k" "stats k" "xmit k" "outputs k"] by simp

lemma only_out_trans: "only_out k k' \<Longrightarrow> only_out k' k'' \<Longrightarrow> only_out k k''"
  unfolding only_out_def [of k k'] only_out_def [of k' k''] by (auto intro: only_outI)

lemma only_tx_trans: "only_tx k k' \<Longrightarrow> only_tx k' k'' \<Longrightarrow> only_tx k k''"
  unfolding only_tx_def [of k k'] only_tx_def [of k' k''] by (auto intro: only_txI)

lemma only_out_tx: "only_out k k' \<Longrightarrow> only_tx k k'"
  unfolding only_out_def using only_txI [of k "gstats k" "stats k" "xmit k"] by auto

lemma only_txD:
  assumes "only_tx k k'"
  shows "mtu k' = mtu k" "mss k' = mss k" "buffer k' = buffer k" "conv k' = conv k"
    "snd_una k' = snd_una k" "snd_nxt k' = snd_nxt k" "snd_queue k' = snd_queue k" "rcv_nxt k' = rcv_nxt k"
    "calc_cwnd k' = calc_cwnd k" "flush_resent k' = flush_resent k"
  using assms by (auto simp: only_tx_def calc_cwnd_def flush_resent_def Let_def)

lemma emit_writer:
  assumes w: "writer P out k ptr" and need: "int need \<le> mtu k" "0 < need"
    and e: "emit_if_over need k ptr = (k', ptr')"
  shows "writer P out k' ptr'" "int (length (snd ptr') + need) \<le> mtu k'" "only_out k k'"
proof -
  have pk: "pkt_ok P (mtu k) (snd ptr)" if "int (length (snd ptr) + need) > mtu k"
    using that w need by (auto simp: pkt_ok_def writer_def)
  obtain pkts where "outputs k = out @ pkts" "\<forall>p \<in> set pkts. pkt_ok P (mtu k) p"
    using w by (auto simp: writer_def)
  then have "\<exists>q. out @ pkts @ [snd ptr] = out @ q \<and> (\<forall>p \<in> set q. pkt_ok P (mtu k) p)"
    if "int (length (snd ptr) + need) > mtu k"
    using pk [OF that] by (intro exI [of _ "pkts @ [snd ptr]"]) auto
  with \<open>outputs k = out @ pkts\<close> w need e show "writer P out k' ptr'"
    by (auto simp: emit_if_over_def writer_def split: if_splits)
  show "int (length (snd ptr') + need) \<le> mtu k'" "only_out k k'"
    using e need by (auto simp: emit_if_over_def intro: only_outI split: if_splits)
qed

lemma put_frame:
  assumes w: "writer P out k ptr" and len: "int (length (snd ptr) + (IKCP_OVERHEAD + length (s_data s))) \<le> mtu k"
    and "P s"
  shows "\<exists>ptr1 ptr'. encode s ptr = Inr ptr1 \<and> put_bytes ptr1 (s_data s) = Inr ptr' \<and> writer P out k ptr'"
proof -
  have room: "IKCP_OVERHEAD + length (s_data s) \<le> fst ptr" using w len by (simp add: writer_def)
  then have "encode s ptr = Inr (fst ptr - IKCP_OVERHEAD, snd ptr @ header_bytes (seg_header s))"
    using encode_eq [of s "fst ptr" "snd ptr"] by simp
  moreover have "put_bytes (fst ptr - IKCP_OVERHEAD, snd ptr @ header_bytes (seg_header s)) (s_data s)
      = Inr (fst ptr - IKCP_OVERHEAD - length (s_data s), snd ptr @ wire s)"
    using room by (simp add: put_bytes_def wire_def)
  moreover have "writer P out k (fst ptr - IKCP_OVERHEAD - length (s_data s), snd ptr @ wire s)"
    using w room len frames_snoc [of P "snd ptr" s] \<open>P s\<close> by (auto simp: writer_def)
  ultimately show ?thesis by blast
qed

text \<open>Control segments carry no data; \<open>ident\<close> is what identifies a segment to the peer.\<close>

definition ctl :: "u32 \<Rightarrow> segment \<Rightarrow> bool" where
  "ctl cv s \<longleftrightarrow> s_conv s = cv \<and> s_data s = [] \<and> s_cmd s \<in> {IKCP_CMD_ACK, IKCP_CMD_WASK, IKCP_CMD_WINS}"

type_synonym ident = "u32 \<times> u32 \<times> u32 \<times> u32 \<times> bytes"

definition ident :: "segment \<Rightarrow> ident" where
  "ident s = (s_conv s, s_cmd s, s_frg s, s_sn s, s_data s)"

lemma put_ctl:
  assumes w: "writer P out k ptr" and c: "ctl cv s" "P s"
    and e: "emit_if_over IKCP_OVERHEAD k ptr = (k', ptr')" and m: "50 \<le> mtu k"
  shows "\<exists>ptr''. encode s ptr' = Inr ptr'' \<and> writer P out k' ptr''"
proof -
  note em = emit_writer [OF w _ _ e]
  have "writer P out k' ptr'" "int (length (snd ptr') + (IKCP_OVERHEAD + length (s_data s))) \<le> mtu k'"
    using em c m by (simp_all add: IKCP_OVERHEAD_def ctl_def)
  from put_frame [of P out k' ptr' s, OF this c(2)] show ?thesis
    using c(1) by (auto simp: ctl_def put_bytes_def)
qed

lemma flush_acks_ok:
  assumes "\<And>s. ctl cv s \<Longrightarrow> P s"
  shows "writer P out k ptr \<Longrightarrow> ctl cv seg \<Longrightarrow> 50 \<le> mtu k \<Longrightarrow>
    \<exists>seg' k' ptr'. flush_acks acks seg k ptr = Inr (seg', k', ptr') \<and> writer P out k' ptr' \<and>
      ctl cv seg' \<and> only_out k k'"
proof (induction acks arbitrary: seg k ptr)
  case (Cons a acks)
  obtain k1 ptr1 where e: "emit_if_over IKCP_OVERHEAD k ptr = (k1, ptr1)"
    by (cases "emit_if_over IKCP_OVERHEAD k ptr")
  note em = emit_writer [OF Cons.prems(1) _ _ e]
  have w1: "writer P out k1 ptr1" and o1: "only_out k k1"
    using em Cons.prems(3) by (simp_all add: IKCP_OVERHEAD_def)
  have m1: "50 \<le> mtu k1" using only_txD(1) [OF only_out_tx [OF o1]] Cons.prems(3) by simp
  show ?case
  proof (cases "a_sn a \<ge> rcv_nxt k1 \<or> acks = []")
    case True
    let ?seg = "seg \<lparr> s_sn := a_sn a, s_ts := a_ts a \<rparr>"
    have c: "ctl cv ?seg" using Cons.prems(2) by (simp add: ctl_def)
    obtain ptr2 where p2: "encode ?seg ptr1 = Inr ptr2" "writer P out k1 ptr2"
      using put_ctl [OF Cons.prems(1) c assms [OF c] e Cons.prems(3)] by blast
    show ?thesis
      using Cons.IH [OF p2(2) c m1] True e p2(1) only_out_trans [OF o1] by (fastforce simp: Let_def)
  next
    case False
    then show ?thesis
      using Cons.IH [OF w1 Cons.prems(2) m1] e only_out_trans [OF o1] by (fastforce simp: Let_def)
  qed
qed simp

lemma flush_cmd_ok:
  assumes "\<And>s. ctl cv s \<Longrightarrow> P s" "cmd \<in> {IKCP_CMD_ACK, IKCP_CMD_WASK, IKCP_CMD_WINS}"
    and w: "writer P out k ptr" and c: "ctl cv seg" and m: "50 \<le> mtu k"
  shows "\<exists>seg' k' ptr'. flush_cmd ask cmd seg k ptr = Inr (seg', k', ptr') \<and> writer P out k' ptr' \<and>
      ctl cv seg' \<and> only_out k k'"
proof (cases "probe k AND ask \<noteq> 0")
  case True
  obtain k1 ptr1 where e: "emit_if_over IKCP_OVERHEAD k ptr = (k1, ptr1)"
    by (cases "emit_if_over IKCP_OVERHEAD k ptr")
  have o1: "only_out k k1" using emit_writer(3) [OF w _ _ e] m by (simp add: IKCP_OVERHEAD_def)
  have c': "ctl cv (seg \<lparr> s_cmd := cmd \<rparr>)" using c assms(2) by (simp add: ctl_def)
  obtain ptr2 where "encode (seg \<lparr> s_cmd := cmd \<rparr>) ptr1 = Inr ptr2" "writer P out k1 ptr2"
    using put_ctl [OF w c' assms(1) [OF c'] e m] by blast
  then show ?thesis using True e c' o1 by (auto simp: flush_cmd_def Let_def)
qed (use w c in \<open>simp add: flush_cmd_def\<close>)

text \<open>A segment that no flush passes over: never sent, or its retransmission time has come.\<close>

definition due_now :: "u32 \<Rightarrow> segment \<Rightarrow> bool" where
  "due_now current s \<longleftrightarrow> s_xmit s = 0 \<or> itimediff current (s_resendts s) \<ge> 0"

lemma seg_decide_ok:
  assumes "seg_decide current resent hp s k fv = (needsend, s', k', fv')"
  shows "ident s' = ident s" "\<exists>x. k' = k \<lparr> xmit := x \<rparr>" "due_now current s \<Longrightarrow> needsend"
proof -
  have id: "\<exists>x. k = k \<lparr> xmit := x \<rparr>" by (intro exI [of _ "xmit k"]) simp
  show "ident s' = ident s" "due_now current s \<Longrightarrow> needsend"
    using assms by (auto simp: seg_decide_def due_now_def ident_def Let_def split: if_splits)
  show "\<exists>x. k' = k \<lparr> xmit := x \<rparr>"
    using assms id unfolding seg_decide_def Let_def by (auto split: if_splits)
qed

lemma writer_frame [simp]:
  "writer P out (k \<lparr> xmit := x \<rparr>) ptr = writer P out k ptr"
  "writer P out (count_push s k) ptr = writer P out k ptr"
  by (simp_all add: writer_def count_push_def)

lemma only_tx_xmit: "only_tx k (k \<lparr> xmit := x \<rparr>)"
  using only_txI [of k "gstats k" "stats k" x "outputs k"] by simp

lemma only_tx_count_push: "only_tx k (count_push s k)"
proof -
  have "only_tx k (k \<lparr> stats := a, gstats := b \<rparr>)" for a b
    using only_txI [of k b a "xmit k" "outputs k"] by simp
  then show ?thesis by (simp add: count_push_def)
qed

lemma send_seg_ok:
  assumes w: "writer P out k ptr" and len: "int (IKCP_OVERHEAD + length (s_data s)) \<le> mtu k"
    and P: "\<And>s'. ident s' = ident s \<Longrightarrow> P s'"
  shows "\<exists>s' k' ptr'. send_seg current wnd s k ptr = Inr (s', k', ptr') \<and> writer P out k' ptr' \<and>
    ident s' = ident s \<and> only_tx k k'"
proof -
  let ?s = "s \<lparr> s_ts := current, s_wnd := wnd, s_una := rcv_nxt k \<rparr>"
  let ?need = "IKCP_OVERHEAD + length (s_data ?s)"
  obtain k1 ptr1 where e: "emit_if_over ?need k ptr = (k1, ptr1)" by (cases "emit_if_over ?need k ptr")
  have "int ?need \<le> mtu k" "0 < ?need" using len by (simp_all add: IKCP_OVERHEAD_def)
  note em = emit_writer [OF w this e]
  have i: "ident ?s = ident s" by (simp add: ident_def)
  have "int (length (snd ptr1) + (IKCP_OVERHEAD + length (s_data ?s))) \<le> mtu (count_push ?s k1)"
    using em(2) by (simp add: count_push_def)
  then obtain p2 p3 where "encode ?s ptr1 = Inr p2" "put_bytes p2 (s_data ?s) = Inr p3"
    "writer P out (count_push ?s k1) p3"
    using put_frame [of P out "count_push ?s k1" ptr1 ?s] em(1) P [OF i] by auto
  moreover have "only_tx k (count_push ?s k1)"
    using em(3) by (blast intro: only_tx_trans only_out_tx only_tx_count_push)
  ultimately show ?thesis using e i by (auto simp: send_seg_def Let_def)
qed

lemma flush_data_ok:
  assumes "\<And>s. s \<in> set segs \<Longrightarrow> int (IKCP_OVERHEAD + length (s_data s)) \<le> mtu k"
    and "\<And>s s'. s \<in> set segs \<Longrightarrow> ident s' = ident s \<Longrightarrow> P s'" and "writer P out k ptr"
  shows "\<exists>segs' k' ptr' fv'. flush_data current resent hp wnd segs k ptr fv = Inr (segs', k', ptr', fv') \<and>
    writer P out k' ptr' \<and> map ident segs' = map ident segs \<and> only_tx k k'"
  using assms
proof (induction segs arbitrary: k ptr fv)
  case (Cons s ss)
  obtain ns s1 k1 fv1 where d: "seg_decide current resent hp s k fv = (ns, s1, k1, fv1)"
    by (cases "seg_decide current resent hp s k fv")
  note dk = seg_decide_ok [OF d]
  have sz: "length (s_data s1) = length (s_data s)" using dk(1) by (simp add: ident_def)
  have w1: "writer P out k1 ptr" and t1: "only_tx k k1"
    using dk(2) Cons.prems(3) only_tx_xmit by auto
  have "\<exists>s2 k2 ptr2. (if ns then send_seg current wnd s1 k1 ptr else Inr (s1, k1, ptr)) = Inr (s2, k2, ptr2) \<and>
      writer P out k2 ptr2 \<and> ident s2 = ident s1 \<and> only_tx k1 k2"
  proof (cases ns)
    case True
    have "int (IKCP_OVERHEAD + length (s_data s1)) \<le> mtu k1"
      using sz Cons.prems(1) [of s] only_txD(1) [OF t1] by simp
    moreover have "\<And>s'. ident s' = ident s1 \<Longrightarrow> P s'" using dk(1) Cons.prems(2) [of s] by simp
    ultimately show ?thesis using send_seg_ok [OF w1, of s1 current wnd] True by simp
  qed (use w1 in simp)
  then obtain s2 k2 ptr2 where 2: "(if ns then send_seg current wnd s1 k1 ptr else Inr (s1, k1, ptr)) = Inr (s2, k2, ptr2)"
    "writer P out k2 ptr2" "ident s2 = ident s" "only_tx k k2"
    using dk(1) only_tx_trans [OF t1] by auto
  have "\<exists>segs' k' ptr' fv'. flush_data current resent hp wnd ss k2 ptr2 fv1 = Inr (segs', k', ptr', fv') \<and>
      writer P out k' ptr' \<and> map ident segs' = map ident ss \<and> only_tx k2 k'"
    using Cons.prems only_txD(1) [OF 2(4)] 2(2) by (intro Cons.IH) auto
  then show ?case using d 2 only_tx_trans [OF 2(4)] by (fastforce simp: Let_def)
qed simp

section \<open>Admission into the window\<close>

text \<open>The identities queued segments get when they are admitted from sequence number \<open>nxt\<close> on.\<close>

fun stamps :: "u32 \<Rightarrow> u32 \<Rightarrow> segment list \<Rightarrow> ident list" where
  "stamps cv nxt [] = []"
| "stamps cv nxt (s # ss) = (cv, s_cmd s, s_frg s, nxt, s_data s) # stamps cv (nxt + 1) ss"

lemma length_stamps [simp]: "length (stamps cv nxt ss) = length ss"
  by (induction ss arbitrary: nxt) auto

lemma stamps_nth: "i < length ss \<Longrightarrow>
  stamps cv nxt ss ! i = (cv, s_cmd (ss ! i), s_frg (ss ! i), nxt + of_nat i, s_data (ss ! i))"
proof (induction ss arbitrary: nxt i)
  case (Cons s ss)
  then show ?case by (cases i) (auto simp: algebra_simps)
qed simp

lemma flush_admit_upd:
  "flush_admit cw wnd current q k = (c, k') \<Longrightarrow> c \<le> length q \<and>
   (\<exists>new. k' = k \<lparr> snd_buf := snd_buf k @ new, snd_nxt := snd_nxt k + of_nat c \<rparr> \<and>
      map ident new = stamps (conv k) (snd_nxt k) (take c q))"
proof (induction q arbitrary: k c)
  case Nil
  then show ?case by (auto intro: exI [of _ "[]"])
next
  case (Cons s ss)
  show ?case
  proof (cases "itimediff (snd_nxt k) (snd_una k + cw) \<ge> 0")
    case True
    with Cons.prems show ?thesis by (auto intro: exI [of _ "[]"])
  next
    case False
    define ns where "ns = s \<lparr> s_conv := conv k, s_wnd := wnd, s_ts := current, s_sn := snd_nxt k,
      s_una := rcv_nxt k, s_resendts := current, s_rto := rx_rto k \<rparr>"
    define k1 where "k1 = k \<lparr> snd_buf := snd_buf k @ [ns], snd_nxt := snd_nxt k + 1 \<rparr>"
    obtain c1 where r: "flush_admit cw wnd current ss k1 = (c1, k')" "c = Suc c1"
      using Cons.prems False by (auto simp: k1_def ns_def Let_def split: prod.splits)
    obtain new where n: "k' = k1 \<lparr> snd_buf := snd_buf k1 @ new, snd_nxt := snd_nxt k1 + of_nat c1 \<rparr>"
      "map ident new = stamps (conv k1) (snd_nxt k1) (take c1 ss)" "c1 \<le> length ss"
      using Cons.IH [OF r(1)] by blast
    have "k' = k \<lparr> snd_buf := snd_buf k @ (ns # new), snd_nxt := snd_nxt k + of_nat c \<rparr>"
      using n(1) r(2) by (simp add: k1_def algebra_simps)
    moreover have "map ident (ns # new) = stamps (conv k) (snd_nxt k) (take c (s # ss))"
      using n(2) r(2) by (simp add: k1_def ns_def ident_def)
    ultimately show ?thesis using n(3) r(2) by (intro conjI exI [of _ "ns # new"]) auto
  qed
qed

text \<open>The guard admits exactly as many segments as the window has room for.\<close>

lemma flush_admit_count:
  assumes "soff (snd_una k) (snd_nxt k) \<le> WND_MAX" "unat cw \<le> WND_MAX"
  shows "fst (flush_admit cw wnd current q k) = min (length q) (unat cw - soff (snd_una k) (snd_nxt k))"
  using assms
proof (induction q arbitrary: k)
  case (Cons s ss)
  let ?d = "soff (snd_una k) (snd_nxt k)"
  have "soff (snd_una k) (snd_una k + cw) = unat cw" by (simp add: soff_def)
  then have g: "itimediff (snd_nxt k) (snd_una k + cw) = int ?d - int (unat cw)"
    using itimediff_base [of "snd_una k" "snd_nxt k" "snd_una k + cw"] Cons.prems by (simp add: WND_MAX_def)
  show ?case
  proof (cases "unat cw \<le> ?d")
    case False
    define k1 where "k1 = k \<lparr> snd_buf := snd_buf k @ [s \<lparr> s_conv := conv k, s_wnd := wnd, s_ts := current,
      s_sn := snd_nxt k, s_una := rcv_nxt k, s_resendts := current, s_rto := rx_rto k \<rparr>],
      snd_nxt := snd_nxt k + 1 \<rparr>"
    have d1: "soff (snd_una k1) (snd_nxt k1) = Suc ?d"
      using Cons.prems by (simp add: k1_def soff_Suc WND_MAX_def)
    have "fst (flush_admit cw wnd current ss k1) = min (length ss) (unat cw - Suc ?d)"
      using Cons.IH [of k1] Cons.prems False d1 by simp
    then show ?thesis using g False by (auto simp: k1_def Let_def case_prod_beta min_def)
  qed (use g in simp)
qed simp

section \<open>The whole of \<open>flush\<close>\<close>

definition flush_pre :: "KCP \<Rightarrow> bool" where
  "flush_pre k \<longleftrightarrow> 50 \<le> mtu k \<and> mtu k \<le> int (buffer k) \<and>
     (\<forall>s \<in> set (snd_buf k) \<union> set (snd_queue k). int (IKCP_OVERHEAD + length (s_data s)) \<le> mtu k)"

text \<open>How many queued segments a flush admits, and the identities in flight afterwards.\<close>

definition flush_count :: "KCP \<Rightarrow> nat" where
  "flush_count k = min (length (snd_queue k)) (unat (calc_cwnd k) - soff (snd_una k) (snd_nxt k))"

definition flush_idents :: "KCP \<Rightarrow> ident list" where
  "flush_idents k =
     map ident (snd_buf k) @ stamps (conv k) (snd_nxt k) (take (flush_count k) (snd_queue k))"

text \<open>The fields \<open>flush\<close> never writes, and those it does not write before the window moves.\<close>

definition flush_frame where
  "flush_frame k = (conv k, state k, mtu k, mss k, snd_una k, rcv_nxt k, rx_rttval k, rx_srtt k, rx_rto k,
     rx_minrto k, snd_wnd k, rcv_wnd k, rmt_wnd k, interval k, ts_flush k, nodelay k, updated k,
     fastresend k, nocwnd k, stream k, rcv_queue k, rcv_buf k, buffer k)"

definition pre_frame where
  "pre_frame k = (flush_frame k, snd_buf k, snd_nxt k, snd_queue k, cwnd k, ssthresh k, incr k)"

lemma pre_frame_out: "only_out k k' \<Longrightarrow> pre_frame k' = pre_frame k"
  by (auto simp: only_out_def pre_frame_def flush_frame_def)

lemma pre_frame_upd [simp]:
  "pre_frame (k \<lparr> acklist := a \<rparr>) = pre_frame k"
  "pre_frame (k \<lparr> probe := p \<rparr>) = pre_frame k"
  "pre_frame (flush_probe current k) = pre_frame k"
  by (simp_all add: pre_frame_def flush_frame_def flush_probe_def Let_def)

lemma writer_upd [simp]:
  "writer P out (k \<lparr> acklist := a \<rparr>) ptr = writer P out k ptr"
  "writer P out (k \<lparr> probe := p \<rparr>) ptr = writer P out k ptr"
  "writer P out (k \<lparr> snd_queue := q \<rparr>) ptr = writer P out k ptr"
  "writer P out (k \<lparr> snd_buf := b, snd_nxt := n \<rparr>) ptr = writer P out k ptr"
  "writer P out (k \<lparr> snd_buf := b \<rparr>) ptr = writer P out k ptr"
  "writer P out (flush_probe current k) ptr = writer P out k ptr"
  "writer P out (flush_stats fv k) ptr = writer P out k ptr"
  by (simp_all add: writer_def flush_probe_def flush_stats_def Let_def)

lemma flush_head:
  assumes "flush_pre k" and P: "\<And>s. ctl (conv k) s \<Longrightarrow> P s"
  shows "\<exists>seg1 k1 ptr1 seg2 k2 ptr2 seg3 k3 ptr3.
    flush_acks (acklist k) (flush_template k) k (buffer k, []) = Inr (seg1, k1, ptr1) \<and>
    flush_cmd IKCP_ASK_SEND IKCP_CMD_WASK seg1 (flush_probe current (k1 \<lparr> acklist := [] \<rparr>)) ptr1
      = Inr (seg2, k2, ptr2) \<and>
    flush_cmd IKCP_ASK_TELL IKCP_CMD_WINS seg2 k2 ptr2 = Inr (seg3, k3, ptr3) \<and>
    writer P (outputs k) k3 ptr3 \<and> pre_frame k3 = pre_frame k \<and> acklist k3 = []"
proof -
  have m: "50 \<le> mtu k" using assms(1) by (simp add: flush_pre_def)
  have w: "writer P (outputs k) k (buffer k, [])"
    using assms(1) by (auto simp: writer_def flush_pre_def intro: exI [of _ "[]"])
  have c: "ctl (conv k) (flush_template k)" by (simp add: ctl_def flush_template_def segment0_def)
  obtain seg1 k1 ptr1 where 1: "flush_acks (acklist k) (flush_template k) k (buffer k, []) = Inr (seg1, k1, ptr1)"
    "writer P (outputs k) k1 ptr1" "ctl (conv k) seg1" "only_out k k1"
    using flush_acks_ok [OF P w c m] by blast
  let ?k = "flush_probe current (k1 \<lparr> acklist := [] \<rparr>)"
  have f1: "pre_frame ?k = pre_frame k" using pre_frame_out [OF 1(4)] by simp
  then have m1: "50 \<le> mtu ?k" using m by (simp add: pre_frame_def flush_frame_def)
  obtain seg2 k2 ptr2 where 2: "flush_cmd IKCP_ASK_SEND IKCP_CMD_WASK seg1 ?k ptr1 = Inr (seg2, k2, ptr2)"
    "writer P (outputs k) k2 ptr2" "ctl (conv k) seg2" "only_out ?k k2"
    using flush_cmd_ok [where P = P and cv = "conv k" and cmd = IKCP_CMD_WASK and out = "outputs k"
        and k = ?k and ptr = ptr1 and seg = seg1 and ask = IKCP_ASK_SEND] P 1(2,3) m1 by auto
  have m2: "50 \<le> mtu k2" using only_txD(1) [OF only_out_tx [OF 2(4)]] m1 by simp
  obtain seg3 k3 ptr3 where 3: "flush_cmd IKCP_ASK_TELL IKCP_CMD_WINS seg2 k2 ptr2 = Inr (seg3, k3, ptr3)"
    "writer P (outputs k) k3 ptr3" "only_out k2 k3"
    using flush_cmd_ok [where P = P and cv = "conv k" and cmd = IKCP_CMD_WINS and out = "outputs k"
        and k = k2 and ptr = ptr2 and seg = seg2 and ask = IKCP_ASK_TELL] P 2(2,3) m2 by auto
  have "pre_frame k3 = pre_frame k" using f1 pre_frame_out [OF 2(4)] pre_frame_out [OF 3(3)] by simp
  moreover have "acklist k3 = []"
    using 2(4) 3(3) by (auto simp: only_out_def flush_probe_def Let_def)
  ultimately show ?thesis using 1(1) 2(1) 3(1,2) by blast
qed

lemma flush_window_ok:
  assumes "snd_inv k" "unat (calc_cwnd k) \<le> WND_MAX"
  shows "\<exists>new. flush_window (calc_cwnd k) wnd current k = (flush_count k,
      k \<lparr> snd_buf := snd_buf k @ new, snd_nxt := snd_nxt k + of_nat (flush_count k),
          snd_queue := drop (flush_count k) (snd_queue k) \<rparr>) \<and>
    map ident (snd_buf k @ new) = flush_idents k"
proof -
  obtain c k' where a: "flush_admit (calc_cwnd k) wnd current (snd_queue k) k = (c, k')"
    by (cases "flush_admit (calc_cwnd k) wnd current (snd_queue k) k")
  have c: "c = flush_count k"
    using flush_admit_count [OF _ assms(2), of k wnd current "snd_queue k"] a snd_inv_span [OF assms(1)]
    by (simp add: flush_count_def WND_MAX_def)
  obtain new where "k' = k \<lparr> snd_buf := snd_buf k @ new, snd_nxt := snd_nxt k + of_nat c \<rparr>"
    "map ident new = stamps (conv k) (snd_nxt k) (take c (snd_queue k))"
    using flush_admit_upd [OF a] by blast
  then show ?thesis
    using a c by (intro exI [of _ new]) (simp add: flush_window_def flush_idents_def)
qed

lemma flush_cwnd_upd: "\<exists>a b c. flush_cwnd cw resent fv k = k \<lparr> ssthresh := a, cwnd := b, incr := c \<rparr> \<and> 1 \<le> b"
proof -
  define S where "S = (\<lambda>q. \<exists>a b c. q = k \<lparr> ssthresh := a, cwnd := b, incr := c \<rparr>)"
  have S: "S (k \<lparr> ssthresh := a, cwnd := b, incr := c \<rparr>)" for a b c unfolding S_def by blast
  have S0: "S k" using S [where a = "ssthresh k" and b = "cwnd k" and c = "incr k"] by simp
  have S1: "S (q \<lparr> ssthresh := a, cwnd := b, incr := c \<rparr>)" if "S q" for q a b c
    using that S unfolding S_def by auto
  have last: "\<exists>a b c. (if cwnd q < 1 then q \<lparr> cwnd := 1, incr := i \<rparr> else q) =
      k \<lparr> ssthresh := a, cwnd := b, incr := c \<rparr> \<and> 1 \<le> b" if q: "S q" for q i
  proof (cases "cwnd q < 1")
    case True
    obtain a b c where "q = k \<lparr> ssthresh := a, cwnd := b, incr := c \<rparr>" using q by (auto simp: S_def)
    then have "q \<lparr> cwnd := 1, incr := i \<rparr> = k \<lparr> ssthresh := a, cwnd := 1, incr := i \<rparr>" by simp
    with True show ?thesis using order_refl [of "1 :: u32"] by (simp only: if_True) blast
  next
    case False
    then have "1 \<le> cwnd q" by (rule leI)
    moreover obtain a b c where e: "q = k \<lparr> ssthresh := a, cwnd := b, incr := c \<rparr>"
      using q by (auto simp: S_def)
    ultimately have "1 \<le> b" by simp
    with False e show ?thesis by (simp only: if_False) blast
  qed
  show ?thesis
    unfolding flush_cwnd_def Let_def by (rule last) (simp add: S0 S1)
qed

lemma calc_cwnd_windows:
  "unat (calc_cwnd k) \<le> unat (rmt_wnd k)" "unat (calc_cwnd k) \<le> unat (snd_wnd k)"
  "nocwnd k = 0 \<Longrightarrow> unat (calc_cwnd k) \<le> unat (cwnd k)"
  "calc_cwnd k = snd_wnd k \<or> calc_cwnd k = rmt_wnd k \<or> nocwnd k = 0 \<and> calc_cwnd k = cwnd k"
  by (auto simp: calc_cwnd_def Let_def word_le_nat_alt [symmetric] min_def)

lemma calc_cwnd_le: "snd_inv k \<Longrightarrow> unat (calc_cwnd k) \<le> WND_MAX"
proof -
  assume "snd_inv k"
  then have "unat (rmt_wnd k) \<le> WND_MAX" by (simp add: snd_inv_def)
  moreover have "calc_cwnd k \<le> rmt_wnd k"
    by (auto simp: calc_cwnd_def Let_def intro: min.coboundedI2)
  ultimately show ?thesis by (meson word_le_nat_alt le_trans)
qed

lemma pre_frame_snd:
  assumes "pre_frame q = pre_frame k"
  shows "snd_inv q = snd_inv k" "calc_cwnd q = calc_cwnd k" "flush_count q = flush_count k"
    "flush_idents q = flush_idents k" "flush_resent q = flush_resent k" "mtu q = mtu k"
proof -
  show cw: "calc_cwnd q = calc_cwnd k"
    using assms by (simp add: pre_frame_def flush_frame_def calc_cwnd_def Let_def)
  show fc: "flush_count q = flush_count k"
    using assms cw by (simp add: pre_frame_def flush_frame_def flush_count_def)
  show "flush_idents q = flush_idents k"
    using assms fc by (simp add: pre_frame_def flush_frame_def flush_idents_def)
  show "snd_inv q = snd_inv k"
    using assms by (simp add: pre_frame_def flush_frame_def snd_inv_def una_of_def split: list.split)
  show "flush_resent q = flush_resent k" "mtu q = mtu k"
    using assms by (simp_all add: pre_frame_def flush_frame_def flush_resent_def)
qed

lemma stamps_data: "i \<in> set (stamps cv nxt ss) \<Longrightarrow> \<exists>s \<in> set ss. snd (snd (snd (snd i))) = s_data s"
  by (induction ss arbitrary: nxt) auto

lemma flush_idents_size:
  assumes "flush_pre k" "ident s \<in> set (flush_idents k)"
  shows "int (IKCP_OVERHEAD + length (s_data s)) \<le> mtu k"
proof -
  have "\<exists>s' \<in> set (snd_buf k) \<union> set (snd_queue k). s_data s = s_data s'"
    using assms(2) stamps_data [of "ident s" "conv k" "snd_nxt k" "take (flush_count k) (snd_queue k)"]
    by (auto simp: flush_idents_def ident_def dest: in_set_takeD)
  then show ?thesis using assms(1) by (auto simp: flush_pre_def)
qed

lemma flush_last_writer:
  assumes "writer P out k ptr"
  shows "\<exists>pkts. flush_last k ptr = k \<lparr> outputs := out @ pkts \<rparr> \<and> (\<forall>p \<in> set pkts. pkt_ok P (mtu k) p)"
proof -
  obtain pkts where p: "outputs k = out @ pkts" "\<forall>p \<in> set pkts. pkt_ok P (mtu k) p"
    using assms by (auto simp: writer_def)
  show ?thesis
  proof (cases "snd ptr = []")
    case True
    then have "flush_last k ptr = k \<lparr> outputs := out @ pkts \<rparr>" using p(1) by (simp add: flush_last_def flip: p(1))
    with p(2) show ?thesis by blast
  next
    case False
    then have "flush_last k ptr = k \<lparr> outputs := out @ (pkts @ [snd ptr]) \<rparr>" "pkt_ok P (mtu k) (snd ptr)"
      using p(1) assms by (auto simp: flush_last_def writer_def pkt_ok_def)
    with p(2) show ?thesis by (intro exI [of _ "pkts @ [snd ptr]"]) auto
  qed
qed

lemma flush_stats_tx: "\<exists>a b. flush_stats fv k = k \<lparr> stats := a, gstats := b \<rparr>"
  by (simp add: flush_stats_def Let_def) blast

lemma flush_tail:
  assumes "only_tx k k5" "writer P out k5 ptr"
  shows "\<exists>pkts. let k' = flush_cwnd cw resent fv (flush_last (flush_stats fv (k5 \<lparr> snd_buf := segs \<rparr>)) ptr)
    in outputs k' = out @ pkts \<and> (\<forall>p \<in> set pkts. pkt_ok P (mtu k) p) \<and> 1 \<le> cwnd k' \<and>
      snd_buf k' = segs \<and> snd_queue k' = snd_queue k \<and> snd_nxt k' = snd_nxt k \<and>
      acklist k' = acklist k \<and> probe k' = probe k \<and> flush_frame k' = flush_frame k"
proof -
  let ?q = "flush_stats fv (k5 \<lparr> snd_buf := segs \<rparr>)"
  obtain pkts where p: "flush_last ?q ptr = ?q \<lparr> outputs := out @ pkts \<rparr>" "\<forall>p \<in> set pkts. pkt_ok P (mtu ?q) p"
    using flush_last_writer [of P out ?q ptr] assms(2) by auto
  obtain a b c where "flush_cwnd cw resent fv (flush_last ?q ptr) =
      (flush_last ?q ptr) \<lparr> ssthresh := a, cwnd := b, incr := c \<rparr>" "1 \<le> b"
    using flush_cwnd_upd by blast
  moreover obtain d e where "?q = (k5 \<lparr> snd_buf := segs \<rparr>) \<lparr> stats := d, gstats := e \<rparr>"
    using flush_stats_tx by blast
  moreover obtain f g h i where "k5 = k \<lparr> outputs := f, xmit := g, stats := h, gstats := i \<rparr>"
    using assms(1) by (auto simp: only_tx_def)
  ultimately show ?thesis using p by (intro exI [of _ pkts]) (simp add: Let_def flush_frame_def)
qed

theorem flush_ok:
  assumes pre: "flush_pre k" and inv: "snd_inv k"
  shows "\<exists>k' pkts. flush current k = Inr k' \<and>
    map ident (snd_buf k') = flush_idents k \<and>
    snd_queue k' = drop (flush_count k) (snd_queue k) \<and>
    snd_nxt k' = snd_nxt k + of_nat (flush_count k) \<and>
    outputs k' = outputs k @ pkts \<and>
    (\<forall>p \<in> set pkts. pkt_ok (\<lambda>s. ctl (conv k) s \<or> ident s \<in> set (flush_idents k)) (mtu k) p) \<and>
    acklist k' = [] \<and> probe k' = 0 \<and> 1 \<le> cwnd k' \<and> flush_frame k' = flush_frame k"
proof -
  let ?P = "\<lambda>s. ctl (conv k) s \<or> ident s \<in> set (flush_idents k)" and ?wnd = "to_uint32 (wnd_unused k)"
  obtain seg1 k1 ptr1 seg2 k2 ptr2 seg3 k3 ptr where head:
    "flush_acks (acklist k) (flush_template k) k (buffer k, []) = Inr (seg1, k1, ptr1)"
    "flush_cmd IKCP_ASK_SEND IKCP_CMD_WASK seg1 (flush_probe current (k1 \<lparr> acklist := [] \<rparr>)) ptr1
      = Inr (seg2, k2, ptr2)"
    "flush_cmd IKCP_ASK_TELL IKCP_CMD_WINS seg2 k2 ptr2 = Inr (seg3, k3, ptr)"
    and w3: "writer ?P (outputs k) k3 ptr" and f3: "pre_frame k3 = pre_frame k" and a3: "acklist k3 = []"
    using flush_head [OF pre, of ?P current] by blast
  define q where "q = k3 \<lparr> probe := 0 \<rparr>"
  have fq: "pre_frame q = pre_frame k" using f3 by (simp add: q_def)
  note fr = pre_frame_snd [OF fq]
  obtain new where win: "flush_window (calc_cwnd q) ?wnd current q = (flush_count k,
      q \<lparr> snd_buf := snd_buf q @ new, snd_nxt := snd_nxt q + of_nat (flush_count k),
          snd_queue := drop (flush_count k) (snd_queue q) \<rparr>)"
    and ids: "map ident (snd_buf q @ new) = flush_idents k"
    using flush_window_ok [of q ?wnd current] inv calc_cwnd_le fr by auto
  define k4 where "k4 = q \<lparr> snd_buf := snd_buf q @ new, snd_nxt := snd_nxt q + of_nat (flush_count k),
      snd_queue := drop (flush_count k) (snd_queue q) \<rparr>"
  have w4: "writer ?P (outputs k) k4 ptr" using w3 by (simp add: k4_def q_def writer_def)
  have in_ids: "ident s \<in> set (flush_idents k)" if "s \<in> set (snd_buf q @ new)" for s
    using that by (auto simp flip: ids)
  have m4: "mtu k4 = mtu k" using fr(6) by (simp add: k4_def)
  obtain segs k5 ptr5 fv where dat: "flush_data current (flush_resent k4) (flush_count k > 0) ?wnd (snd_buf k4) k4 ptr
      flush_vars0 = Inr (segs, k5, ptr5, fv)" "writer ?P (outputs k) k5 ptr5"
      "map ident segs = map ident (snd_buf k4)" "only_tx k4 k5"
    using flush_data_ok [of "snd_buf k4" k4 ?P "outputs k" ptr current "flush_resent k4" "flush_count k > 0" ?wnd
        flush_vars0] w4 in_ids flush_idents_size [OF pre] m4 by (auto simp: k4_def)
  have fl: "flush current k = Inr (flush_cwnd (calc_cwnd q) (flush_resent k4) fv
      (flush_last (flush_stats fv (k5 \<lparr> snd_buf := segs \<rparr>)) ptr5))"
    using head win dat(1) by (simp add: flush_def Let_def q_def [symmetric] k4_def [symmetric])
  have "snd_nxt q = snd_nxt k" "snd_queue q = snd_queue k" "flush_frame q = flush_frame k"
    using fq by (simp_all add: pre_frame_def)
  then have k4: "snd_queue k4 = drop (flush_count k) (snd_queue k)" "snd_nxt k4 = snd_nxt k + of_nat (flush_count k)"
    "acklist k4 = []" "probe k4 = 0" "flush_frame k4 = flush_frame k"
    using a3 by (simp_all add: k4_def q_def flush_frame_def)
  have "map ident segs = flush_idents k" using dat(3) ids by (simp add: k4_def)
  with flush_tail [OF dat(4,2), of "calc_cwnd q" "flush_resent k4" fv segs] k4 m4 show ?thesis
    unfolding fl Let_def by (auto simp del: map_append)
qed

section \<open>Invariants across \<open>flush\<close>\<close>

definition ident_sn :: "ident \<Rightarrow> u32" where
  "ident_sn i = fst (snd (snd (snd i)))"

lemma ident_sn_ident [simp]: "ident_sn (ident s) = s_sn s"
  by (simp add: ident_sn_def ident_def)

lemma stamps_sn: "map ident_sn (stamps cv nxt ss) = map (\<lambda>i. nxt + of_nat i) [0..<length ss]"
  by (rule nth_equalityI) (simp_all add: stamps_nth ident_sn_def)

lemma idents_sn: "map ident segs = is \<Longrightarrow> map s_sn segs = map ident_sn is"
  by (auto simp: comp_def)

lemma flush_count_le: "flush_count k \<le> length (snd_queue k)"
  by (simp add: flush_count_def)

lemma flush_idents_sn:
  "map ident_sn (flush_idents k) =
   map s_sn (snd_buf k) @ map (\<lambda>i. snd_nxt k + of_nat i) [0..<flush_count k]"
  by (simp add: flush_idents_def stamps_sn flush_count_le min_absorb2 comp_def)

lemma flush_count_span:
  assumes "snd_inv k" "0 < flush_count k"
  shows "soff (snd_una k) (snd_nxt k) + flush_count k \<le> unat (calc_cwnd k)"
  using assms(2) unfolding flush_count_def by linarith

lemma soff_advance: "soff b n + i < 2 ^ 32 \<Longrightarrow> soff b (n + of_nat i) = soff b n + i"
  using soff_shift_back [of n "n + of_nat i" b] soff_of_nat [of i n] by simp

lemma in_flight_extend:
  assumes fl: "in_flight b n sns" and c: "soff b n + c \<le> WND_MAX"
  shows "in_flight b (n + of_nat c) (sns @ map (\<lambda>i. n + of_nat i) [0..<c])"
proof -
  have adv: "soff b (n + of_nat i) = soff b n + i" if "i \<le> c" for i
    using c that by (intro soff_advance) (simp add: WND_MAX_def)
  have "sorted_wrt (<) (map (soff b) (map (\<lambda>i. n + of_nat i) [0..<c]))"
    unfolding map_map comp_def sorted_wrt_map
    by (rule sorted_wrt_mono_rel [of _ "(<)"]) (simp_all add: adv sorted_wrt_upt)
  then show ?thesis using fl c adv by (fastforce simp: in_flight_def sorted_wrt_append)
qed

lemma flush_snd_inv:
  assumes pre: "flush_pre k" and inv: "snd_inv k" and fl: "flush current k = Inr k'"
  shows "snd_inv k'"
proof -
  have ids: "map ident (snd_buf k') = flush_idents k" and nxt: "snd_nxt k' = snd_nxt k + of_nat (flush_count k)"
    and fr: "flush_frame k' = flush_frame k"
    using flush_ok [OF pre inv, of current] fl by auto
  have sns: "map s_sn (snd_buf k') = map s_sn (snd_buf k) @ map (\<lambda>i. snd_nxt k + of_nat i) [0..<flush_count k]"
    using idents_sn [OF ids] flush_idents_sn by simp
  have "soff (snd_una k) (snd_nxt k) + flush_count k \<le> WND_MAX"
    using flush_count_span [OF inv] calc_cwnd_le [OF inv] snd_inv_span [OF inv]
    by (cases "flush_count k = 0") (auto simp: WND_MAX_def)
  from in_flight_extend [OF snd_inv_flight [OF inv] this]
  have "in_flight (snd_una k') (snd_nxt k') (map s_sn (snd_buf k'))"
    using fr nxt sns by (simp add: flush_frame_def)
  moreover have "una_of k' = snd_una k'"
  proof (cases "snd_buf k")
    case Nil
    then have "snd_nxt k = snd_una k" using inv by (simp add: snd_inv_def una_of_def)
    with Nil nxt sns fr show ?thesis
      by (cases "flush_count k") (auto simp: una_of_sn upt_rec flush_frame_def)
  next
    case (Cons s ss)
    then have "s_sn s = snd_una k" using inv by (simp add: snd_inv_def una_of_def)
    with Cons sns fr show ?thesis by (simp add: una_of_sn flush_frame_def)
  qed
  moreover have "unat (rmt_wnd k') \<le> WND_MAX" using inv fr by (simp add: snd_inv_def flush_frame_def)
  ultimately show ?thesis by (simp add: snd_inv_def)
qed

lemma flush_rcv_inv:
  assumes "flush_frame k' = flush_frame k"
  shows "rcv_inv k' = rcv_inv k"
proof -
  have f: "rcv_nxt k' = rcv_nxt k" "rcv_buf k' = rcv_buf k" "rcv_queue k' = rcv_queue k" "rcv_wnd k' = rcv_wnd k"
    using assms by (simp_all add: flush_frame_def)
  then have "roff k' = roff k" by (simp add: fun_eq_iff roff_def)
  with f show ?thesis by (simp add: rcv_inv_def)
qed

lemma flush_pre_keep:
  assumes pre: "flush_pre k" and inv: "snd_inv k" and fl: "flush current k = Inr k'"
  shows "flush_pre k'"
proof -
  have ids: "map ident (snd_buf k') = flush_idents k" and q: "snd_queue k' = drop (flush_count k) (snd_queue k)"
    and fr: "flush_frame k' = flush_frame k"
    using flush_ok [OF pre inv, of current] fl by auto
  have m: "mtu k' = mtu k" "buffer k' = buffer k" using fr by (simp_all add: flush_frame_def)
  have "int (IKCP_OVERHEAD + length (s_data s)) \<le> mtu k" if "s \<in> set (snd_buf k')" for s
    using that flush_idents_size [OF pre, of s] by (simp flip: ids)
  then show ?thesis
    using pre m q by (auto simp: flush_pre_def dest: in_set_dropD)
qed

section \<open>What leaves the program\<close>

text \<open>Bytes handed out so far, followed by those of the packet being assembled.\<close>

definition out_bytes :: "KCP \<Rightarrow> wslice \<Rightarrow> bytes" where
  "out_bytes k ptr = concat (outputs k) @ snd ptr"

lemma emit_out_bytes: "emit_if_over need k ptr = (k', ptr') \<Longrightarrow> out_bytes k' ptr' = out_bytes k ptr \<and> only_out k k'"
  by (auto simp: emit_if_over_def out_bytes_def intro: only_outI split: if_splits)

lemma encode_out_bytes: "encode s ptr = Inr ptr' \<Longrightarrow> out_bytes k ptr' = out_bytes k ptr @ header_bytes (seg_header s)"
  by (cases ptr) (auto simp: out_bytes_def encode_eq split: if_splits)

text \<open>The acknowledgements that are written: those not yet covered by \<open>una\<close>, and the last one.\<close>

fun ack_sel :: "u32 \<Rightarrow> ackItem list \<Rightarrow> ackItem list" where
  "ack_sel nxt [] = []"
| "ack_sel nxt (a # as) = (if a_sn a \<ge> nxt \<or> as = [] then a # ack_sel nxt as else ack_sel nxt as)"

definition ack_seg :: "segment \<Rightarrow> ackItem \<Rightarrow> segment" where
  "ack_seg seg a = seg \<lparr> s_sn := a_sn a, s_ts := a_ts a \<rparr>"

lemma wire_ctl: "s_data s = [] \<Longrightarrow> wire s = header_bytes (seg_header s)"
  by (simp add: wire_def)

lemma flush_acks_log:
  "flush_acks acks seg k ptr = Inr (seg', k', ptr') \<Longrightarrow> s_data seg = [] \<Longrightarrow>
   out_bytes k' ptr' = out_bytes k ptr @ concat (map wire (map (ack_seg seg) (ack_sel (rcv_nxt k) acks))) \<and>
   s_data seg' = [] \<and> only_out k k'"
proof (induction acks arbitrary: seg k ptr)
  case (Cons a acks)
  obtain k1 ptr1 where e: "emit_if_over IKCP_OVERHEAD k ptr = (k1, ptr1)"
    by (cases "emit_if_over IKCP_OVERHEAD k ptr")
  note e1 = emit_out_bytes [OF e]
  then have n1: "rcv_nxt k1 = rcv_nxt k" by (auto simp: only_out_def)
  show ?case
  proof (cases "a_sn a \<ge> rcv_nxt k1 \<or> acks = []")
    case True
    let ?seg = "seg \<lparr> s_sn := a_sn a, s_ts := a_ts a \<rparr>"
    obtain ptr2 where p2: "encode ?seg ptr1 = Inr ptr2" "flush_acks acks ?seg k1 ptr2 = Inr (seg', k', ptr')"
      using Cons.prems(1) True e by (auto simp: Let_def bind_res_eq_Inr)
    have "ack_seg ?seg = ack_seg seg" by (auto simp: fun_eq_iff ack_seg_def)
    with Cons.IH [OF p2(2)] Cons.prems(2) encode_out_bytes [OF p2(1), of k1] e1 n1 True only_out_trans
    show ?thesis by (auto simp: wire_ctl ack_seg_def)
  next
    case False
    then have "flush_acks acks seg k1 ptr1 = Inr (seg', k', ptr')" using Cons.prems(1) e by (simp add: Let_def)
    from Cons.IH [OF this Cons.prems(2)] e1 n1 False only_out_trans show ?thesis by auto
  qed
qed simp

lemma flush_cmd_log:
  assumes "flush_cmd ask cmd seg k ptr = Inr (seg', k', ptr')" "s_data seg = []"
  shows "\<exists>ws. out_bytes k' ptr' = out_bytes k ptr @ concat (map wire ws) \<and> (\<forall>w \<in> set ws. s_data w = [])" and "s_data seg' = []"
    and "\<exists>out. k' = k \<lparr> outputs := out \<rparr>"
proof -
  have "(\<exists>ws. out_bytes k' ptr' = out_bytes k ptr @ concat (map wire ws) \<and> (\<forall>w \<in> set ws. s_data w = [])) \<and> s_data seg' = [] \<and> only_out k k'"
  proof (cases "probe k AND ask \<noteq> 0")
    case True
    obtain k1 ptr1 where e: "emit_if_over IKCP_OVERHEAD k ptr = (k1, ptr1)"
      by (cases "emit_if_over IKCP_OVERHEAD k ptr")
    have p: "encode (seg \<lparr> s_cmd := cmd \<rparr>) ptr1 = Inr ptr'" "k' = k1" "seg' = seg \<lparr> s_cmd := cmd \<rparr>"
      using assms(1) True e by (auto simp: flush_cmd_def Let_def bind_res_eq_Inr)
    then have "out_bytes k' ptr' = out_bytes k ptr @ concat (map wire [seg'])"
      using encode_out_bytes [OF p(1), of k1] emit_out_bytes [OF e] assms(2) by (simp add: wire_ctl)
    then show ?thesis using p emit_out_bytes [OF e] assms(2) by (auto simp del: append_same_eq intro: exI [of _ "[seg']"])
  next
    case False
    then have "out_bytes k' ptr' = out_bytes k ptr @ concat (map wire [])" "seg' = seg" "k' = k"
      using assms(1) by (simp_all add: flush_cmd_def)
    then show ?thesis using assms(2) by (auto simp del: append_self_conv intro: exI [of _ "[]"])
  qed
  then show "\<exists>ws. out_bytes k' ptr' = out_bytes k ptr @ concat (map wire ws) \<and> (\<forall>w \<in> set ws. s_data w = [])" "s_data seg' = []"
    "\<exists>out. k' = k \<lparr> outputs := out \<rparr>" by (auto simp: only_out_def)
qed

lemma flush_cwnd_outputs [simp]: "outputs (flush_cwnd cw resent fv k) = outputs k"
  by (simp add: flush_cwnd_def Let_def)

lemma send_seg_log:
  assumes "send_seg current wnd s k ptr = Inr (s', k', ptr')"
  shows "out_bytes k' ptr' = out_bytes k ptr @ wire s'" "ident s' = ident s"
proof -
  let ?s = "s \<lparr> s_ts := current, s_wnd := wnd, s_una := rcv_nxt k \<rparr>"
  obtain k1 ptr1 where e: "emit_if_over (IKCP_OVERHEAD + length (s_data ?s)) k ptr = (k1, ptr1)"
    by (cases "emit_if_over (IKCP_OVERHEAD + length (s_data ?s)) k ptr")
  obtain p2 where p: "encode ?s ptr1 = Inr p2" "put_bytes p2 (s_data s) = Inr ptr'" "s' = ?s"
    "k' = count_push ?s k1"
    using assms e by (auto simp: send_seg_def Let_def bind_res_eq_Inr)
  have "out_bytes k1 ptr' = out_bytes k1 p2 @ s_data s"
    using p(2) by (cases p2) (auto simp: out_bytes_def put_bytes_def split: if_splits)
  moreover have "out_bytes k' ptr' = out_bytes k1 ptr'" using p(4) by (simp add: out_bytes_def count_push_def)
  ultimately show "out_bytes k' ptr' = out_bytes k ptr @ wire s'" "ident s' = ident s"
    using encode_out_bytes [OF p(1), of k1] emit_out_bytes [OF e] p(3) by (simp_all add: wire_def ident_def)
qed

lemma flush_data_log:
  "flush_data current resent hp wnd segs k ptr fv = Inr (segs', k', ptr', fv') \<Longrightarrow>
   \<exists>ws. out_bytes k' ptr' = out_bytes k ptr @ concat (map wire ws) \<and>
     (\<forall>s \<in> set segs. due_now current s \<longrightarrow> ident s \<in> ident ` set ws) \<and> ident ` set ws \<subseteq> ident ` set segs"
proof (induction segs arbitrary: k ptr fv segs')
  case Nil
  then show ?case by (auto intro: exI [of _ "[]"])
next
  case (Cons s ss)
  obtain ns s1 k1 fv1 where d: "seg_decide current resent hp s k fv = (ns, s1, k1, fv1)"
    by (cases "seg_decide current resent hp s k fv")
  note dk = seg_decide_ok [OF d]
  have o1: "out_bytes k1 p = out_bytes k p" for p using dk(2) by (auto simp: out_bytes_def)
  obtain s2 k2 ptr2 ss2 where 2: "(if ns then send_seg current wnd s1 k1 ptr else Inr (s1, k1, ptr)) = Inr (s2, k2, ptr2)"
    "flush_data current resent hp wnd ss k2 ptr2 fv1 = Inr (ss2, k', ptr', fv')"
    using Cons.prems d by (auto simp: bind_res_eq_Inr)
  obtain ws where ws: "out_bytes k' ptr' = out_bytes k2 ptr2 @ concat (map wire ws)"
    "\<forall>s \<in> set ss. due_now current s \<longrightarrow> ident s \<in> ident ` set ws" "ident ` set ws \<subseteq> ident ` set ss"
    using Cons.IH [OF 2(2)] by blast
  define w where "w = (if ns then [s2] else [])"
  have o2: "out_bytes k2 ptr2 = out_bytes k ptr @ concat (map wire w)"
    using 2(1) send_seg_log(1) [of current wnd s1 k1 ptr s2 k2 ptr2] o1 by (auto simp: w_def split: if_splits)
  have "ident ` set w \<subseteq> {ident s}"
    using 2(1) dk(1) send_seg_log(2) [of current wnd s1 k1 ptr s2 k2 ptr2] by (auto simp: w_def)
  moreover have "ident s \<in> ident ` set w" if "due_now current s"
    using 2(1) dk(1) dk(3) [OF that] send_seg_log(2) [of current wnd s1 k1 ptr s2 k2 ptr2] by (simp add: w_def)
  ultimately show ?case using ws o2 by (intro exI [of _ "w @ ws"]) (auto simp: image_Un)
qed

lemma flush_admit_xmit:
  "flush_admit cw wnd current q k = (c, k') \<Longrightarrow> (\<forall>s \<in> set q. s_xmit s = 0) \<Longrightarrow>
   \<exists>new. snd_buf k' = snd_buf k @ new \<and> (\<forall>s \<in> set new. s_xmit s = 0)"
proof (induction q arbitrary: k c)
  case (Cons s ss)
  show ?case
  proof (cases "itimediff (snd_nxt k) (snd_una k + cw) \<ge> 0")
    case False
    define ns where "ns = s \<lparr> s_conv := conv k, s_wnd := wnd, s_ts := current, s_sn := snd_nxt k,
      s_una := rcv_nxt k, s_resendts := current, s_rto := rx_rto k \<rparr>"
    define k1 where "k1 = k \<lparr> snd_buf := snd_buf k @ [ns], snd_nxt := snd_nxt k + 1 \<rparr>"
    obtain c1 where "flush_admit cw wnd current ss k1 = (c1, k')"
      using Cons.prems False by (auto simp: k1_def ns_def Let_def split: prod.splits)
    then obtain new where "snd_buf k' = snd_buf k1 @ new" "\<forall>s \<in> set new. s_xmit s = 0"
      using Cons.IH Cons.prems(2) by (meson list.set_intros(2))
    then show ?thesis using Cons.prems(2) by (intro exI [of _ "ns # new"]) (simp add: k1_def ns_def)
  qed (use Cons.prems in auto)
qed simp

text \<open>
  The byte stream a flush adds to the network: the selected acknowledgements first, then frames
  without data and of segments in flight, among them every segment that was admitted into the
  window or is due again.
\<close>

theorem flush_log:
  assumes inv: "snd_inv k" and fresh: "\<forall>s \<in> set (snd_queue k). s_xmit s = 0"
    and fl: "flush current k = Inr k'"
  shows "\<exists>ws. concat (outputs k') = concat (outputs k) @
      concat (map wire (map (ack_seg (flush_template k)) (ack_sel (rcv_nxt k) (acklist k)) @ ws)) \<and>
    set (stamps (conv k) (snd_nxt k) (take (flush_count k) (snd_queue k))) \<union> ident ` {s \<in> set (snd_buf k). due_now current s}
      \<subseteq> ident ` set ws \<and>
    (\<forall>w \<in> set ws. s_data w = [] \<or> ident w \<in> set (flush_idents k))"
proof -
  let ?wnd = "to_uint32 (wnd_unused k)" and ?acks = "map (ack_seg (flush_template k)) (ack_sel (rcv_nxt k) (acklist k))"
  obtain seg1 k1 ptr1 where a: "flush_acks (acklist k) (flush_template k) k (buffer k, []) = Inr (seg1, k1, ptr1)"
    using fl by (auto simp: flush_def Let_def bind_res_eq_Inr)
  define q1 where "q1 = flush_probe current (k1 \<lparr> acklist := [] \<rparr>)"
  obtain seg2 k2 ptr2 where b: "flush_cmd IKCP_ASK_SEND IKCP_CMD_WASK seg1 q1 ptr1 = Inr (seg2, k2, ptr2)"
    using fl a by (auto simp: flush_def Let_def bind_res_eq_Inr q1_def)
  obtain seg3 k3 ptr3 where c: "flush_cmd IKCP_ASK_TELL IKCP_CMD_WINS seg2 k2 ptr2 = Inr (seg3, k3, ptr3)"
    using fl a b by (auto simp: flush_def Let_def bind_res_eq_Inr q1_def)
  define q where "q = k3 \<lparr> probe := 0 \<rparr>"
  obtain cnt k4 where w: "flush_window (calc_cwnd q) ?wnd current q = (cnt, k4)"
    by (cases "flush_window (calc_cwnd q) ?wnd current q")
  obtain segs k5 ptr5 fv where d: "flush_data current (flush_resent k4) (cnt > 0) ?wnd (snd_buf k4) k4 ptr3 flush_vars0
      = Inr (segs, k5, ptr5, fv)" and k': "k' = flush_cwnd (calc_cwnd q) (flush_resent k4) fv
        (flush_last (flush_stats fv (k5 \<lparr> snd_buf := segs \<rparr>)) ptr5)"
    using fl a b c w by (auto simp: flush_def Let_def bind_res_eq_Inr q1_def q_def)
  have s0: "s_data (flush_template k) = []" by (simp add: flush_template_def segment0_def)
  note la = flush_acks_log [OF a s0]
  note lb = flush_cmd_log [OF b conjunct1 [OF conjunct2 [OF la]]]
  note lc = flush_cmd_log [OF c lb(2)]
  have "out_bytes q1 ptr1 = out_bytes k1 ptr1" by (simp add: out_bytes_def q1_def flush_probe_def Let_def)
  then have out1: "out_bytes q1 ptr1 = concat (outputs k) @ concat (map wire ?acks)"
    using la by (simp add: out_bytes_def)
  obtain w2 where out2: "out_bytes k2 ptr2 = out_bytes q1 ptr1 @ concat (map wire w2)" "\<forall>w \<in> set w2. s_data w = []" using lb(1) by blast
  obtain w3 where out3: "out_bytes k3 ptr3 = out_bytes k2 ptr2 @ concat (map wire w3)" "\<forall>w \<in> set w3. s_data w = []" using lc(1) by blast
  obtain ws where out4: "out_bytes k5 ptr5 = out_bytes k4 ptr3 @ concat (map wire ws)"
    and ws: "\<forall>s \<in> set (snd_buf k4). due_now current s \<longrightarrow> ident s \<in> ident ` set ws" "ident ` set ws \<subseteq> ident ` set (snd_buf k4)"
    using flush_data_log [OF d] by blast
  have fq: "pre_frame q = pre_frame k"
    using la lb(3) lc(3) by (auto simp: q_def q1_def pre_frame_out only_out_def)
  note fr = pre_frame_snd [OF fq]
  obtain new where win: "cnt = flush_count k" "k4 = q \<lparr> snd_buf := snd_buf q @ new,
      snd_nxt := snd_nxt q + of_nat (flush_count k), snd_queue := drop (flush_count k) (snd_queue q) \<rparr>"
    "map ident (snd_buf q @ new) = flush_idents k"
    using flush_window_ok [of q ?wnd current] inv calc_cwnd_le fr w by auto
  have q: "snd_queue q = snd_queue k" "snd_buf q = snd_buf k" using fq by (simp_all add: pre_frame_def)
  obtain new' where "snd_buf k4 = snd_buf q @ new'" "\<forall>s \<in> set new'. s_xmit s = 0"
    using flush_admit_xmit [of "calc_cwnd q" ?wnd current "snd_queue q" q] w fresh q
    by (auto simp: flush_window_def split: prod.splits)
  then have "ident ` set new \<subseteq> ident ` set ws" using win(2) ws(1) by (auto simp: due_now_def)
  moreover have "map ident new = stamps (conv k) (snd_nxt k) (take (flush_count k) (snd_queue k))"
    using win(3) q by (simp add: flush_idents_def)
  ultimately have "set (stamps (conv k) (snd_nxt k) (take (flush_count k) (snd_queue k))) \<subseteq> ident ` set ws"
    by (metis list.set_map)
  moreover have "concat (outputs k') = out_bytes k5 ptr5" using flush_cwnd_outputs k' by (simp add: out_bytes_def flush_last_def flush_stats_def Let_def)
  moreover have "out_bytes k4 ptr3 = out_bytes k3 ptr3" using win(2) by (simp add: out_bytes_def q_def)
  moreover have "ident ` {s \<in> set (snd_buf k). due_now current s} \<subseteq> ident ` set ws" using win(2) ws(1) q(2) by auto
  moreover have "ident ` set ws \<subseteq> set (flush_idents k)" using ws(2) win(2) win(3) [symmetric] by auto
  ultimately show ?thesis using out1 out2 out3 out4 by (intro exI [of _ "w2 @ w3 @ ws"]) auto
qed

end
