(* ===== verification/Kcp_Timer.thy ===== *)
theory Kcp_Timer
  imports Kcp_Flush
begin

text \<open>
  The clock-driven half of \<open>go/kcp/kcp.go\<close>: \<open>update\<close>, which flushes when the flush time has
  come, and \<open>check\<close>, which says when \<open>update\<close> should be called next. The 32-bit millisecond
  clock wraps around every 49.7 days and may jump; \<open>slap\<close> is its signed distance from the flush
  time.
\<close>

section \<open>Operations\<close>

definition update :: "u32 \<Rightarrow> KCP \<Rightarrow> KCP res" where
  "update current k =
     (let k = (if updated k = 0 then k \<lparr> updated := 1, ts_flush := current \<rparr> else k);
          slap = itimediff current (ts_flush k);
          (slap, k) = (if slap \<ge> 10000 \<or> slap < -10000 then (0, k \<lparr> ts_flush := current \<rparr>) else (slap, k))
      in if slap \<ge> 0
         then let k = k \<lparr> ts_flush := ts_flush k + interval k \<rparr>;
                  k = (if itimediff current (ts_flush k) \<ge> 0
                       then k \<lparr> ts_flush := current + interval k \<rparr> else k)
              in flush current k
         else Inr k)"

text \<open>The scan of \<open>check\<close> over the segments in flight; \<open>None\<close> is the early return.\<close>

fun check_segs :: "u32 \<Rightarrow> segment list \<Rightarrow> int \<Rightarrow> int option" where
  "check_segs current [] tm_packet = Some tm_packet"
| "check_segs current (seg # segs) tm_packet =
     (let diff = itimediff (s_resendts seg) current
      in if diff \<le> 0 then None
         else check_segs current segs (if diff < tm_packet then diff else tm_packet))"

definition check :: "u32 \<Rightarrow> KCP \<Rightarrow> u32" where
  "check current k =
     (if updated k = 0 then current
      else let ts = (if itimediff current (ts_flush k) \<ge> 10000 \<or> itimediff current (ts_flush k) < -10000
                     then current else ts_flush k)
           in if itimediff current ts \<ge> 0 then current
              else let tm_flush = itimediff ts current
                   in case check_segs current (snd_buf k) 0x7fffffff of
                        None \<Rightarrow> current
                      | Some tm_packet \<Rightarrow>
                          let minimal = to_uint32 (if tm_packet \<ge> tm_flush then tm_flush else tm_packet);
                              minimal = (if minimal \<ge> interval k then interval k else minimal)
                          in current + minimal)"

section \<open>When a flush is due\<close>

definition flush_due :: "u32 \<Rightarrow> KCP \<Rightarrow> bool" where
  "flush_due current k \<longleftrightarrow>
     updated k = 0 \<or> itimediff current (ts_flush k) \<ge> 0 \<or> itimediff current (ts_flush k) < -10000"

text \<open>The next flush time \<open>update\<close> sets when it flushes.\<close>

definition next_flush :: "u32 \<Rightarrow> KCP \<Rightarrow> u32" where
  "next_flush current k =
     (let base = (if updated k = 0 \<or> \<not> \<bar>itimediff current (ts_flush k)\<bar> \<le> 10000 \<or>
                     itimediff current (ts_flush k) = 10000
                  then current else ts_flush k)
      in if itimediff current (base + interval k) \<ge> 0 then current + interval k else base + interval k)"

lemma update_eq:
  "update current k =
     (if flush_due current k
      then flush current (k \<lparr> updated := (if updated k = 0 then 1 else updated k), ts_flush := next_flush current k \<rparr>)
      else Inr k)"
proof -
  have id: "k \<lparr> updated := updated k, ts_flush := t \<rparr> = k \<lparr> ts_flush := t \<rparr>" for t by simp
  show ?thesis
    by (simp add: update_def flush_due_def next_flush_def Let_def abs_le_iff id)
qed

lemma soff_add: "soff a (a + w) = unat w"
  by (simp add: soff_def)

lemma advance_near:
  assumes i: "1 \<le> unat i" "unat i \<le> 10000" and d: "soff base current \<le> 10000"
  shows "soff current (if itimediff current (base + i) \<ge> 0 then current + i else base + i) \<in> {1..unat i}"
proof -
  have t: "itimediff current (base + i) = int (soff base current) - int (unat i)"
    using itimediff_base [of base current "base + i"] d i by (simp add: soff_add)
  show ?thesis
  proof (cases "unat i \<le> soff base current")
    case True
    then show ?thesis using t i by (simp add: soff_add)
  next
    case False
    then have "soff current (base + i) = unat i - soff base current"
      using soff_shift [of base current "base + i"] by (simp add: soff_add)
    then show ?thesis using False t by auto
  qed
qed

lemma next_flush_near:
  assumes "1 \<le> unat (interval k)" "unat (interval k) \<le> 10000" "flush_due current k"
  shows "soff current (next_flush current k) \<in> {1..unat (interval k)}"
proof -
  define base where "base = (if updated k = 0 \<or> \<not> \<bar>itimediff current (ts_flush k)\<bar> \<le> 10000 \<or>
     itimediff current (ts_flush k) = 10000 then current else ts_flush k)"
  have "soff base current \<le> 10000"
  proof (cases "base = current")
    case False
    then have s: "base = ts_flush k" "\<bar>itimediff current (ts_flush k)\<bar> \<le> 10000" "updated k \<noteq> 0"
      by (auto simp: base_def split: if_splits)
    then have "0 \<le> itimediff current (ts_flush k)" using assms(3) by (auto simp: flush_due_def)
    then have "itimediff current (ts_flush k) = int (soff (ts_flush k) current)"
      using itimediff_nonneg itimediff_soff by blast
    with s show ?thesis by simp
  qed simp
  from advance_near [OF assms(1,2) this] show ?thesis
    by (simp only: next_flush_def base_def [symmetric] Let_def)
qed

lemma itimediff_neg: "itimediff a b \<noteq> - (2 ^ 31) \<Longrightarrow> itimediff b a = - itimediff a b"
proof -
  assume h: "itimediff a b \<noteq> - (2 ^ 31)"
  have "unat (b - a) = (if a = b then 0 else 2 ^ 32 - unat (a - b))"
    using unat_sub_u32 [of 0 "a - b"] by (simp add: unat_eq_0)
  with h unat_u32_less [of "a - b"] show ?thesis
    unfolding itimediff_def sint_u32 by (auto split: if_splits)
qed

section \<open>What \<open>check\<close> promises\<close>

lemma check_segs_Some:
  "check_segs current segs m = Some t \<Longrightarrow> 0 < m \<Longrightarrow>
   0 < t \<and> t \<le> m \<and> (\<forall>s \<in> set segs. t \<le> itimediff (s_resendts s) current)"
proof (induction segs arbitrary: m)
  case (Cons s segs)
  let ?d = "itimediff (s_resendts s) current"
  have "check_segs current segs (if ?d < m then ?d else m) = Some t" "0 < ?d"
    using Cons.prems by (auto simp: Let_def split: if_splits)
  moreover from this(2) Cons.prems(2) have "0 < (if ?d < m then ?d else m)" by simp
  ultimately have "0 < t \<and> t \<le> (if ?d < m then ?d else m) \<and> (\<forall>s \<in> set segs. t \<le> itimediff (s_resendts s) current)"
    by (intro Cons.IH)
  then show ?case by (auto split: if_splits)
qed simp

lemma check_segs_None: "check_segs current segs m = None \<longleftrightarrow> (\<exists>s \<in> set segs. itimediff (s_resendts s) current \<le> 0)"
  by (induction segs arbitrary: m) (auto simp: Let_def)

lemma check_due: "flush_due current k \<Longrightarrow> check current k = current"
  by (auto simp: check_def flush_due_def Let_def)

lemma not_due:
  assumes "\<not> flush_due current k"
  shows "0 < itimediff (ts_flush k) current" "itimediff (ts_flush k) current \<le> 10000"
    "soff current (ts_flush k) \<le> 10000" "itimediff (ts_flush k) current = int (soff current (ts_flush k))"
proof -
  have n: "itimediff (ts_flush k) current = - itimediff current (ts_flush k)"
    using assms by (intro itimediff_neg) (auto simp: flush_due_def)
  then show a: "0 < itimediff (ts_flush k) current" and b: "itimediff (ts_flush k) current \<le> 10000"
    using assms by (auto simp: flush_due_def)
  then show "itimediff (ts_flush k) current = int (soff current (ts_flush k))"
    using itimediff_nonneg [of "ts_flush k" current] itimediff_soff [of current "ts_flush k"] by simp
  with b show "soff current (ts_flush k) \<le> 10000" by simp
qed

lemma check_wait:
  assumes nd: "\<not> flush_due current k" and s: "check_segs current (snd_buf k) 0x7fffffff = Some t"
  shows "soff current (check current k) = min (min (nat t) (soff current (ts_flush k))) (unat (interval k))"
proof -
  note n = not_due [OF nd]
  have t: "0 < t" "t \<le> 0x7fffffff" using check_segs_Some [OF s] by simp_all
  have u: "unat (to_uint32 x) = nat x" if "0 < x" "x \<le> 0x7fffffff" for x :: int
  proof -
    have "uint (to_uint32 x) = x" using that by (simp add: to_uint32_def uint_word_of_int)
    then show ?thesis by (simp only: unat_eq_nat_uint)
  qed
  let ?m = "if t \<ge> itimediff (ts_flush k) current then itimediff (ts_flush k) current else t"
  have "check current k = current + (if to_uint32 ?m \<ge> interval k then interval k else to_uint32 ?m)"
    using nd s n(1) by (auto simp: check_def flush_due_def Let_def)
  then have "soff current (check current k) = min (unat (to_uint32 ?m)) (unat (interval k))"
    by (simp add: soff_add min_def word_le_nat_alt)
  also have "unat (to_uint32 ?m) = min (nat t) (soff current (ts_flush k))"
    using u [of ?m] t n by (auto simp: min_def)
  finally show ?thesis .
qed

text \<open>Nothing becomes due before the time \<open>check\<close> names.\<close>

lemma check_no_event_missed:
  assumes e: "e < soff current (check current k)"
  shows "\<not> flush_due (current + of_nat e) k"
    and "s \<in> set (snd_buf k) \<Longrightarrow> itimediff (current + of_nat e) (s_resendts s) < 0"
proof -
  have nd: "\<not> flush_due current k" using e check_due [of current k] by auto
  then obtain t where t: "check_segs current (snd_buf k) 0x7fffffff = Some t"
    using e by (cases "check_segs current (snd_buf k) 0x7fffffff") (auto simp: check_def Let_def flush_due_def)
  note n = not_due [OF nd] and w = check_wait [OF nd t] and ts = check_segs_Some [OF t]
  have et: "e < nat t" "e < soff current (ts_flush k)" using e w by simp_all
  then have e31: "soff current (current + of_nat e) = e" "e < 2 ^ 31" using n(3) by (simp_all add: soff_of_nat)
  have "itimediff (current + of_nat e) (ts_flush k) = int e - int (soff current (ts_flush k))"
    using itimediff_base [of current "current + of_nat e" "ts_flush k"] e31 n(3) by simp
  then show "\<not> flush_due (current + of_nat e) k" using nd et n(3) by (simp add: flush_due_def)
  show "itimediff (current + of_nat e) (s_resendts s) < 0" if "s \<in> set (snd_buf k)"
  proof -
    have "t \<le> itimediff (s_resendts s) current" "0 < t" using ts that by auto
    then have "soff current (s_resendts s) < 2 ^ 31" "int e < int (soff current (s_resendts s))"
      using itimediff_nonneg [of "s_resendts s" current] itimediff_soff [of current "s_resendts s"] et by auto
    then show ?thesis using itimediff_base [of current "current + of_nat e" "s_resendts s"] e31 by simp
  qed
qed

end
