(* ===== verification/Kcp_Machine.thy ===== *)
theory Kcp_Machine
  imports Kcp_Timer
begin

text \<open>
  The control object as a state machine: every operation the connection layer performs on it,
  in any order and with any arguments. The machine invariant \<open>kcp_inv\<close> collects the invariants
  of the components; from it follow the freedom from run-time panics and the bounds on memory.
\<close>

section \<open>What a datagram leaves alone\<close>

lemma input_loop_preserves:
  assumes step: "\<And>h d v k v' k'. P k \<Longrightarrow> input_seg h d v k = Inr (v', k') \<Longrightarrow> P k'"
  shows "input_loop data v k = Inr (ex, k') \<Longrightarrow> P k \<Longrightarrow> P k'"
proof (induction data v k rule: input_loop.induct)
  case (1 data v k)
  from 1(2,3) show ?case using "1.IH" step
    by (subst (asm) input_loop.simps) (auto split: if_splits sum.splits prod.splits)
qed

lemma parse_data_keep [simp]:
  "rx_rto (parse_data s k) = rx_rto k" "snd_buf (parse_data s k) = snd_buf k"
  by (simp_all add: parse_data_def move_ready_def Let_def split: prod.split)

lemma ack_push_keep [simp]:
  "rx_rto (ack_push sn ts k) = rx_rto k" "snd_buf (ack_push sn ts k) = snd_buf k"
  by (simp_all add: ack_push_def)

lemma snd_ops_rto [simp]:
  "rx_rto (shrink_buf k) = rx_rto k" "rx_rto (parse_ack sn k) = rx_rto k"
  "rx_rto (parse_una una k) = rx_rto k" "rx_rto (parse_fastack sn k) = rx_rto k"
  by (simp_all add: shrink_buf_def parse_ack_def parse_una_def parse_fastack_def split: list.split)

lemma input_seg_rto: "input_seg h d v k = Inr (v', k') \<Longrightarrow> rx_rto k' = rx_rto k"
  by (auto simp: input_seg_def input_connect_def input_ack_def input_push_def seg_repeat_def
      bind_res_eq_Inr Let_def split: if_splits)

definition idents :: "KCP \<Rightarrow> ident set" where
  "idents k = ident ` set (snd_buf k)"

lemma idents_sub:
  "idents (shrink_buf k) = idents k"
  "idents (parse_ack sn k) \<subseteq> idents k"
  "idents (parse_una una k) \<subseteq> idents k"
  by (auto simp: idents_def parse_ack_def parse_una_def dest: in_set_dropD
      list_emb_set [OF subseq_ack_remove])

lemma fastack_mark_ident: "map ident (fastack_mark sn segs) = map ident segs"
  by (induction sn segs rule: fastack_mark.induct) (auto simp: ident_def)

lemma idents_fastack: "idents (parse_fastack sn k) = idents k"
proof -
  have "ident ` set (fastack_mark sn segs) = ident ` set segs" for segs
    by (metis fastack_mark_ident list.set_map)
  then show ?thesis by (simp add: idents_def parse_fastack_def)
qed

lemma input_seg_idents: "input_seg h d v k = Inr (v', k') \<Longrightarrow> idents k' \<subseteq> idents k"
proof -
  assume a: "input_seg h d v k = Inr (v', k')"
  define q where "q = shrink_buf (parse_una (h_una h) (k \<lparr> rmt_wnd := ucast (h_wnd h) \<rparr>))"
  have q: "idents q \<subseteq> idents k"
    using idents_sub(1,3) by (fastforce simp: q_def idents_def)
  have "snd_buf k' = snd_buf q \<or> snd_buf k' = snd_buf (parse_ack (h_sn h) q)"
    using a unfolding input_seg_def q_def [symmetric] Let_def
    by (auto simp: input_connect_def input_ack_def input_push_def seg_repeat_def
      bind_res_eq_Inr Let_def split: if_splits)
  then have "idents k' \<subseteq> idents q" using idents_sub(2) [of "h_sn h" q] by (auto simp: idents_def)
  with q show ?thesis by blast
qed

lemma input_idents: "input current data upd k = Inr (r, k') \<Longrightarrow> idents k' \<subseteq> idents k"
proof (erule input_cases)
  assume "input_loop data ackvars0 k = Inr (Return r, k')"
  then show ?thesis
    using input_loop_preserves [where P = "\<lambda>q. idents q \<subseteq> idents k"] input_seg_idents by blast
next
  fix v q a b
  assume h: "input_loop data ackvars0 k = Inr (Break v, q)"
    "k' = input_rtt current upd v q \<or> k' = (input_rtt current upd v q) \<lparr> cwnd := a, incr := b \<rparr>"
  have "idents k' = idents (input_rtt current upd v q)" using h(2) by (auto simp: idents_def)
  also have "\<dots> = idents q" using idents_fastack by (simp add: input_rtt_def Let_def idents_def)
  finally show ?thesis
    using input_loop_preserves [where P = "\<lambda>q. idents q \<subseteq> idents k", OF _ h(1)] input_seg_idents by blast
qed simp

lemma input_rto:
  assumes "input current data upd k = Inr (r, k')" "rx_minrto k \<le> IKCP_RTO_MAX"
  shows "rx_rto k' = rx_rto k \<or> rx_rto k' \<in> {rx_minrto k..IKCP_RTO_MAX}"
  using assms(1)
proof (cases rule: input_cases)
  case rejected
  then show ?thesis
    using input_loop_preserves [where P = "\<lambda>q. rx_rto q = rx_rto k"] input_seg_rto by auto
next
  case (accepted v q a b)
  have q: "rx_rto q = rx_rto k"
    using input_loop_preserves [where P = "\<lambda>q. rx_rto q = rx_rto k", OF _ accepted(1)] input_seg_rto by auto
  have m: "rx_minrto (parse_fastack s q) = rx_minrto k" for s
    using input_frame_loop [OF accepted(1)] by (simp add: input_frame_def parse_fastack_def)
  have "rx_rto k' = rx_rto (input_rtt current upd v q)" using accepted(3) by auto
  then show ?thesis
    using q update_ack_bounds [of "parse_fastack (maxack v) q"] assms(2) m
    by (auto simp: input_rtt_def Let_def)
qed simp

section \<open>The machine\<close>

text \<open>
  The operations of the control object, with their arguments. The connection layer also counts
  in the counters of the control object (\<open>OpStats\<close>).
\<close>

datatype kcp_op =
    OpInput u32 bytes bool
  | OpFlush u32
  | OpUpdate u32
  | OpSend bytes
  | OpRecvSize
  | OpRecv bytes
  | OpConnect u32
  | OpClose u32
  | OpMtu int
  | OpNoDelay int int int int
  | OpWndSize int int
  | OpStream bool
  | OpStats KcpConnStats KcpGlobalStats

fun exec :: "kcp_op \<Rightarrow> KCP \<Rightarrow> KCP res" where
  "exec (OpInput current data upd) k = bind_res (input current data upd k) (\<lambda>(r, k). Inr k)"
| "exec (OpFlush current) k = flush current k"
| "exec (OpUpdate current) k = update current k"
| "exec (OpSend buf) k = bind_res (send buf k) (\<lambda>(r, k). Inr k)"
| "exec OpRecvSize k = Inr (snd (recvSize k))"
| "exec (OpRecv buf) k = bind_res (recv buf k) (\<lambda>(n, buf, k). Inr k)"
| "exec (OpConnect current) k = sendConnectFlush current k"
| "exec (OpClose current) k = sendCloseFlush current k"
| "exec (OpMtu m) k = Inr (snd (setMtu m k))"
| "exec (OpNoDelay a b c d) k = Inr (snd (setNoDelay a b c d k))"
| "exec (OpWndSize a b) k = Inr (snd (setWndSize a b k))"
| "exec (OpStream b) k = Inr (k \<lparr> stream := (if b then 1 else 0) \<rparr>)"
| "exec (OpStats st g) k = Inr (k \<lparr> stats := st, gstats := g \<rparr>)"

text \<open>
  What the callers see to. A datagram is read into a pooled buffer of \<open>udpPacketSizeLimit\<close>
  bytes; \<open>recv\<close> gets a slice of the size \<open>recvSize\<close> announced. The setters are guarded:
  shrinking the MTU below the size of a queued segment, or the receive window, after traffic
  has started is outside the contract.
\<close>

fun op_ok :: "kcp_op \<Rightarrow> KCP \<Rightarrow> bool" where
  "op_ok (OpInput current data upd) k \<longleftrightarrow> length data \<le> udpPacketSizeLimit"
| "op_ok (OpRecv buf) k \<longleftrightarrow> frag_len (rcv_queue k) \<le> length buf"
| "op_ok (OpMtu m) k \<longleftrightarrow> m < 50 \<or> mtu k \<le> m \<and> m \<le> int (IKCP_OVERHEAD + udpPacketSizeLimit)"
| "op_ok (OpWndSize a b) k \<longleftrightarrow> b \<le> 0 \<or> int (unat (rcv_wnd k)) \<le> b \<and> b < 2 ^ 31"
| "op_ok _ k \<longleftrightarrow> True"

text \<open>Queued segments have not been sent and carry one of the two sequenced commands.\<close>

definition queued_ok :: "segment \<Rightarrow> bool" where
  "queued_ok s \<longleftrightarrow> s_xmit s = 0 \<and> s_cmd s \<in> {IKCP_CMD_PUSH, IKCP_CMD_CONNECT} \<and> unat (s_frg s) < 256"

definition cfg_inv :: "KCP \<Rightarrow> bool" where
  "cfg_inv k \<longleftrightarrow>
     mss k = mtu k - int IKCP_OVERHEAD \<and> mtu k \<le> int (IKCP_OVERHEAD + udpPacketSizeLimit) \<and>
     10 \<le> unat (interval k) \<and> unat (interval k) \<le> 5000 \<and>
     rx_minrto k \<in> {IKCP_RTO_NDL, IKCP_RTO_MIN} \<and> rx_rto k \<in> {IKCP_RTO_NDL..IKCP_RTO_MAX}"

definition kcp_inv :: "KCP \<Rightarrow> bool" where
  "kcp_inv k \<longleftrightarrow> rcv_inv k \<and> snd_inv k \<and> flush_pre k \<and> cfg_inv k \<and> (\<forall>s \<in> set (snd_queue k). queued_ok s)"

lemma newKCP_inv: "kcp_inv newKCP"
  by (simp add: kcp_inv_def rcv_inv_def snd_inv_def una_of_def flush_pre_def cfg_inv_def newKCP_def
      const_defs udpPacketSizeLimit_def WND_MAX_def)

lemma kcp_inv_mss:
  assumes "kcp_inv k"
  shows "26 \<le> mss k" "mss k \<le> int udpPacketSizeLimit" "to_uint32 (mss k) \<noteq> 0"
proof -
  show m: "26 \<le> mss k" "mss k \<le> int udpPacketSizeLimit"
    using assms by (simp_all add: kcp_inv_def cfg_inv_def flush_pre_def IKCP_OVERHEAD_def)
  then have "uint (to_uint32 (mss k)) = mss k"
    by (simp add: to_uint32_def uint_word_of_int udpPacketSizeLimit_def)
  with m show "to_uint32 (mss k) \<noteq> 0" by auto
qed

lemma input_kcp_inv:
  assumes inv: "kcp_inv k" and i: "input current data upd k = Inr (r, k')"
  shows "kcp_inv k'"
proof -
  note fr = input_frame_input [OF i]
  have idn: "\<exists>s' \<in> set (snd_buf k). length (s_data s) = length (s_data s')" if "s \<in> set (snd_buf k')" for s
    using input_idents [OF i] that by (fastforce simp: idents_def ident_def)
  have "flush_pre k'"
    using inv idn fr by (fastforce simp: kcp_inv_def flush_pre_def input_frame_def)
  moreover have "cfg_inv k'"
  proof -
    have m: "rx_minrto k \<in> {IKCP_RTO_NDL, IKCP_RTO_MIN}" "rx_rto k \<in> {IKCP_RTO_NDL..IKCP_RTO_MAX}"
      using inv by (simp_all add: kcp_inv_def cfg_inv_def)
    then have "IKCP_RTO_NDL \<le> rx_minrto k" "rx_minrto k \<le> IKCP_RTO_MAX" by (auto simp: const_defs)
    then have "rx_rto k' \<in> {IKCP_RTO_NDL..IKCP_RTO_MAX}"
      using input_rto [OF i] m(2) by (auto intro: order_trans)
    then show ?thesis using inv fr by (simp add: kcp_inv_def cfg_inv_def input_frame_def)
  qed
  ultimately show ?thesis
    using inv input_inv [OF i] fr by (simp add: kcp_inv_def input_frame_def)
qed

lemma flush_kcp_inv:
  assumes inv: "kcp_inv k"
  shows "\<exists>k'. flush current k = Inr k' \<and> kcp_inv k'"
proof -
  have pre: "flush_pre k" and si: "snd_inv k" using inv by (simp_all add: kcp_inv_def)
  obtain k' where k': "flush current k = Inr k'" "snd_queue k' = drop (flush_count k) (snd_queue k)"
    "flush_frame k' = flush_frame k"
    using flush_ok [OF pre si, of current] by blast
  have "cfg_inv k' = cfg_inv k" using k'(3) by (simp add: flush_frame_def cfg_inv_def)
  then have "kcp_inv k'"
    using inv flush_snd_inv [OF pre si k'(1)] flush_pre_keep [OF pre si k'(1)] flush_rcv_inv [OF k'(3)] k'(2)
    by (auto simp: kcp_inv_def dest: in_set_dropD)
  with k'(1) show ?thesis by blast
qed

lemma update_kcp_inv: "kcp_inv k \<Longrightarrow> \<exists>k'. update current k = Inr k' \<and> kcp_inv k'"
proof -
  assume inv: "kcp_inv k"
  then have "kcp_inv (k \<lparr> updated := u, ts_flush := t \<rparr>)" for u t
    by (simp add: kcp_inv_def flush_pre_def cfg_inv_def)
  then show ?thesis using flush_kcp_inv inv by (simp add: update_eq)
qed

lemma kcp_inv_queue:
  assumes "kcp_inv k"
    and "\<And>s. s \<in> set q \<Longrightarrow> queued_ok s \<and> int (IKCP_OVERHEAD + length (s_data s)) \<le> mtu k"
  shows "kcp_inv (k \<lparr> snd_queue := q \<rparr>)"
  using assms by (auto simp: kcp_inv_def flush_pre_def cfg_inv_def)

lemma mk_frags_ok:
  "(\<And>c. c \<in> set cs \<Longrightarrow> length c \<le> m) \<Longrightarrow> (msg \<Longrightarrow> length cs \<le> 256) \<Longrightarrow> s \<in> set (mk_frags msg cs) \<Longrightarrow>
   queued_ok s \<and> length (s_data s) \<le> m"
proof (induction cs)
  case (Cons c cs)
  have "unat (of_nat (length cs) :: u32) < 256" if "msg"
    using Cons.prems(2) [OF that] by (simp add: unat_of_nat)
  moreover have "queued_ok s \<and> length (s_data s) \<le> m" if "s \<in> set (mk_frags msg cs)"
    using Cons.prems that by (intro Cons.IH) auto
  ultimately show ?case using Cons.prems by (auto simp: queued_ok_def segment0_def)
qed simp

lemma fill_last_ok:
  assumes "s \<in> set (fill_last buf k)"
  shows "\<exists>s' \<in> set (snd_queue k). queued_ok s = queued_ok s' \<and>
    (s = s' \<or> int (length (s_data s)) \<le> mss k)"
proof (cases "room_in_last k = 0")
  case False
  then have ne: "snd_queue k \<noteq> []" by (auto simp: room_in_last_def)
  have room: "int (length (s_data (last (snd_queue k))) + room_in_last k) = mss k"
    using False by (auto simp: room_in_last_def split: if_splits)
  show ?thesis
  proof (cases "s \<in> set (butlast (snd_queue k))")
    case True
    then show ?thesis by (auto dest: in_set_butlastD)
  next
    case F: False
    then have "s = (last (snd_queue k)) \<lparr> s_data := s_data (last (snd_queue k)) @ take (room_in_last k) buf \<rparr>"
      using assms False by (auto simp: fill_last_def)
    then show ?thesis using room ne by (intro bexI [of _ "last (snd_queue k)"]) (auto simp: queued_ok_def)
  qed
qed (use assms in \<open>auto simp: fill_last_def\<close>)

lemma chunks_le: "c \<in> set (chunks m xs) \<Longrightarrow> length c \<le> m"
  using chunks_size by blast

lemma send_kcp_inv:
  assumes inv: "kcp_inv k"
  shows "\<exists>r k'. send buf k = Inr (r, k') \<and> kcp_inv k'"
proof (cases "buf = []")
  case False
  note m = kcp_inv_mss [OF inv]
  let ?m = "nat (mss k)"
  have mtu: "mtu k = mss k + int IKCP_OVERHEAD" using inv by (simp add: kcp_inv_def cfg_inv_def)
  have old: "queued_ok s \<and> int (IKCP_OVERHEAD + length (s_data s)) \<le> mtu k" if "s \<in> set (snd_queue k)" for s
    using inv that by (auto simp: kcp_inv_def flush_pre_def)
  have new: "queued_ok s \<and> int (IKCP_OVERHEAD + length (s_data s)) \<le> mtu k"
    if "s \<in> set (mk_frags msg (chunks ?m xs))" "msg \<longrightarrow> length (chunks ?m xs) \<le> 255" for s msg xs
    using mk_frags_ok [of "chunks ?m xs" ?m msg s] chunks_le that m(1) mtu by auto
  have fill: "queued_ok s \<and> int (IKCP_OVERHEAD + length (s_data s)) \<le> mtu k" if "s \<in> set (fill_last buf k)" for s
    using fill_last_ok [OF that] old mtu by auto
  show ?thesis
  proof (cases "stream k = 0")
    case True
    have "kcp_inv (k \<lparr> snd_queue := snd_queue k @ mk_frags True (chunks ?m buf) \<rparr>)"
      if "length (chunks ?m buf) \<le> 255"
      by (rule kcp_inv_queue [OF inv]) (use that old new in auto)
    then show ?thesis using send_msg_eq [of k buf] m True False inv by auto
  next
    case st: False
    have "kcp_inv (k \<lparr> snd_queue := fill_last buf k @ mk_frags False (chunks ?m (drop (room_in_last k) buf)) \<rparr>)"
      by (rule kcp_inv_queue [OF inv]) (use fill new in auto)
    then show ?thesis using send_stream_eq [of k buf] m st False by auto
  qed
qed (use inv in \<open>simp add: send_def\<close>)

lemma kcp_inv_state [simp]: "kcp_inv (k \<lparr> state := x \<rparr>) = kcp_inv k"
  by (simp add: kcp_inv_def flush_pre_def cfg_inv_def)

lemma recvSize_kcp_inv: "kcp_inv k \<Longrightarrow> kcp_inv (snd (recvSize k))"
  by (simp add: recvSize_def split: list.split)

lemma recv_kcp_inv:
  assumes inv: "kcp_inv k" and len: "frag_len (rcv_queue k) \<le> length buf"
  shows "\<exists>n buf' k'. recv buf k = Inr (n, buf', k') \<and> kcp_inv k'"
proof -
  let ?q = "move_ready (k \<lparr> rcv_queue := drop (length (first_msg (rcv_queue k))) (rcv_queue k) \<rparr>)"
  have "rcv_inv (k \<lparr> rcv_queue := drop n (rcv_queue k) \<rparr>)" for n
    using inv by (auto simp: kcp_inv_def rcv_inv_def)
  then have "rcv_inv ?q" by (rule move_ready_inv)
  moreover have "snd_inv ?q" "flush_pre ?q" "cfg_inv ?q" "\<forall>s \<in> set (snd_queue ?q). queued_ok s"
    using inv by (simp_all add: kcp_inv_def flush_pre_def cfg_inv_def move_ready_def Let_def)
  ultimately have q: "kcp_inv ?q" by (simp add: kcp_inv_def)
  then have "kcp_inv (?q \<lparr> probe := p \<rparr>)" for p by (simp add: kcp_inv_def flush_pre_def cfg_inv_def)
  with q show ?thesis using recv_merge_ok [OF len] by (simp add: recv_def Let_def)
qed

lemma newSegment_0: "newSegment 0 = Inr segment0"
  by (simp add: newSegment_def segment0_def)

lemma enqueue_empty:
  assumes "kcp_inv k" "c \<in> {IKCP_CMD_PUSH, IKCP_CMD_CONNECT}"
  shows "kcp_inv (k \<lparr> snd_queue := snd_queue k @ [segment0 \<lparr> s_cmd := c \<rparr>] \<rparr>)"
  using assms
  by (intro kcp_inv_queue) (auto simp: kcp_inv_def flush_pre_def queued_ok_def segment0_def IKCP_OVERHEAD_def)

lemma sendConnectFlush_inv: "kcp_inv k \<Longrightarrow> \<exists>k'. sendConnectFlush current k = Inr k' \<and> kcp_inv k'"
  using flush_kcp_inv [OF enqueue_empty [of k IKCP_CMD_CONNECT]]
  by (simp add: sendConnectFlush_def newSegment_0)

lemma sendCloseFlush_inv: "kcp_inv k \<Longrightarrow> \<exists>k'. sendCloseFlush current k = Inr k' \<and> kcp_inv k'"
  using flush_kcp_inv [OF enqueue_empty [of "k \<lparr> state := (state k OR IKCP_STATE_LOCAL_CLOSED) AND NOT IKCP_STATE_CONNECTED \<rparr>" IKCP_CMD_PUSH]]
  by (simp add: sendCloseFlush_def newSegment_0 Let_def)

lemma setMtu_inv: "kcp_inv k \<Longrightarrow> op_ok (OpMtu m) k \<Longrightarrow> kcp_inv (snd (setMtu m k))"
proof -
  assume inv: "kcp_inv k" and ok: "op_ok (OpMtu m) k"
  have "flush_pre (k \<lparr> mtu := m, mss := m - int IKCP_OVERHEAD, buffer := nat ((m + int IKCP_OVERHEAD) * 3) \<rparr>)"
    if "50 \<le> m" "mtu k \<le> m"
  proof -
    have "int (IKCP_OVERHEAD + length (s_data s)) \<le> m" if "s \<in> set (snd_buf k) \<union> set (snd_queue k)" for s
      using inv that \<open>mtu k \<le> m\<close> unfolding kcp_inv_def flush_pre_def by (meson order_trans)
    with \<open>50 \<le> m\<close> show ?thesis by (simp add: flush_pre_def IKCP_OVERHEAD_def)
  qed
  then show ?thesis using inv ok by (auto simp: setMtu_def kcp_inv_def cfg_inv_def)
qed

lemma unat_to_uint32: "0 \<le> x \<Longrightarrow> x < 2 ^ 32 \<Longrightarrow> unat (to_uint32 x) = nat x"
  by (simp add: to_uint32_def unat_eq_nat_uint uint_word_of_int)

lemma kcp_inv_cfg:
  assumes "kcp_inv k" "m \<in> {IKCP_RTO_NDL, IKCP_RTO_MIN}" "10 \<le> unat i" "unat i \<le> 5000"
  shows "kcp_inv (k \<lparr> nodelay := n, rx_minrto := m \<rparr>)" "kcp_inv (k \<lparr> interval := i \<rparr>)"
    "kcp_inv (k \<lparr> fastresend := f \<rparr>)" "kcp_inv (k \<lparr> nocwnd := nc \<rparr>)"
  using assms by (simp_all add: kcp_inv_def flush_pre_def cfg_inv_def)

lemma setNoDelay_inv:
  assumes "kcp_inv k"
  shows "kcp_inv (snd (setNoDelay a b c d k))"
proof -
  let ?b = "if b > 5000 then 5000 else if b < 10 then 10 else b"
  have u: "unat (to_uint32 ?b) = nat ?b" by (rule unat_to_uint32) auto
  have b: "10 \<le> unat (to_uint32 ?b)" "unat (to_uint32 ?b) \<le> 5000" unfolding u by auto
  have m: "(if a \<noteq> 0 then IKCP_RTO_NDL else IKCP_RTO_MIN) \<in> {IKCP_RTO_NDL, IKCP_RTO_MIN}" by simp
  note c = kcp_inv_cfg [OF _ m b]
  have "kcp_inv (if P then f q else q)" if "kcp_inv q" "\<And>q. kcp_inv q \<Longrightarrow> kcp_inv (f q)" for P q and f :: "KCP \<Rightarrow> KCP"
    using that by simp
  from this [OF this [OF this [OF this [OF assms c(1)] c(2)] c(3)] c(4)]
  show ?thesis unfolding setNoDelay_def Let_def snd_conv .
qed

lemma setWndSize_inv: "kcp_inv k \<Longrightarrow> op_ok (OpWndSize a b) k \<Longrightarrow> kcp_inv (snd (setWndSize a b k))"
proof -
  assume inv: "kcp_inv k" and ok: "op_ok (OpWndSize a b) k"
  have s: "kcp_inv (q \<lparr> snd_wnd := w \<rparr>) = kcp_inv q" for q w
    by (simp add: kcp_inv_def flush_pre_def cfg_inv_def)
  have "kcp_inv (k \<lparr> rcv_wnd := to_uint32 b \<rparr>)" "kcp_inv (k \<lparr> snd_wnd := w, rcv_wnd := to_uint32 b \<rparr>)"
    if "b > 0" for w
  proof -
    have u: "unat (to_uint32 b) = nat b" using ok that by (intro unat_to_uint32) auto
    have "unat (rcv_wnd k) \<le> unat (to_uint32 b)" "unat (to_uint32 b) < 2 ^ 31"
      unfolding u using ok that by auto
    then have "rcv_inv (k \<lparr> rcv_wnd := to_uint32 b \<rparr>)"
      using inv by (fastforce simp: kcp_inv_def rcv_inv_def)
    moreover have "rcv_inv (k \<lparr> snd_wnd := w, rcv_wnd := to_uint32 b \<rparr>) = rcv_inv (k \<lparr> rcv_wnd := to_uint32 b \<rparr>)"
      by (simp add: rcv_inv_def)
    ultimately show "kcp_inv (k \<lparr> rcv_wnd := to_uint32 b \<rparr>)"
      "kcp_inv (k \<lparr> snd_wnd := w, rcv_wnd := to_uint32 b \<rparr>)"
      using inv by (simp_all add: kcp_inv_def flush_pre_def cfg_inv_def)
  qed
  then show ?thesis using inv s
    by (auto simp: setWndSize_def Let_def)
qed

text \<open>Every operation returns, without a panic, and keeps the invariant.\<close>

lemma input_kcp_total:
  assumes "kcp_inv k" "length data \<le> udpPacketSizeLimit"
  shows "\<exists>r k'. input current data upd k = Inr (r, k') \<and> kcp_inv k'"
proof -
  have "no_panic (input current data upd k)"
    using assms kcp_inv_mss(3) by (intro input_no_panic) auto
  then show ?thesis using input_kcp_inv [OF assms(1)] by (fastforce simp: no_panic_iff)
qed

lemma exec_total:
  assumes "kcp_inv k" "op_ok op k"
  shows "\<exists>k'. exec op k = Inr k' \<and> kcp_inv k'"
proof (cases op)
  case (OpInput current data upd)
  then show ?thesis using input_kcp_total [of k data current upd] assms by auto
next
  case (OpSend buf)
  then show ?thesis using send_kcp_inv [OF assms(1), of buf] by auto
next
  case (OpRecv buf)
  then show ?thesis using recv_kcp_inv [of k buf] assms by auto
next
  case (OpMtu m)
  then show ?thesis using setMtu_inv assms by simp
next
  case (OpWndSize a b)
  then show ?thesis using setWndSize_inv assms by simp
next
  case (OpStream b)
  then show ?thesis using assms by (simp add: kcp_inv_def flush_pre_def cfg_inv_def)
next
  case (OpStats st g)
  then show ?thesis using assms by (simp add: kcp_inv_def flush_pre_def cfg_inv_def)
qed (use assms flush_kcp_inv update_kcp_inv recvSize_kcp_inv sendConnectFlush_inv sendCloseFlush_inv
    setNoDelay_inv in auto)

section \<open>Reachable states\<close>

inductive kcp_step :: "KCP \<Rightarrow> KCP \<Rightarrow> bool" where
  "op_ok op k \<Longrightarrow> exec op k = Inr k' \<Longrightarrow> kcp_step k k'"

definition kcp_init :: "KCP \<Rightarrow> bool" where
  "kcp_init k \<longleftrightarrow> (\<exists>c. k = newKCP \<lparr> conv := c \<rparr>)"

interpretation kcp: invariant_system kcp_init kcp_step kcp_inv
proof
  show "kcp_inv k" if "kcp_init k" for k
    using that newKCP_inv by (auto simp: kcp_init_def kcp_inv_def flush_pre_def cfg_inv_def)
  show "kcp_inv k'" if "kcp_inv k" "kcp_step k k'" for k k'
    using that(2,1) exec_total by cases fastforce
qed

text \<open>Bounds on the queues of a control object, whatever its peer sends.\<close>

lemma kcp_inv_memory:
  assumes "kcp_inv k"
  shows "length (rcv_buf k) \<le> unat (rcv_wnd k) + 1" "length (rcv_queue k) \<le> 2 * unat (rcv_wnd k)"
    "length (snd_buf k) \<le> WND_MAX"
proof -
  show "length (rcv_buf k) \<le> unat (rcv_wnd k) + 1" "length (rcv_queue k) \<le> 2 * unat (rcv_wnd k)"
    using assms rcv_buf_length [of k] by (simp_all add: kcp_inv_def rcv_inv_def)
  have fl: "in_flight (snd_una k) (snd_nxt k) (map s_sn (snd_buf k))"
    using assms snd_inv_flight by (simp add: kcp_inv_def)
  let ?d = "map (soff (snd_una k)) (map s_sn (snd_buf k))"
  show "length (snd_buf k) \<le> WND_MAX"
  proof (cases "soff (snd_una k) (snd_nxt k)")
    case 0
    then show ?thesis using fl by (cases "snd_buf k") (auto simp: in_flight_def)
  next
    case (Suc n)
    then have "length ?d \<le> Suc n" using fl by (intro sorted_wrt_less_length) (auto simp: in_flight_def)
    then show ?thesis using Suc fl by (simp add: in_flight_def)
  qed
qed

end
