(* ===== verification/Kcp_Delivery.thy ===== *)
theory Kcp_Delivery
  imports Kcp_Machine
begin

text \<open>
  End-to-end safety of the protocol. One control object sends, another receives; between them
  is a network that may lose, duplicate, delay and reorder the packets the sender has handed
  out. The sender, for its part, may be fed any bytes at all as datagrams, so nothing is assumed
  about acknowledgements. The bytes the receiver's user has got are a prefix of the bytes the
  sender's user has written, as long as fewer than \<open>2 ^ 32\<close> sequence numbers have been used.

  The proof keeps the history of the segments admitted into the send window; segment \<open>i\<close> of the
  history has sequence number \<open>i\<close>.
\<close>

section \<open>The history of admitted segments\<close>

definition idata :: "ident \<Rightarrow> bytes" where
  "idata i = snd (snd (snd (snd i)))"

definition icmd :: "ident \<Rightarrow> u32" where
  "icmd i = fst (snd i)"

lemma ident_sel [simp]: "idata (ident s) = s_data s" "icmd (ident s) = s_cmd s"
  by (simp_all add: idata_def icmd_def ident_def)

definition hbytes :: "ident list \<Rightarrow> bytes" where
  "hbytes hist = concat (map idata hist)"

definition qbytes :: "segment list \<Rightarrow> bytes" where
  "qbytes q = concat (map s_data q)"

lemma hbytes_append [simp]: "hbytes (a @ b) = hbytes a @ hbytes b" "hbytes [] = []"
  by (simp_all add: hbytes_def)

lemma qbytes_append [simp]: "qbytes (a @ b) = qbytes a @ qbytes b" "qbytes [] = []" "qbytes (s # q) = s_data s @ qbytes q"
  by (simp_all add: qbytes_def)

definition hist_ok :: "u32 \<Rightarrow> ident list \<Rightarrow> bool" where
  "hist_ok cv hist \<longleftrightarrow> length hist < 2 ^ 32 \<and>
     (\<forall>i < length hist. fst (hist ! i) = cv \<and> ident_sn (hist ! i) = of_nat i \<and>
        length (idata (hist ! i)) < 2 ^ 32 \<and>
        (icmd (hist ! i) = IKCP_CMD_PUSH \<or> icmd (hist ! i) = IKCP_CMD_CONNECT \<and> i = 0 \<and> idata (hist ! i) = []))"

lemma of_nat_u32_inj: "of_nat i = (of_nat j :: u32) \<Longrightarrow> i < 2 ^ 32 \<Longrightarrow> j < 2 ^ 32 \<Longrightarrow> i = j"
proof -
  assume "of_nat i = (of_nat j :: u32)" "i < 2 ^ 32" "j < 2 ^ 32"
  then have "unat (of_nat i :: u32) = unat (of_nat j :: u32)" "i < 2 ^ 32" "j < 2 ^ 32" by simp_all
  then show "i = j" by (simp add: unat_of_nat)
qed

section \<open>The receiver\<close>

text \<open>
  The receiver has taken the first \<open>n\<close> segments of the history off the network; what it holds
  in the reorder buffer are segments of the history. Segment 0 is never stuck there: when it is the
  \<open>CONNECT\<close> it is not filed at all, and when it is data it leaves the buffer as \<open>rcv_nxt\<close> passes it.
\<close>

definition rcv_hist :: "ident list \<Rightarrow> KCP \<Rightarrow> bytes \<Rightarrow> bool" where
  "rcv_hist hist k g \<longleftrightarrow>
     (\<exists>n \<le> length hist. rcv_nxt k = of_nat n \<and> g @ qbytes (rcv_queue k) = hbytes (take n hist)) \<and>
     (\<forall>s \<in> set (rcv_buf k). \<exists>i < length hist. s_sn s = of_nat i \<and> s_data s = idata (hist ! i)) \<and>
     (\<forall>s \<in> set (rcv_buf k). s_sn s = 0 \<longrightarrow> rcv_nxt k \<noteq> 1 \<and> icmd (hist ! 0) \<noteq> IKCP_CMD_CONNECT)"

definition rcv_view where
  "rcv_view k = (rcv_nxt k, rcv_buf k, rcv_queue k)"

lemma rcv_hist_view: "rcv_view k' = rcv_view k \<Longrightarrow> rcv_hist hist k' g = rcv_hist hist k g"
  by (simp add: rcv_view_def rcv_hist_def)

lemma rcv_hist_extend: "rcv_hist hist k g \<Longrightarrow> rcv_hist (hist @ new) k g"
proof -
  assume r: "rcv_hist hist k g"
  then obtain n where n: "n \<le> length hist" "rcv_nxt k = of_nat n" "g @ qbytes (rcv_queue k) = hbytes (take n hist)"
    by (auto simp: rcv_hist_def)
  then have "\<exists>n \<le> length (hist @ new). rcv_nxt k = of_nat n \<and> g @ qbytes (rcv_queue k) = hbytes (take n (hist @ new))"
    by (intro exI [of _ n]) simp
  moreover have "\<exists>i < length (hist @ new). s_sn s = of_nat i \<and> s_data s = idata ((hist @ new) ! i)"
    if s: "s \<in> set (rcv_buf k)" for s
  proof -
    obtain i where "i < length hist" "s_sn s = of_nat i" "s_data s = idata (hist ! i)"
      using r s by (auto simp: rcv_hist_def)
    then show ?thesis by (intro exI [of _ i]) (simp add: nth_append)
  qed
  moreover have "(hist @ new) ! 0 = hist ! 0" if "s \<in> set (rcv_buf k)" for s
    using r that by (auto simp: rcv_hist_def nth_append)
  ultimately show ?thesis using r unfolding rcv_hist_def by metis
qed

lemma ready_bytes:
  assumes "length hist < 2 ^ 32" "n \<le> length hist"
    and "\<And>s. s \<in> set buf \<Longrightarrow> \<exists>i < length hist. s_sn s = of_nat i \<and> s_data s = idata (hist ! i)"
  shows "n + ready_count buf (of_nat n) room \<le> length hist \<and>
    qbytes (take (ready_count buf (of_nat n) room) buf) = hbytes (take (ready_count buf (of_nat n) room) (drop n hist))"
  using assms(2,3)
proof (induction buf arbitrary: n)
  case (Cons s ss)
  show ?case
  proof (cases "s_sn s = of_nat n \<and> room")
    case True
    obtain i where i: "i < length hist" "s_sn s = of_nat i" "s_data s = idata (hist ! i)"
      using Cons.prems(2) by auto
    then have "i = n" using True of_nat_u32_inj [of i n] assms(1) Cons.prems(1) by simp
    then have n: "n < length hist" "s_data s = idata (hist ! n)" using i by simp_all
    have "Suc n \<le> length hist" using n by simp
    note IH = Cons.IH [OF this Cons.prems(2)]
    have "(of_nat n + 1 :: u32) = of_nat (Suc n)" by (simp add: add.commute)
    then have "ready_count (s # ss) (of_nat n) room = Suc (ready_count ss (of_nat (Suc n)) room)"
      using True by (simp only: ready_count.simps if_True simp_thms)
    then show ?thesis
      using IH n by (simp add: Cons_nth_drop_Suc [symmetric] hbytes_def)
  next
    case False
    then have "ready_count (s # ss) (of_nat n) room = 0" by auto
    with Cons.prems(1) show ?thesis by simp
  qed
qed simp

lemma rcv_hist_move_ready:
  assumes "length hist < 2 ^ 32" "rcv_hist hist k g" and inv: "rcv_inv k"
  shows "rcv_hist hist (move_ready k) g"
proof -
  obtain n where n: "n \<le> length hist" "rcv_nxt k = of_nat n" "g @ qbytes (rcv_queue k) = hbytes (take n hist)"
    and buf: "\<And>s. s \<in> set (rcv_buf k) \<Longrightarrow> \<exists>i < length hist. s_sn s = of_nat i \<and> s_data s = idata (hist ! i)"
    using assms(2) by (auto simp: rcv_hist_def)
  define c where "c = ready_count (rcv_buf k) (rcv_nxt k) (length (rcv_queue k) < unat (rcv_wnd k))"
  have c: "n + c \<le> length hist" "qbytes (take c (rcv_buf k)) = hbytes (take c (drop n hist))"
    using ready_bytes [OF assms(1) n(1) buf] n(2) by (simp_all add: c_def)
  have "g @ qbytes (rcv_queue k @ take c (rcv_buf k)) = hbytes (take (n + c) hist)"
    using n(3) c(2) by (simp add: take_add)
  moreover have m: "rcv_nxt (move_ready k) = of_nat (n + c)"
    "rcv_queue (move_ready k) = rcv_queue k @ take c (rcv_buf k)"
    "rcv_buf (move_ready k) = drop c (rcv_buf k)"
    using n(2) by (simp_all add: move_ready_def Let_def c_def)
  moreover have "rcv_nxt (move_ready k) \<noteq> 1" if s: "s \<in> set (drop c (rcv_buf k))" "s_sn s = 0" for s
  proof (cases "c = 0")
    case True
    then show ?thesis using assms(2) s m(1) n(2) by (auto simp: rcv_hist_def)
  next
    case False
    obtain j where j: "s = rcv_buf k ! j" "c \<le> j" "j < length (rcv_buf k)"
      using s(1) by (auto simp: in_set_conv_nth intro: that [of "c + _"])
    have "soff (rcv_nxt k + of_nat c - 1) (s_sn s) > 0"
      using roff_after_ready [OF inv c_def _ j(2,3)] False j(1) by simp
    then have "soff (rcv_nxt (move_ready k) - 1) 0 > 0" using s(2) m(1) n(2) by simp
    then show ?thesis by auto
  qed
  ultimately show ?thesis
    using c(1) buf assms(2) unfolding rcv_hist_def m by (blast dest: in_set_dropD)
qed

lemma find_slot_le: "find_slot buf sn i = (False, j) \<Longrightarrow> j \<le> i"
  by (induction i) (auto split: if_splits)

lemma rcv_hist_filed:
  assumes h: "length hist < 2 ^ 32" and r: "rcv_hist hist k g" and inv: "rcv_inv k"
    and s: "i < length hist" "s_sn s = of_nat i" "s_data s = idata (hist ! i)" "icmd (hist ! i) \<noteq> IKCP_CMD_CONNECT"
    and win: "soff (rcv_nxt k) (s_sn s) < unat (rcv_wnd k)"
  shows "rcv_hist hist (rcv_filed s k) g"
proof -
  have w: "unat (rcv_wnd k) < 2 ^ 31" using inv by (simp add: rcv_inv_def)
  have "rcv_nxt k \<noteq> 1" if "s_sn s = 0"
  proof
    assume "rcv_nxt k = 1"
    then have "soff (rcv_nxt k) (s_sn s) = 2 ^ 32 - 1"
      using that by (simp add: soff_def unsigned_minus_1_eq_mask mask_eq_exp_minus_1)
    then show False using win w by simp
  qed
  moreover have "icmd (hist ! 0) \<noteq> IKCP_CMD_CONNECT" if "s_sn s = 0"
    using s that of_nat_u32_inj [of i 0] h by auto
  ultimately show ?thesis
    using r s rcv_filed_fields [OF inv win] by (auto simp: rcv_hist_def split: if_splits)
qed

lemma rcv_hist_parse_data:
  assumes h: "length hist < 2 ^ 32" and r: "rcv_hist hist k g" and inv: "rcv_inv k"
    and s: "i < length hist" "s_sn s = of_nat i" "s_data s = idata (hist ! i)" "icmd (hist ! i) \<noteq> IKCP_CMD_CONNECT"
  shows "rcv_hist hist (parse_data s k) g"
proof (cases "soff (rcv_nxt k) (s_sn s) < unat (rcv_wnd k)")
  case win: True
  have "unat (rcv_wnd k) < 2 ^ 31" using inv by (simp add: rcv_inv_def)
  then show ?thesis
    using rcv_hist_move_ready [OF h rcv_hist_filed [OF assms win] rcv_filed_inv [OF inv win]] win parse_data_eq [of k s] by simp
qed (use r inv parse_data_eq [of k s] in \<open>simp add: rcv_inv_def\<close>)

text \<open>A datagram made of the sender's frames.\<close>

definition genuine :: "u32 \<Rightarrow> ident list \<Rightarrow> segment \<Rightarrow> bool" where
  "genuine cv hist s \<longleftrightarrow> ctl cv s \<or> ident s \<in> set hist"

lemma genuine_extend: "genuine cv hist s \<Longrightarrow> genuine cv (hist @ new) s"
  by (auto simp: genuine_def)

lemma genuine_ident:
  assumes "hist_ok cv hist" "ident s \<in> set hist"
  shows "\<exists>i < length hist. s_sn s = of_nat i \<and> s_data s = idata (hist ! i) \<and> length (s_data s) < 2 ^ 32 \<and> icmd (hist ! i) = s_cmd s \<and>
    (s_cmd s = IKCP_CMD_PUSH \<or> s_cmd s = IKCP_CMD_CONNECT \<and> i = 0 \<and> idata (hist ! i) = [])"
proof -
  obtain i where i: "i < length hist" "hist ! i = ident s" using assms(2) by (auto simp: in_set_conv_nth)
  then have "ident_sn (ident s) = of_nat i" "length (idata (ident s)) < 2 ^ 32"
    "icmd (ident s) = IKCP_CMD_PUSH \<or> icmd (ident s) = IKCP_CMD_CONNECT \<and> i = 0 \<and> idata (ident s) = []"
    using assms(1) unfolding hist_ok_def by metis+
  then show ?thesis using i by auto
qed

lemma rcv_view_snd_ops [simp]:
  "rcv_view (shrink_buf k) = rcv_view k" "rcv_view (parse_ack sn k) = rcv_view k"
  "rcv_view (parse_una una k) = rcv_view k" "rcv_view (parse_fastack sn k) = rcv_view k"
  "rcv_view (ack_push sn ts k) = rcv_view k" "rcv_view (seg_repeat k) = rcv_view k"
  "rcv_view (k \<lparr> rmt_wnd := w \<rparr>) = rcv_view k" "rcv_view (k \<lparr> probe := p \<rparr>) = rcv_view k"
  by (simp_all add: rcv_view_def shrink_buf_def parse_ack_def parse_una_def parse_fastack_def ack_push_def
      seg_repeat_def split: list.split)

lemma rcv_view_rtt [simp]: "rcv_view (input_rtt current upd v k) = rcv_view k"
proof -
  have "rcv_view (update_ack rtt q) = rcv_view q" for rtt q
    using update_ack_eq [of rtt q] by (auto simp: rcv_view_def)
  then show ?thesis by (simp add: input_rtt_def Let_def)
qed

lemma rcv_hist_connect:
  assumes h: "hist_ok cv hist" and "rcv_hist hist k g"
    and s: "0 < length hist" "idata (hist ! 0) = []" "icmd (hist ! 0) = IKCP_CMD_CONNECT"
  shows "rcv_hist hist (input_connect hdr k) g"
proof (cases "rcv_nxt k = 0")
  case True
  obtain n where n: "n \<le> length hist" "rcv_nxt k = of_nat n" "g @ qbytes (rcv_queue k) = hbytes (take n hist)"
    using assms(2) by (auto simp: rcv_hist_def)
  have "n = 0" using of_nat_u32_inj [of n 0] n(1,2) True h by (simp add: hist_ok_def)
  then have "g @ qbytes (rcv_queue k) = hbytes (take 1 hist)"
    using n(3) s by (cases hist) (simp_all add: hbytes_def)
  then show ?thesis
    using assms(2) s True
    by (auto simp: rcv_hist_def input_connect_def ack_push_def Let_def Suc_le_eq intro!: exI [of _ 1])
qed (use assms(2) in \<open>simp add: input_connect_def\<close>)

lemma seg_header_sn: "h_sn (seg_header s) = s_sn s"
  by (simp add: seg_header_def)

lemma cmd_ucast:
  "s_cmd s \<in> {IKCP_CMD_CONNECT, IKCP_CMD_PUSH, IKCP_CMD_ACK, IKCP_CMD_WASK, IKCP_CMD_WINS} \<Longrightarrow>
   ucast (h_cmd (seg_header s)) = s_cmd s"
  by (auto simp: seg_header_def const_defs)

lemma rcv_hist_push:
  assumes h: "hist_ok cv hist" and r: "rcv_hist hist k g" and inv: "rcv_inv k"
    and s: "i < length hist" "s_sn s = of_nat i" "s_data s = idata (hist ! i)" "length (s_data s) < 2 ^ 32"
      "icmd (hist ! i) \<noteq> IKCP_CMD_CONNECT"
    and p: "input_push (seg_header s) (s_data s @ rest) k = Inr k'"
  shows "rcv_hist hist k' g"
proof -
  have len: "unat (h_len (seg_header s)) = length (s_data s)"
    using s(4) by (simp add: seg_header_def unat_of_nat)
  have a: "rcv_hist hist (ack_push sn ts k) g" "rcv_hist hist (seg_repeat (ack_push sn ts k)) g"
    "rcv_hist hist (seg_repeat k) g" for sn ts
    by (rule rcv_hist_view [THEN iffD2, OF _ r], simp)+
  have "length hist < 2 ^ 32" using h by (simp add: hist_ok_def)
  note pd = rcv_hist_parse_data [OF this a(1) _ s(1)]
  let ?q = "ack_push (h_sn (seg_header s)) (h_ts (seg_header s)) k"
  have "k' = seg_repeat k \<or> k' = seg_repeat ?q \<or>
      (\<exists>seg. k' = parse_data seg ?q \<and> s_sn seg = s_sn s \<and> s_data seg = s_data s)"
    using p len unfolding input_push_def Let_def
    by (auto simp: bind_res_eq_Inr newSegment_def seg_header_sn split: if_splits)
  then show ?thesis using pd a s(2,3,5) inv by auto
qed

lemma rcv_hist_seg:
  assumes h: "hist_ok cv hist" and r: "rcv_hist hist k g" and inv: "rcv_inv k" and s: "genuine cv hist s"
    and seg: "input_seg (seg_header s) (s_data s @ rest) v k = Inr (v', k')"
  shows "rcv_hist hist k' g"
proof -
  let ?h = "seg_header s"
  define q where "q = shrink_buf (parse_una (h_una ?h) (k \<lparr> rmt_wnd := ucast (h_wnd ?h) \<rparr>))"
  have q: "rcv_hist hist q g" using r rcv_hist_view [of q k] by (simp add: q_def)
  show ?thesis
  proof (cases "ctl cv s")
    case True
    then have c: "s_cmd s \<in> {IKCP_CMD_ACK, IKCP_CMD_WASK, IKCP_CMD_WINS}" by (simp add: ctl_def)
    then have "ucast (h_cmd ?h) = s_cmd s" by (intro cmd_ucast) auto
    then have "rcv_view k' = rcv_view q"
      using seg c unfolding input_seg_def q_def [symmetric] Let_def
      by (auto simp: const_defs input_ack_def Let_def)
    then show ?thesis using q rcv_hist_view by blast
  next
    case False
    then have "ident s \<in> set hist" using s by (simp add: genuine_def)
    from genuine_ident [OF h this] obtain i where i: "i < length hist" "s_sn s = of_nat i"
      "s_data s = idata (hist ! i)" "length (s_data s) < 2 ^ 32" "icmd (hist ! i) = s_cmd s"
      "s_cmd s = IKCP_CMD_PUSH \<or> s_cmd s = IKCP_CMD_CONNECT \<and> i = 0 \<and> idata (hist ! i) = []"
      by (elim exE conjE) (rule that)
    then have c: "ucast (h_cmd ?h) = s_cmd s" by (intro cmd_ucast) auto
    from i(6) show ?thesis
    proof
      assume p: "s_cmd s = IKCP_CMD_PUSH"
      then have "input_push ?h (s_data s @ rest) q = Inr k'"
        using seg c unfolding input_seg_def q_def [symmetric] Let_def
        by (auto simp: const_defs bind_res_eq_Inr)
      from rcv_hist_push [OF h q _ i(1-4) _ this] show ?thesis using inv i(5) p by (simp add: q_def const_defs)
    next
      assume p: "s_cmd s = IKCP_CMD_CONNECT \<and> i = 0 \<and> idata (hist ! i) = []"
      then have "k' = input_connect ?h q"
        using seg c unfolding input_seg_def q_def [symmetric] Let_def by (auto simp: const_defs)
      then show ?thesis using rcv_hist_connect [OF h q] p i(1,5) by auto
    qed
  qed
qed

lemma genuine_len: "hist_ok cv hist \<Longrightarrow> genuine cv hist s \<Longrightarrow> length (s_data s) < 2 ^ 32"
  using genuine_ident [of cv hist s] by (auto simp: genuine_def ctl_def)

lemma rcv_hist_loop:
  assumes h: "hist_ok cv hist"
  shows "\<forall>s \<in> set segs. genuine cv hist s \<Longrightarrow> rcv_hist hist k g \<Longrightarrow> rcv_inv k \<Longrightarrow>
    input_loop (concat (map wire segs)) v k = Inr (ex, k') \<Longrightarrow> rcv_hist hist k' g"
proof (induction segs arbitrary: v k)
  case Nil
  then show ?case by (subst (asm) input_loop.simps) (auto simp: IKCP_OVERHEAD_def)
next
  case (Cons s segs)
  let ?rest = "concat (map wire segs)"
  have len: "unat (h_len (seg_header s)) = length (s_data s)"
    using genuine_len [OF h, of s] Cons.prems(1) by (simp add: seg_header_def unat_of_nat)
  have d: "decode_header (wire s @ ?rest) = Inr (seg_header s, s_data s @ ?rest)"
    by (simp add: wire_def decode_header_bytes)
  consider "k' = k" | v1 k1 where "input_seg (seg_header s) (s_data s @ ?rest) v k = Inr (v1, k1)"
      "input_loop ?rest v1 k1 = Inr (ex, k')"
    using Cons.prems(4) len d
    by (subst (asm) input_loop.simps) (auto simp: wire_def split: if_splits sum.splits)
  then show ?case
  proof cases
    case 2
    then show ?thesis using Cons rcv_hist_seg [OF h] input_seg_inv(1) by (meson list.set_intros)
  qed (use Cons.prems in simp)
qed

lemma rcv_hist_input:
  assumes h: "hist_ok cv hist" and r: "rcv_hist hist k g" and inv: "rcv_inv k" and p: "frames (genuine cv hist) p"
    and i: "input current p upd k = Inr (res, k')"
  shows "rcv_hist hist k' g"
proof -
  obtain segs where segs: "p = concat (map wire segs)" "\<forall>s \<in> set segs. genuine cv hist s"
    using p by (auto simp: frames_def)
  note loop = rcv_hist_loop [OF h segs(2) r inv, of ackvars0, folded segs(1)]
  from i show ?thesis
  proof (cases rule: input_cases)
    case (accepted v q a b)
    then have "rcv_view k' = rcv_view q" using rcv_view_rtt [of current upd v q] by (auto simp: rcv_view_def)
    then show ?thesis using loop [OF accepted(1)] rcv_hist_view by blast
  qed (use r loop in auto)
qed

lemma rcv_hist_recv:
  assumes h: "length hist < 2 ^ 32" and r: "rcv_hist hist k g" and inv: "rcv_inv k" and e: "recv buf k = Inr (n, buf', k')"
  shows "rcv_hist hist k' (g @ take (nat n) buf')"
proof -
  let ?q = "rcv_queue k"
  have len: "frag_len ?q \<le> length buf"
    using e recv_merge_panics [of buf ?q] by (cases "frag_len ?q \<le> length buf") (auto simp: recv_def)
  let ?c = "length (first_msg ?q)"
  define q where "q = move_ready (k \<lparr> rcv_queue := drop ?c ?q \<rparr>)"
  have n: "n = int (frag_len ?q)" and b: "buf' = concat (map s_data (first_msg ?q)) @ drop (frag_len ?q) buf"
    and v: "rcv_view k' = rcv_view q"
    using e recv_merge_ok [OF len] by (auto simp: recv_def Let_def q_def rcv_view_def)
  have "take (nat n) buf' = qbytes (take ?c ?q)"
    using n b frag_len_first_msg [of ?q] first_msg_prefix [of ?q] by (simp add: qbytes_def)
  moreover have "qbytes ?q = qbytes (take ?c ?q) @ qbytes (drop ?c ?q)"
    by (metis append_take_drop_id qbytes_append(1))
  ultimately have "rcv_hist hist (k \<lparr> rcv_queue := drop ?c ?q \<rparr>) (g @ take (nat n) buf')"
    using r by (simp add: rcv_hist_def)
  moreover have "rcv_inv (k \<lparr> rcv_queue := drop ?c ?q \<rparr>)" using inv by (auto simp: rcv_inv_def)
  ultimately have "rcv_hist hist q (g @ take (nat n) buf')" unfolding q_def by (rule rcv_hist_move_ready [OF h])
  then show ?thesis using v rcv_hist_view by blast
qed

lemma flush_rcv_view: "kcp_inv k \<Longrightarrow> flush current k = Inr k' \<Longrightarrow> rcv_view k' = rcv_view k"
  using flush_ok [of k current] by (auto simp: kcp_inv_def rcv_view_def flush_frame_def)

lemma send_only_queue: "kcp_inv k \<Longrightarrow> send buf k = Inr (r, k') \<Longrightarrow> \<exists>q. k' = k \<lparr> snd_queue := q \<rparr>"
proof -
  assume inv: "kcp_inv k" and e: "send buf k = Inr (r, k')"
  note m = kcp_inv_mss [OF inv]
  show ?thesis
  proof (cases "buf = [] \<or> stream k = 0")
    case True
    then have "k' = k \<or> k' = k \<lparr> snd_queue := snd_queue k @ mk_frags True (chunks (nat (mss k)) buf) \<rparr>"
    proof (cases "buf = []")
      case False
      then show ?thesis using e True m send_msg_eq [of k buf] by (simp split: if_splits)
    qed (use e in \<open>simp add: send_def\<close>)
    moreover have "k = k \<lparr> snd_queue := snd_queue k \<rparr>" by simp
    ultimately show ?thesis by blast
  next
    case False
    then show ?thesis using e m send_stream_eq [of k buf] by auto
  qed
qed

lemma exec_rcv_view:
  assumes inv: "kcp_inv k" and e: "exec op k = Inr k'"
    and "\<And>c p u. op \<noteq> OpInput c p u" "\<And>buf. op \<noteq> OpRecv buf"
  shows "rcv_view k' = rcv_view k"
proof (cases op)
  case (OpFlush c)
  then show ?thesis using e flush_rcv_view [OF inv] by simp
next
  case (OpUpdate c)
  let ?k = "k \<lparr> updated := (if updated k = 0 then 1 else updated k), ts_flush := next_flush c k \<rparr>"
  have "kcp_inv ?k" using inv by (simp add: kcp_inv_def flush_pre_def cfg_inv_def)
  from flush_rcv_view [OF this, of c k'] have "flush c ?k = Inr k' \<Longrightarrow> rcv_view k' = rcv_view k"
    by (simp add: rcv_view_def)
  then show ?thesis using e OpUpdate by (auto simp: update_eq split: if_splits)
next
  case (OpSend buf)
  then show ?thesis using e send_only_queue [OF inv, of buf] by (fastforce simp: bind_res_eq_Inr rcv_view_def)
next
  case (OpConnect c)
  then show ?thesis
    using e flush_rcv_view [OF enqueue_empty [OF inv, of IKCP_CMD_CONNECT]]
    by (auto simp: sendConnectFlush_def newSegment_0 rcv_view_def split: if_splits)
next
  case (OpClose c)
  let ?k = "k \<lparr> state := (state k OR IKCP_STATE_LOCAL_CLOSED) AND NOT IKCP_STATE_CONNECTED \<rparr>"
  show ?thesis
    using e OpClose flush_rcv_view [OF enqueue_empty [of ?k IKCP_CMD_PUSH]] inv
    by (auto simp: sendCloseFlush_def newSegment_0 rcv_view_def Let_def split: if_splits)
qed (use assms in \<open>auto simp: rcv_view_def recvSize_def setMtu_def setNoDelay_def setWndSize_def Let_def
    split: list.splits\<close>)

section \<open>The sender\<close>

definition snd_hist :: "ident list \<Rightarrow> KCP \<Rightarrow> bytes \<Rightarrow> bool" where
  "snd_hist hist k w \<longleftrightarrow>
     hist_ok (conv k) hist \<and> snd_nxt k = of_nat (length hist) \<and> idents k \<subseteq> set hist \<and>
     (\<forall>j < length (snd_queue k). s_cmd (snd_queue k ! j) = IKCP_CMD_CONNECT \<longrightarrow>
        hist = [] \<and> j = 0 \<and> s_data (snd_queue k ! j) = []) \<and>
     hbytes hist @ qbytes (snd_queue k) = w \<and>
     (\<forall>p \<in> set (outputs k). frames (genuine (conv k) hist) p)"

lemma idata_stamps: "map idata (stamps cv nxt ss) = map s_data ss"
  by (induction ss arbitrary: nxt) (simp_all add: idata_def)

lemma hbytes_stamps: "hbytes (stamps cv nxt ss) = qbytes ss"
  by (simp add: hbytes_def qbytes_def idata_stamps)

text \<open>A flush moves data from the queue to the buffer and loses none.\<close>

lemma flush_keeps_data:
  assumes inv: "kcp_inv k" and fl: "flush current k = Inr k'"
  shows "map s_data (snd_buf k' @ snd_queue k') = map s_data (snd_buf k @ snd_queue k)"
proof -
  have f: "map ident (snd_buf k') = flush_idents k" "snd_queue k' = drop (flush_count k) (snd_queue k)"
    using flush_ok [of k current] inv fl by (auto simp: kcp_inv_def)
  have "map s_data (snd_buf k') = map idata (map ident (snd_buf k'))" by (simp add: comp_def)
  also have "\<dots> = map s_data (snd_buf k) @ map s_data (take (flush_count k) (snd_queue k))"
    unfolding f(1) by (simp add: flush_idents_def comp_def idata_stamps)
  finally show ?thesis using f(2) by (simp add: take_map [symmetric] drop_map [symmetric])
qed

lemma hist_ok_stamps:
  assumes h: "hist_ok cv hist" and len: "length hist + length ss < 2 ^ 32"
    and q: "\<forall>s \<in> set ss. queued_ok s \<and> length (s_data s) < 2 ^ 32"
    and c: "\<forall>j < length ss. s_cmd (ss ! j) = IKCP_CMD_CONNECT \<longrightarrow> hist = [] \<and> j = 0 \<and> s_data (ss ! j) = []"
  shows "hist_ok cv (hist @ stamps cv (of_nat (length hist)) ss)"
proof -
  have "fst (x ! i) = cv \<and> ident_sn (x ! i) = of_nat i \<and> length (idata (x ! i)) < 2 ^ 32 \<and>
      (icmd (x ! i) = IKCP_CMD_PUSH \<or> icmd (x ! i) = IKCP_CMD_CONNECT \<and> i = 0 \<and> idata (x ! i) = [])"
    if x: "x = hist @ stamps cv (of_nat (length hist)) ss" and i: "i < length x" for x i
  proof (cases "i < length hist")
    case True
    then show ?thesis using h x by (auto simp: hist_ok_def nth_append)
  next
    case False
    define j where "j = i - length hist"
    have j: "i = length hist + j" "j < length ss" using False i x by (auto simp: j_def)
    then have e: "x ! i = (cv, s_cmd (ss ! j), s_frg (ss ! j), of_nat i, s_data (ss ! j))"
      using x stamps_nth [of j ss cv "of_nat (length hist)"] by (simp add: nth_append)
    have qj: "s_cmd (ss ! j) \<in> {IKCP_CMD_PUSH, IKCP_CMD_CONNECT}" "length (s_data (ss ! j)) < 2 ^ 32"
      using q j(2) nth_mem [of j ss] by (auto simp: queued_ok_def)
    then show ?thesis using e c j by (auto simp: ident_sn_def idata_def icmd_def)
  qed
  then show ?thesis using len by (auto simp: hist_ok_def)
qed

lemma pkt_frames: "pkt_ok P m p \<Longrightarrow> (\<And>s. P s \<Longrightarrow> Q s) \<Longrightarrow> frames Q p"
  unfolding pkt_ok_def using frames_mono by blast

lemma snd_hist_flush:
  assumes inv: "kcp_inv k" and h: "snd_hist hist k w" and fl: "flush current k = Inr k'"
    and small: "length hist + soff (snd_nxt k) (snd_nxt k') < 2 ^ 32"
  shows "\<exists>new. length new = soff (snd_nxt k) (snd_nxt k') \<and> snd_hist (hist @ new) k' w"
proof -
  have pre: "flush_pre k" and si: "snd_inv k" using inv by (simp_all add: kcp_inv_def)
  let ?c = "flush_count k" and ?q = "snd_queue k"
  define new where "new = stamps (conv k) (snd_nxt k) (take ?c ?q)"
  obtain pkts where f: "map ident (snd_buf k') = flush_idents k" "snd_queue k' = drop ?c ?q"
    "snd_nxt k' = snd_nxt k + of_nat ?c" "outputs k' = outputs k @ pkts"
    "\<forall>p \<in> set pkts. pkt_ok (\<lambda>s. ctl (conv k) s \<or> ident s \<in> set (flush_idents k)) (mtu k) p"
    "conv k' = conv k"
    using flush_ok [OF pre si, of current] fl by (auto simp: flush_frame_def)
  have c: "?c \<le> length ?q" "length new = ?c" using flush_count_le [of k] by (simp_all add: new_def)
  have "?c \<le> WND_MAX"
    using flush_count_span [OF si] calc_cwnd_le [OF si] by (cases "?c = 0") auto
  then have used: "soff (snd_nxt k) (snd_nxt k') = ?c" using f(3) by (simp add: soff_of_nat WND_MAX_def)
  have hk: "hist_ok (conv k) hist" "snd_nxt k = of_nat (length hist)" "idents k \<subseteq> set hist"
    "hbytes hist @ qbytes ?q = w" "\<forall>p \<in> set (outputs k). frames (genuine (conv k) hist) p"
    and con: "\<And>j. j < length ?q \<Longrightarrow> s_cmd (?q ! j) = IKCP_CMD_CONNECT \<Longrightarrow> hist = [] \<and> j = 0 \<and> s_data (?q ! j) = []"
    using h by (auto simp: snd_hist_def)
  have sz: "queued_ok s \<and> length (s_data s) < 2 ^ 32" if "s \<in> set ?q" for s
  proof -
    have "int (IKCP_OVERHEAD + length (s_data s)) \<le> mtu k" "mtu k \<le> int (IKCP_OVERHEAD + udpPacketSizeLimit)"
      using inv that by (auto simp: kcp_inv_def flush_pre_def cfg_inv_def)
    then have "length (s_data s) \<le> udpPacketSizeLimit" by linarith
    then show ?thesis using inv that by (auto simp: kcp_inv_def udpPacketSizeLimit_def)
  qed
  have "hist_ok (conv k) (hist @ new)"
    unfolding new_def hk(2)
  proof (rule hist_ok_stamps [OF hk(1)])
    show "length hist + length (take ?c ?q) < 2 ^ 32" using small used c(1) by simp
    show "\<forall>s \<in> set (take ?c ?q). queued_ok s \<and> length (s_data s) < 2 ^ 32" using sz in_set_takeD by fast
    show "\<forall>j < length (take ?c ?q). s_cmd (take ?c ?q ! j) = IKCP_CMD_CONNECT \<longrightarrow>
        hist = [] \<and> j = 0 \<and> s_data (take ?c ?q ! j) = []"
      using con by auto
  qed
  moreover have fi: "set (flush_idents k) \<subseteq> set (hist @ new)"
    using hk(3) by (auto simp: flush_idents_def new_def idents_def)
  then have "idents k' \<subseteq> set (hist @ new)" using f(1) by (metis idents_def list.set_map)
  moreover have "frames (genuine (conv k) (hist @ new)) p" if "p \<in> set (outputs k')" for p
  proof (cases "p \<in> set pkts")
    case True
    then show ?thesis using f(5) fi by (auto simp: genuine_def intro!: pkt_frames)
  next
    case False
    then show ?thesis using that f(4) hk(5) genuine_extend by (auto intro: frames_mono)
  qed
  moreover have "hbytes (hist @ new) @ qbytes (snd_queue k') = w"
    using hk(4) f(2) append_take_drop_id [of ?c ?q] qbytes_append(1) [of "take ?c ?q" "drop ?c ?q"]
    by (simp add: new_def hbytes_stamps)
  moreover have "snd_nxt k' = of_nat (length (hist @ new))" using f(3) hk(2) c(2) by simp
  moreover have "hist @ new = [] \<and> j = 0 \<and> s_data (snd_queue k' ! j) = []"
    if "j < length (snd_queue k')" "s_cmd (snd_queue k' ! j) = IKCP_CMD_CONNECT" for j
  proof -
    have "?c + j < length ?q" "s_cmd (?q ! (?c + j)) = IKCP_CMD_CONNECT" using that f(2) by simp_all
    from con [OF this] show ?thesis using c(2) f(2) by auto
  qed
  ultimately show ?thesis using used c(2) f(6) by (intro exI [of _ new]) (simp add: snd_hist_def)
qed

text \<open>Operations that do not flush.\<close>

lemma snd_hist_frame:
  assumes "snd_hist hist k w" "conv k' = conv k" "snd_nxt k' = snd_nxt k" "snd_queue k' = snd_queue k"
    "outputs k' = outputs k" "idents k' \<subseteq> idents k"
  shows "snd_hist hist k' w"
  using assms unfolding snd_hist_def by auto

text \<open>The bytes an operation takes from its user, and those it gives to its user.\<close>

definition accepted :: "kcp_op \<Rightarrow> KCP \<Rightarrow> bytes" where
  "accepted op k = (case op of
     OpSend buf \<Rightarrow> (case send buf k of Inr (r, _) \<Rightarrow> if r = 0 then buf else [] | Inl _ \<Rightarrow> [])
   | _ \<Rightarrow> [])"

definition taken :: "kcp_op \<Rightarrow> KCP \<Rightarrow> bytes" where
  "taken op k = (case op of
     OpRecv buf \<Rightarrow> (case recv buf k of Inr (n, buf', _) \<Rightarrow> take (nat n) buf' | Inl _ \<Rightarrow> [])
   | _ \<Rightarrow> [])"

text \<open>Filling up the last segment leaves a queued \<open>CONNECT\<close> alone.\<close>

lemma fill_last_nth:
  assumes "j < length (fill_last buf k)" "s_cmd (fill_last buf k ! j) = IKCP_CMD_CONNECT"
  shows "j < length (snd_queue k)" "fill_last buf k ! j = snd_queue k ! j"
proof -
  have "j < length (snd_queue k) \<and> fill_last buf k ! j = snd_queue k ! j"
  proof (cases "room_in_last k = 0")
    case False
    then have ne: "snd_queue k \<noteq> []" "s_cmd (last (snd_queue k)) = IKCP_CMD_PUSH"
      by (auto simp: room_in_last_def split: if_splits)
    then have "j < length (butlast (snd_queue k))"
      using assms False by (auto simp: fill_last_def nth_append const_defs split: if_splits)
    then show ?thesis using False ne by (simp add: fill_last_def nth_append nth_butlast)
  qed (use assms in \<open>simp add: fill_last_def\<close>)
  then show "j < length (snd_queue k)" "fill_last buf k ! j = snd_queue k ! j" by simp_all
qed

lemma snd_hist_send:
  assumes inv: "kcp_inv k" and h: "snd_hist hist k w" and e: "send buf k = Inr (r, k')"
  shows "snd_hist hist k' (w @ (if r = 0 then buf else []))"
proof (cases "buf = []")
  case False
  note m = kcp_inv_mss [OF inv]
  let ?c = "\<lambda>b. chunks (nat (mss k)) b"
  have qb: "qbytes (mk_frags msg (?c b)) = b" for msg b
    using m by (simp add: qbytes_def mk_frags_data concat_chunks)
  have old: "hist = [] \<and> j = 0 \<and> s_data (snd_queue k ! j) = []"
    if "j < length (snd_queue k)" "s_cmd (snd_queue k ! j) = IKCP_CMD_CONNECT" for j
    using h that by (auto simp: snd_hist_def)
  have new: "s_cmd (mk_frags msg cs ! j) \<noteq> IKCP_CMD_CONNECT" if "j < length (mk_frags msg cs)" for msg cs j
    using mk_frags_cmd [OF nth_mem [OF that]] by (simp add: const_defs)
  have gen: "snd_hist hist (k \<lparr> snd_queue := q @ mk_frags msg cs \<rparr>) (w @ b)"
    if "qbytes q @ qbytes (mk_frags msg cs) = qbytes (snd_queue k) @ b"
      "\<And>j. j < length q \<Longrightarrow> s_cmd (q ! j) = IKCP_CMD_CONNECT \<Longrightarrow> hist = [] \<and> j = 0 \<and> s_data (q ! j) = []"
    for q msg cs b
    using that h new by (auto simp: snd_hist_def idents_def nth_append)
  show ?thesis
  proof (cases "stream k = 0")
    case True
    then show ?thesis
      using e m False send_msg_eq [of k buf] gen [of "snd_queue k" True "?c buf" buf] qb old h
      by (auto split: if_splits)
  next
    case st: False
    let ?d = "room_in_last k"
    have "hist = [] \<and> j = 0 \<and> s_data (fill_last buf k ! j) = []"
      if "j < length (fill_last buf k)" "s_cmd (fill_last buf k ! j) = IKCP_CMD_CONNECT" for j
      using fill_last_nth [OF that] old [of j] that by metis
    moreover have "qbytes (fill_last buf k) @ qbytes (mk_frags False (?c (drop ?d buf))) = qbytes (snd_queue k) @ buf"
      unfolding qb using fill_last_data [of buf k] by (simp add: qbytes_def)
    ultimately show ?thesis using e m False st send_stream_eq [of k buf] gen by auto
  qed
qed (use h e in \<open>auto simp: send_def\<close>)

lemma snd_hist_enqueue:
  assumes h: "snd_hist hist k w" and c: "c = IKCP_CMD_CONNECT \<longrightarrow> hist = [] \<and> snd_queue k = []"
  shows "snd_hist hist (k \<lparr> snd_queue := snd_queue k @ [segment0 \<lparr> s_cmd := c \<rparr>] \<rparr>) w"
  using h c by (auto simp: snd_hist_def idents_def nth_append segment0_def)

lemma snd_hist_exec:
  assumes inv: "kcp_inv k" and h: "snd_hist hist k w" and e: "exec op k = Inr k'"
    and small: "length hist + soff (snd_nxt k) (snd_nxt k') < 2 ^ 32"
  shows "\<exists>new. length new = soff (snd_nxt k) (snd_nxt k') \<and> snd_hist (hist @ new) k' (w @ accepted op k)"
proof -
  have same: ?thesis if "snd_nxt k' = snd_nxt k" "snd_hist hist k' (w @ accepted op k)"
    using that by (intro exI [of _ "[]"]) simp
  have flush: ?thesis if "kcp_inv q" "snd_hist hist q w" "flush c q = Inr k'" "snd_nxt q = snd_nxt k" "accepted op k = []" for q c
    using snd_hist_flush [OF that(1-3)] small that(4,5) by simp
  have st: "snd_hist hist (k \<lparr> state := x \<rparr>) w" for x
    by (rule snd_hist_frame [OF h]) (simp_all add: idents_def)
  show ?thesis
  proof (cases op)
    case (OpInput c p u)
    then obtain r where i: "input c p u k = Inr (r, k')" using e by (auto simp: bind_res_eq_Inr)
    have "snd_hist hist k' w" "snd_nxt k' = snd_nxt k"
      using snd_hist_frame [OF h, of k'] input_frame_input [OF i] input_idents [OF i]
      by (simp_all add: input_frame_def)
    then show ?thesis using OpInput by (intro same) (simp_all add: accepted_def)
  next
    case (OpFlush c)
    then show ?thesis using e by (intro flush [OF inv h]) (simp_all add: accepted_def)
  next
    case (OpUpdate c)
    let ?k = "k \<lparr> updated := (if updated k = 0 then 1 else updated k), ts_flush := next_flush c k \<rparr>"
    have "kcp_inv ?k" using inv by (simp add: kcp_inv_def flush_pre_def cfg_inv_def)
    moreover have "snd_hist hist ?k w" by (rule snd_hist_frame [OF h]) (simp_all add: idents_def)
    ultimately show ?thesis
      using e OpUpdate flush [of ?k c] same h by (auto simp: update_eq accepted_def split: if_splits)
  next
    case (OpSend buf)
    then obtain r where i: "send buf k = Inr (r, k')" using e by (auto simp: bind_res_eq_Inr)
    have "snd_nxt k' = snd_nxt k" using send_only_queue [OF inv i] by auto
    then show ?thesis using OpSend i snd_hist_send [OF inv h i] by (intro same) (simp_all add: accepted_def)
  next
    case (OpRecv buf)
    then have "snd_hist hist k' w" "snd_nxt k' = snd_nxt k"
      using e snd_hist_frame [OF h, of k']
      by (auto simp: recv_def bind_res_eq_Inr move_ready_def Let_def idents_def split: if_splits)
    then show ?thesis using OpRecv by (intro same) (simp_all add: accepted_def)
  next
    case (OpConnect c)
    show ?thesis
    proof (cases "waitSnd k = 0 \<and> snd_nxt k = 0")
      case True
      let ?k = "k \<lparr> snd_queue := snd_queue k @ [segment0 \<lparr> s_cmd := IKCP_CMD_CONNECT \<rparr>] \<rparr>"
      have "length hist = 0"
        using h True of_nat_u32_inj [of "length hist" 0] by (simp add: snd_hist_def hist_ok_def)
      then have "snd_hist hist ?k w" using True by (intro snd_hist_enqueue [OF h]) (simp add: waitSnd_def)
      then show ?thesis
        using e OpConnect True enqueue_empty [OF inv, of IKCP_CMD_CONNECT]
        by (intro flush [of ?k c]) (simp_all add: sendConnectFlush_def newSegment_0 accepted_def)
    next
      case False
      then have "k' = k" using e OpConnect by (auto simp: sendConnectFlush_def)
      then show ?thesis using h OpConnect by (intro same) (simp_all add: accepted_def)
    qed
  next
    case (OpClose c)
    let ?s = "k \<lparr> state := (state k OR IKCP_STATE_LOCAL_CLOSED) AND NOT IKCP_STATE_CONNECTED \<rparr>"
    show ?thesis
    proof (cases "isStateConnected k \<and> \<not> isStateLocalClosed k")
      case True
      let ?k = "?s \<lparr> snd_queue := snd_queue ?s @ [segment0 \<lparr> s_cmd := IKCP_CMD_PUSH \<rparr>] \<rparr>"
      have "kcp_inv ?k" using inv by (intro enqueue_empty) simp_all
      moreover have "snd_hist hist ?k w" by (rule snd_hist_enqueue [OF st]) (simp add: const_defs)
      ultimately show ?thesis
        using e OpClose True by (intro flush [of ?k c]) (simp_all add: sendCloseFlush_def newSegment_0 accepted_def Let_def)
    next
      case False
      then have "k' = k" using e OpClose by (auto simp: sendCloseFlush_def)
      then show ?thesis using h OpClose by (intro same) (simp_all add: accepted_def)
    qed
  qed (use e h same snd_hist_frame [OF h, of k'] in \<open>auto simp: accepted_def idents_def recvSize_def setMtu_def
      setNoDelay_def setWndSize_def Let_def split: list.splits\<close>)
qed

section \<open>The two of them and the network\<close>

record net =
  sndr :: KCP
  rcvr :: KCP
  sent :: bytes      \<comment> \<open>accepted by \<open>send\<close> of the sender so far\<close>
  got :: bytes       \<comment> \<open>returned by \<open>recv\<close> of the receiver so far\<close>
  used :: nat        \<comment> \<open>sequence numbers the sender has used\<close>

definition net_init :: "net \<Rightarrow> bool" where
  "net_init s \<longleftrightarrow> kcp_init (sndr s) \<and> kcp_init (rcvr s) \<and> sent s = [] \<and> got s = [] \<and> used s = 0"

inductive net_step :: "net \<Rightarrow> net \<Rightarrow> bool" where
  sender: "op_ok op (sndr s) \<Longrightarrow> exec op (sndr s) = Inr k \<Longrightarrow>
    net_step s (s \<lparr> sndr := k, sent := sent s @ accepted op (sndr s),
                    used := used s + soff (snd_nxt (sndr s)) (snd_nxt k) \<rparr>)"
| receiver: "op_ok op (rcvr s) \<Longrightarrow> (\<And>c p u. op = OpInput c p u \<Longrightarrow> p \<in> set (outputs (sndr s))) \<Longrightarrow>
    exec op (rcvr s) = Inr k \<Longrightarrow>
    net_step s (s \<lparr> rcvr := k, got := got s @ taken op (rcvr s) \<rparr>)"

definition net_inv :: "net \<Rightarrow> bool" where
  "net_inv s \<longleftrightarrow> kcp_inv (sndr s) \<and> kcp_inv (rcvr s) \<and>
     (used s < 2 ^ 32 \<longrightarrow> (\<exists>hist. length hist = used s \<and> snd_hist hist (sndr s) (sent s) \<and>
        rcv_hist hist (rcvr s) (got s)))"

lemma rcv_hist_exec:
  assumes h: "hist_ok cv hist" and inv: "kcp_inv k" and r: "rcv_hist hist k g" and e: "exec op k = Inr k'"
    and p: "\<And>c p u. op = OpInput c p u \<Longrightarrow> frames (genuine cv hist) p"
  shows "rcv_hist hist k' (g @ taken op k)"
proof -
  have ri: "rcv_inv k" using inv by (simp add: kcp_inv_def)
  have same: ?thesis if "rcv_view k' = rcv_view k" "taken op k = []"
    using rcv_hist_view [OF that(1)] that(2) r by simp
  show ?thesis
  proof (cases op)
    case (OpInput c dat u)
    then show ?thesis using e rcv_hist_input [OF h r ri p] by (auto simp: bind_res_eq_Inr taken_def)
  next
    case (OpRecv buf)
    have "length hist < 2 ^ 32" using h by (simp add: hist_ok_def)
    then show ?thesis using e OpRecv rcv_hist_recv [OF _ r ri] by (auto simp: bind_res_eq_Inr taken_def)
  qed (rule same; (rule exec_rcv_view [OF inv e])?; simp add: taken_def)+
qed

interpretation net: invariant_system net_init net_step net_inv
proof
  fix s
  assume i: "net_init s"
  then have "snd_hist [] (sndr s) []" "rcv_hist [] (rcvr s) []"
    by (auto simp: net_init_def kcp_init_def newKCP_def snd_hist_def rcv_hist_def hist_ok_def idents_def)
  then show "net_inv s" using i kcp.init_inv by (simp add: net_inv_def net_init_def)
next
  fix s s'
  assume inv: "net_inv s" and "net_step s s'"
  from this(2) show "net_inv s'"
  proof cases
    case (sender op k)
    let ?d = "soff (snd_nxt (sndr s)) (snd_nxt k)"
    have "kcp_inv k" using kcp.step_inv [OF _ kcp_step.intros [OF sender(2,3)]] inv by (simp add: net_inv_def)
    moreover have "\<exists>hist. length hist = used s + ?d \<and> snd_hist hist k (sent s @ accepted op (sndr s)) \<and>
        rcv_hist hist (rcvr s) (got s)" if u: "used s + ?d < 2 ^ 32"
    proof -
      obtain hist where hist: "length hist = used s" "snd_hist hist (sndr s) (sent s)" "rcv_hist hist (rcvr s) (got s)"
        using inv u by (auto simp: net_inv_def)
      obtain new where "length new = ?d" "snd_hist (hist @ new) k (sent s @ accepted op (sndr s))"
        using snd_hist_exec [OF _ hist(2) sender(3)] inv u hist(1) by (auto simp: net_inv_def)
      then show ?thesis using hist rcv_hist_extend by (intro exI [of _ "hist @ new"]) auto
    qed
    ultimately show ?thesis using inv sender(1) by (simp add: net_inv_def)
  next
    case (receiver op k)
    have "kcp_inv k" using kcp.step_inv [OF _ kcp_step.intros [OF receiver(2,4)]] inv by (simp add: net_inv_def)
    moreover have "rcv_hist hist k (got s @ taken op (rcvr s))"
      if "snd_hist hist (sndr s) (sent s)" "rcv_hist hist (rcvr s) (got s)" for hist
    proof (rule rcv_hist_exec [OF _ _ that(2) receiver(4)])
      show "hist_ok (conv (sndr s)) hist" using that(1) by (simp add: snd_hist_def)
      show "kcp_inv (rcvr s)" using inv by (simp add: net_inv_def)
      show "frames (genuine (conv (sndr s)) hist) p" if "op = OpInput c p u" for c p u
        using receiver(3) [OF that] \<open>snd_hist hist (sndr s) (sent s)\<close> by (simp add: snd_hist_def)
    qed
    ultimately show ?thesis using inv receiver(1) by (auto simp: net_inv_def)
  qed
qed

lemma net_delivery:
  assumes "reachable net_init net_step s" "used s < 2 ^ 32"
  shows "prefix (got s @ qbytes (rcv_queue (rcvr s))) (sent s)"
    and "rcv_nxt (rcvr s) = snd_nxt (sndr s) \<Longrightarrow>
      sent s = got s @ qbytes (rcv_queue (rcvr s)) @ qbytes (snd_queue (sndr s))"
proof -
  obtain hist where h: "snd_hist hist (sndr s) (sent s)" "rcv_hist hist (rcvr s) (got s)"
    using net.reachable_inv [OF assms(1)] assms(2) by (auto simp: net_inv_def)
  then obtain n where n: "n \<le> length hist" "rcv_nxt (rcvr s) = of_nat n"
    "got s @ qbytes (rcv_queue (rcvr s)) = hbytes (take n hist)"
    by (auto simp: rcv_hist_def)
  have w: "hbytes hist @ qbytes (snd_queue (sndr s)) = sent s" and nxt: "snd_nxt (sndr s) = of_nat (length hist)"
    and len: "length hist < 2 ^ 32"
    using h(1) by (simp_all add: snd_hist_def hist_ok_def)
  have "hbytes hist = hbytes (take n hist) @ hbytes (drop n hist)"
    by (metis append_take_drop_id hbytes_append(1))
  then show "prefix (got s @ qbytes (rcv_queue (rcvr s))) (sent s)"
    unfolding n(3) w [symmetric] by simp
  assume "rcv_nxt (rcvr s) = snd_nxt (sndr s)"
  then have "n = length hist" using of_nat_u32_inj [of n "length hist"] n(1,2) nxt len by simp
  then show "sent s = got s @ qbytes (rcv_queue (rcvr s)) @ qbytes (snd_queue (sndr s))"
    using n(3) w by (metis append.assoc order_refl take_all)
qed

section \<open>Runs\<close>

text \<open>A schedule: operations of the two sides, and the delivery of the \<open>i\<close>-th packet handed out so far.\<close>

datatype net_ev = Snd kcp_op | Rcv kcp_op | Deliver u32 nat

fun is_input :: "kcp_op \<Rightarrow> bool" where
  "is_input (OpInput c p u) = True"
| "is_input _ = False"

definition net_snd :: "kcp_op \<Rightarrow> net \<Rightarrow> net option" where
  "net_snd op s =
     (if op_ok op (sndr s)
      then case exec op (sndr s) of
             Inl e \<Rightarrow> None
           | Inr k \<Rightarrow> Some (s \<lparr> sndr := k, sent := sent s @ accepted op (sndr s),
                                used := used s + soff (snd_nxt (sndr s)) (snd_nxt k) \<rparr>)
      else None)"

definition net_rcv :: "kcp_op \<Rightarrow> net \<Rightarrow> net option" where
  "net_rcv op s =
     (if op_ok op (rcvr s)
      then case exec op (rcvr s) of
             Inl e \<Rightarrow> None
           | Inr k \<Rightarrow> Some (s \<lparr> rcvr := k, got := got s @ taken op (rcvr s) \<rparr>)
      else None)"

fun net_do :: "net_ev \<Rightarrow> net \<Rightarrow> net option" where
  "net_do (Snd op) s = net_snd op s"
| "net_do (Rcv op) s = (if is_input op then None else net_rcv op s)"
| "net_do (Deliver c i) s =
     (if i < length (outputs (sndr s)) then net_rcv (OpInput c (outputs (sndr s) ! i) True) s else None)"

fun net_run :: "net_ev list \<Rightarrow> net \<Rightarrow> net option" where
  "net_run [] s = Some s"
| "net_run (ev # evs) s = (case net_do ev s of None \<Rightarrow> None | Some s' \<Rightarrow> net_run evs s')"

lemma net_do_step: "net_do ev s = Some s' \<Longrightarrow> net_step s s'"
proof (cases ev)
  case (Snd op)
  then show "net_do ev s = Some s' \<Longrightarrow> ?thesis"
    by (auto simp: net_snd_def intro: net_step.sender split: if_splits sum.splits)
next
  case (Rcv op)
  then show "net_do ev s = Some s' \<Longrightarrow> ?thesis"
    by (auto simp: net_rcv_def intro!: net_step.receiver split: if_splits sum.splits)
next
  case (Deliver c i)
  then show "net_do ev s = Some s' \<Longrightarrow> ?thesis"
    by (auto simp: net_rcv_def intro!: net_step.receiver simp del: exec.simps op_ok.simps split: if_splits sum.splits)
qed

lemma net_run_reachable:
  "reachable net_init net_step s \<Longrightarrow> net_run evs s = Some s' \<Longrightarrow> reachable net_init net_step s'"
  by (induction evs arbitrary: s) (auto split: option.splits intro: reach_step dest: net_do_step)

definition net0 :: net where
  "net0 = \<lparr> sndr = newKCP, rcvr = newKCP, sent = [], got = [], used = 0 \<rparr>"

lemma net0_init: "net_init net0"
proof -
  have "kcp_init newKCP" unfolding kcp_init_def by (intro exI [of _ "0"]) (simp add: newKCP_def)
  then show ?thesis by (simp add: net_init_def net0_def)
qed

lemma net_run_from_start: "net_run evs net0 = Some s \<Longrightarrow> reachable net_init net_step s"
  using net_run_reachable reach_init [of net_init, OF net0_init] by blast

text \<open>A concrete run: three bytes are written, flushed, delivered and read.\<close>

lemma demo_run:
  "map_option (\<lambda>s. (got s, sent s, used s, rcv_nxt (rcvr s) = snd_nxt (sndr s), rcv_queue (rcvr s), snd_queue (sndr s)))
     (net_run [Snd (OpSend [1, 2, 3]), Snd (OpFlush 0), Snd (OpFlush 10), Deliver 20 0, Rcv (OpRecv [0, 0, 0])] net0)
   = Some ([1, 2, 3], [1, 2, 3], 1, True, [], [])"
  by code_simp

lemma demo_state:
  "\<exists>s. reachable net_init net_step s \<and> used s < 2 ^ 32 \<and> got s = [1, 2, 3] \<and> sent s = [1, 2, 3] \<and>
     rcv_nxt (rcvr s) = snd_nxt (sndr s) \<and> rcv_queue (rcvr s) = [] \<and> snd_queue (sndr s) = []"
proof -
  let ?evs = "[Snd (OpSend [1, 2, 3]), Snd (OpFlush 0), Snd (OpFlush 10), Deliver 20 0, Rcv (OpRecv [0, 0, 0])]"
  obtain s where s: "net_run ?evs net0 = Some s" "(got s, sent s, used s, rcv_nxt (rcvr s) = snd_nxt (sndr s),
      rcv_queue (rcvr s), snd_queue (sndr s)) = ([1, 2, 3], [1, 2, 3], 1, True, [], [])"
    using demo_run unfolding map_option_eq_Some by blast
  then show ?thesis using net_run_from_start [OF s(1)] by (intro exI [of _ s]) simp
qed

end
