(* ===== verification/Byte_Buffer.thy ===== *)
theory Byte_Buffer
  imports Kcp_Prelude
begin

text \<open>
  \<open>go/kcp/buffer.go\<close>: the byte buffer of the connection layer.

  A Go slice that starts at the beginning of its array is a length and the array: \<open>buf_arr\<close> has
  \<open>cap(buf)\<close> bytes, of which the first \<open>buf_len\<close> are \<open>buf\<close>. Every reslicing of the source keeps
  the start. The specification is a queue of bytes (locale \<open>byte_queue\<close>).
\<close>

section \<open>Operations\<close>

record Buffer =
  buf_arr :: bytes
  buf_len :: nat
  off :: nat

definition Buffer0 :: Buffer where
  "Buffer0 = \<lparr> buf_arr = [], buf_len = 0, off = 0 \<rparr>"

text \<open>A buffer takes over the slice it is given: its bytes, and the spare capacity behind them.\<close>

definition NewBuffer :: "bytes \<Rightarrow> bytes \<Rightarrow> Buffer" where
  "NewBuffer b spare = \<lparr> buf_arr = b @ spare, buf_len = length b, off = 0 \<rparr>"

definition buf_slice :: "Buffer \<Rightarrow> bytes" where
  "buf_slice b = take (buf_len b) (buf_arr b)"

definition Bytes :: "Buffer \<Rightarrow> bytes res" where
  "Bytes b = (if off b \<le> buf_len b then Inr (drop (off b) (buf_slice b)) else Inl SliceBounds)"

definition Len :: "Buffer \<Rightarrow> int" where
  "Len b = int (buf_len b) - int (off b)"

definition Cap :: "Buffer \<Rightarrow> nat" where
  "Cap b = length (buf_arr b)"

text \<open>\<open>b.buf = b.buf[0:n]\<close>\<close>

definition reslice :: "int \<Rightarrow> Buffer \<Rightarrow> Buffer res" where
  "reslice n b = (if 0 \<le> n \<and> n \<le> int (Cap b) then Inr (b \<lparr> buf_len := nat n \<rparr>) else Inl SliceBounds)"

definition Truncate :: "int \<Rightarrow> Buffer \<Rightarrow> Buffer res" where
  "Truncate n b =
     (if n < 0 \<or> n > Len b then Inl (Explicit ''bytes.Buffer: truncation out of range'')
      else let b = (if n = 0 then b \<lparr> off := 0 \<rparr> else b)
           in reslice (int (off b) + n) b)"

definition Reset :: "Buffer \<Rightarrow> Buffer res" where
  "Reset b = Truncate 0 b"

text \<open>Lines 44 to 60: make room, by sliding the contents down or by a new array.\<close>

definition grow_room :: "int \<Rightarrow> int \<Rightarrow> Buffer \<Rightarrow> Buffer res" where
  "grow_room m n b =
     (if int (buf_len b) + n > int (Cap b)
      then bind_res (Bytes b) (\<lambda>unread.
             if m + n \<le> int (Cap b) div 2
             then Inr \<lparr> buf_arr = go_copy (buf_slice b) unread @ drop (buf_len b) (buf_arr b),
                        buf_len = nat m, off = 0 \<rparr>
             else let l = nat (2 * int (Cap b) + n)
                  in Inr \<lparr> buf_arr = go_copy (replicate l 0) unread, buf_len = l, off = 0 \<rparr>)
      else Inr b)"

definition grow :: "int \<Rightarrow> Buffer \<Rightarrow> (nat \<times> Buffer) res" where
  "grow n b =
     (let m = Len b
      in bind_res (if m = 0 \<and> off b \<noteq> 0 then Truncate 0 b else Inr b) (\<lambda>b.
         bind_res (grow_room m n b) (\<lambda>b.
         bind_res (reslice (int (off b) + m + n) b) (\<lambda>b.
         Inr (nat (int (off b) + m), b)))))"

definition Grow :: "int \<Rightarrow> Buffer \<Rightarrow> Buffer res" where
  "Grow n b =
     (if n < 0 then Inl (Explicit ''bytes.Buffer.Grow: negative count'')
      else bind_res (grow n b) (\<lambda>(m, b). reslice (int m) b))"

text \<open>
  \<open>Extend\<close> returns the slice \<open>b.buf[m:]\<close>, which shares the array: the index \<open>m\<close> stands for it,
  and \<open>fill m p\<close> is a write of \<open>p\<close> through it.
\<close>

definition Extend :: "int \<Rightarrow> Buffer \<Rightarrow> (nat \<times> Buffer) res" where
  "Extend n b =
     bind_res (grow n b) (\<lambda>(m, b). if m \<le> buf_len b then Inr (m, b) else Inl SliceBounds)"

definition tail_slice :: "nat \<Rightarrow> Buffer \<Rightarrow> bytes" where
  "tail_slice m b = drop m (buf_slice b)"

definition fill :: "nat \<Rightarrow> bytes \<Rightarrow> Buffer \<Rightarrow> Buffer" where
  "fill m p b = b \<lparr> buf_arr := take m (buf_arr b) @ go_copy (tail_slice m b) p @ drop (buf_len b) (buf_arr b) \<rparr>"

definition Write :: "bytes \<Rightarrow> Buffer \<Rightarrow> (nat \<times> Buffer) res" where
  "Write p b =
     bind_res (grow (int (length p)) b) (\<lambda>(m, b).
       if m \<le> buf_len b then Inr (min (buf_len b - m) (length p), fill m p b) else Inl SliceBounds)"

definition Next :: "int \<Rightarrow> Buffer \<Rightarrow> (bytes \<times> Buffer) res" where
  "Next n b =
     (let n = (if n > Len b then Len b else n)
      in if 0 \<le> n \<and> off b + nat n \<le> Cap b
         then Inr (take (nat n) (drop (off b) (buf_arr b)), b \<lparr> off := off b + nat n \<rparr>)
         else Inl SliceBounds)"

text \<open>The result: the caller's slice, the count, whether \<open>io.EOF\<close> is returned, the buffer.\<close>

definition Read :: "bytes \<Rightarrow> Buffer \<Rightarrow> (bytes \<times> nat \<times> bool \<times> Buffer) res" where
  "Read p b =
     (if off b \<ge> buf_len b
      then bind_res (Truncate 0 b) (\<lambda>b. Inr (p, 0, length p \<noteq> 0, b))
      else let src = drop (off b) (buf_slice b); n = min (length p) (length src)
           in Inr (go_copy p src, n, False, b \<lparr> off := off b + n \<rparr>))"

section \<open>Contents and invariant\<close>

definition buf_inv :: "Buffer \<Rightarrow> bool" where
  "buf_inv b \<longleftrightarrow> off b \<le> buf_len b \<and> buf_len b \<le> Cap b"

definition contents :: "Buffer \<Rightarrow> bytes" where
  "contents b = drop (off b) (buf_slice b)"

lemma Bytes_contents: "buf_inv b \<Longrightarrow> Bytes b = Inr (contents b)"
  by (simp add: Bytes_def buf_inv_def contents_def)

lemma length_contents: "buf_inv b \<Longrightarrow> int (length (contents b)) = Len b"
  by (auto simp: buf_inv_def contents_def buf_slice_def Len_def Cap_def min_def)

lemma Truncate_ok:
  assumes "buf_inv b" "0 \<le> n" "n \<le> Len b"
  shows "\<exists>b'. Truncate n b = Inr b' \<and> buf_inv b' \<and> contents b' = take (nat n) (contents b) \<and>
    buf_arr b' = buf_arr b \<and> (n = 0 \<longrightarrow> off b' = 0)"
  using assms
  by (auto simp: Truncate_def reslice_def Let_def buf_inv_def contents_def buf_slice_def Len_def Cap_def
      drop_take nat_add_distrib min_def)

lemma Truncate_out_of_range:
  "n < 0 \<or> n > Len b \<Longrightarrow> Truncate n b = Inl (Explicit ''bytes.Buffer: truncation out of range'')"
  by (auto simp: Truncate_def)

lemma contents_arr: "buf_inv b \<Longrightarrow> contents b = take (nat (Len b)) (drop (off b) (buf_arr b))"
  by (simp add: contents_def buf_slice_def buf_inv_def Len_def drop_take nat_diff_distrib)

lemma grow_room_ok:
  assumes inv: "buf_inv b" and n: "0 \<le> n"
  shows "\<exists>b'. grow_room (Len b) n b = Inr b' \<and>
     take (nat (Len b)) (drop (off b') (buf_arr b')) = contents b \<and> int (off b') + Len b + n \<le> int (Cap b')"
proof -
  have l: "length (contents b) = nat (Len b)" "0 \<le> Len b" "nat (Len b) \<le> buf_len b" "buf_len b \<le> Cap b"
    using length_contents [OF inv] inv by (auto simp: buf_inv_def Len_def)
  have s: "length (buf_slice b) = buf_len b" using l(4) by (simp add: buf_slice_def Cap_def)
  consider "int (buf_len b) + n \<le> int (Cap b)"
    | "int (buf_len b) + n > int (Cap b)" "Len b + n \<le> int (Cap b) div 2"
    | "int (buf_len b) + n > int (Cap b)" "\<not> Len b + n \<le> int (Cap b) div 2" by linarith
  then show ?thesis
  proof cases
    case 1
    then show ?thesis using contents_arr [OF inv] l by (simp add: grow_room_def Len_def)
  next
    case 2
    let ?b = "\<lparr> buf_arr = go_copy (buf_slice b) (contents b) @ drop (buf_len b) (buf_arr b), buf_len = nat (Len b), off = 0 \<rparr>"
    have g: "grow_room (Len b) n b = Inr ?b" using 2 Bytes_contents [OF inv] by (simp add: grow_room_def)
    have "take (nat (Len b)) (buf_arr ?b) = contents b" using l s by (simp add: go_copy_short)
    moreover have "Cap ?b = Cap b" using l(4) s by (simp add: Cap_def)
    moreover have "Len b + n \<le> int (Cap b)" using 2(2) l(2) n by linarith
    ultimately show ?thesis using g by simp
  next
    case 3
    let ?l = "nat (2 * int (Cap b) + n)"
    let ?b = "\<lparr> buf_arr = go_copy (replicate ?l 0) (contents b), buf_len = ?l, off = 0 \<rparr>"
    have g: "grow_room (Len b) n b = Inr ?b" using 3 Bytes_contents [OF inv] by (simp add: grow_room_def Let_def)
    have le: "nat (Len b) \<le> ?l" using l n by linarith
    have "take (nat (Len b)) (buf_arr ?b) = contents b" using l(1) le by (simp add: go_copy_short)
    moreover have "Len b + n \<le> int (Cap ?b)" using l n by (simp add: Cap_def)
    ultimately show ?thesis using g by simp
  qed
qed

lemma grow_ok:
  assumes inv: "buf_inv b" and n: "0 \<le> n"
  shows "\<exists>m b'. grow n b = Inr (m, b') \<and> buf_inv b' \<and> m = off b' + length (contents b) \<and>
     buf_len b' = m + nat n \<and> take (length (contents b)) (contents b') = contents b"
proof -
  have l: "length (contents b) = nat (Len b)" "0 \<le> Len b"
    using length_contents [OF inv] inv by (auto simp: buf_inv_def Len_def)
  obtain b1 where 1: "(if Len b = 0 \<and> off b \<noteq> 0 then Truncate 0 b else Inr b) = Inr b1" "buf_inv b1"
    "contents b1 = contents b"
    using Truncate_ok [OF inv, of 0] inv l by (cases "Len b = 0 \<and> off b \<noteq> 0") auto
  have L1: "Len b1 = Len b" using length_contents [OF 1(2)] length_contents [OF inv] 1(3) by simp
  obtain b2 where 2: "grow_room (Len b) n b1 = Inr b2"
    "take (nat (Len b)) (drop (off b2) (buf_arr b2)) = contents b" "int (off b2) + Len b + n \<le> int (Cap b2)"
    using grow_room_ok [OF 1(2) n] L1 1(3) by auto
  let ?b = "b2 \<lparr> buf_len := off b2 + nat (Len b) + nat n \<rparr>"
  have r: "reslice (int (off b2) + Len b + n) b2 = Inr ?b"
    using 2(3) l(2) n by (simp add: reslice_def nat_add_distrib)
  have g: "grow n b = Inr (off b2 + nat (Len b), ?b)"
    using 1(1) 2(1) r l(2) by (simp add: grow_def Let_def nat_add_distrib)
  have inv': "buf_inv ?b" using 2(3) l(2) n by (simp add: buf_inv_def Cap_def)
  have "take (length (contents b)) (contents ?b) = contents b"
    using contents_arr [OF inv'] 2(2) l by (simp add: Len_def nat_add_distrib)
  then show ?thesis using g inv' l(1) by simp
qed

lemma fill_ok:
  assumes "buf_inv b" "off b \<le> m" "m + length p = buf_len b"
  shows "buf_inv (fill m p b)" "contents (fill m p b) = take (m - off b) (contents b) @ p"
proof -
  have t: "length (tail_slice m b) = length p" "length (buf_arr b) \<ge> buf_len b"
    using assms by (simp_all add: tail_slice_def buf_slice_def buf_inv_def Cap_def)
  then have f: "buf_arr (fill m p b) = take m (buf_arr b) @ p @ drop (buf_len b) (buf_arr b)"
    by (simp add: fill_def)
  have k: "buf_len (fill m p b) = buf_len b" "off (fill m p b) = off b" by (simp_all add: fill_def)
  have m: "m \<le> length (buf_arr b)" using t(2) assms(3) by simp
  show "buf_inv (fill m p b)" using assms t(2) f k by (simp add: buf_inv_def Cap_def)
  have "buf_slice (fill m p b) = take m (buf_arr b) @ p"
    using f k m assms(3) by (simp add: buf_slice_def)
  moreover have "take (m - off b) (contents b) = drop (off b) (take m (buf_arr b))"
    using assms(2,3) by (simp add: contents_def buf_slice_def take_drop min_def)
  ultimately show "contents (fill m p b) = take (m - off b) (contents b) @ p"
    using k m assms(2) by (simp add: contents_def)
qed

lemma Extend_fill:
  assumes "buf_inv b" "0 \<le> n"
  shows "\<exists>m b'. Extend n b = Inr (m, b') \<and> length (tail_slice m b') = nat n \<and>
    (\<forall>p. length p = nat n \<longrightarrow> buf_inv (fill m p b') \<and> contents (fill m p b') = contents b @ p)"
proof -
  obtain m b' where g: "grow n b = Inr (m, b')" "buf_inv b'" "m = off b' + length (contents b)"
    "buf_len b' = m + nat n" "take (length (contents b)) (contents b') = contents b"
    using grow_ok [OF assms] by auto
  then have "Extend n b = Inr (m, b')" "length (tail_slice m b') = nat n"
    by (simp_all add: Extend_def tail_slice_def buf_slice_def buf_inv_def Cap_def)
  moreover have "buf_inv (fill m p b')" "contents (fill m p b') = contents b @ p" if "length p = nat n" for p
    using fill_ok [OF g(2), of m p] g that by simp_all
  ultimately show ?thesis by blast
qed

lemma Write_ok:
  assumes "buf_inv b"
  shows "\<exists>b'. Write p b = Inr (length p, b') \<and> buf_inv b' \<and> contents b' = contents b @ p"
proof -
  obtain m b' where g: "grow (int (length p)) b = Inr (m, b')" "buf_inv b'" "m = off b' + length (contents b)"
    "buf_len b' = m + length p" "take (length (contents b)) (contents b') = contents b"
    using grow_ok [OF assms, of "int (length p)"] by auto
  then show ?thesis using fill_ok [OF g(2), of m p] by (simp add: Write_def)
qed

lemma Read_ok:
  assumes inv: "buf_inv b"
  shows "\<exists>p' b'. Read p b = Inr (p', min (length p) (length (contents b)), contents b = [] \<and> p \<noteq> [], b') \<and>
    buf_inv b' \<and> p' = go_copy p (contents b) \<and> contents b' = drop (length p) (contents b)"
proof (cases "off b \<ge> buf_len b")
  case True
  then have c: "contents b = []" by (simp add: contents_def buf_slice_def)
  then have "Len b = 0" using length_contents [OF inv] by simp
  then show ?thesis using True Truncate_ok [OF inv, of 0] c by (auto simp: Read_def go_copy_def)
next
  case False
  then have "contents b \<noteq> []" using inv by (auto simp: contents_def buf_slice_def buf_inv_def Cap_def)
  moreover have "contents (b \<lparr> off := off b + min (length p) (length (contents b)) \<rparr>) = drop (length p) (contents b)"
    by (simp add: contents_def buf_slice_def min_def add.commute)
  moreover have "buf_inv (b \<lparr> off := off b + min (length p) (length (contents b)) \<rparr>)"
    using inv False by (auto simp: buf_inv_def contents_def buf_slice_def Cap_def min_def)
  ultimately show ?thesis using False by (simp add: Read_def contents_def [symmetric] Let_def)
qed

lemma Next_ok:
  assumes inv: "buf_inv b" and n: "0 \<le> n"
  shows "\<exists>b'. Next n b = Inr (take (nat n) (contents b), b') \<and> buf_inv b' \<and> contents b' = drop (nat n) (contents b)"
proof -
  let ?n = "nat (if n > Len b then Len b else n)"
  have l: "length (contents b) = nat (Len b)" "0 \<le> Len b" "off b + ?n \<le> buf_len b" "buf_len b \<le> Cap b"
    using length_contents [OF inv] inv n by (auto simp: buf_inv_def Len_def)
  have t: "take ?n (contents b) = take (nat n) (contents b)" "drop ?n (contents b) = drop (nat n) (contents b)"
    using l(1,2) by auto
  have "take ?n (drop (off b) (buf_arr b)) = take ?n (contents b)"
    using contents_arr [OF inv] l(2) n by (simp add: min_def)
  moreover have "contents (b \<lparr> off := off b + ?n \<rparr>) = drop ?n (contents b)"
    by (simp add: contents_def buf_slice_def add.commute)
  moreover have "buf_inv (b \<lparr> off := off b + ?n \<rparr>)" using l by (simp add: buf_inv_def Cap_def)
  ultimately show ?thesis using l n t by (simp add: Next_def Let_def)
qed

lemma Grow_ok:
  assumes inv: "buf_inv b" and n: "0 \<le> n"
  shows "\<exists>b'. Grow n b = Inr b' \<and> buf_inv b' \<and> contents b' = contents b \<and> int (buf_len b') + n \<le> int (Cap b')"
proof -
  obtain m b1 where g: "grow n b = Inr (m, b1)" "buf_inv b1" "m = off b1 + length (contents b)"
    "buf_len b1 = m + nat n" "take (length (contents b)) (contents b1) = contents b"
    using grow_ok [OF inv n] by blast
  let ?b = "b1 \<lparr> buf_len := m \<rparr>"
  have "m \<le> Cap b1" "int m + n \<le> int (Cap b1)" using g(2,4) n by (auto simp: buf_inv_def)
  moreover have "contents ?b = contents b"
    using g(3,4,5) by (simp add: contents_def buf_slice_def take_drop min_def add.commute)
  ultimately show ?thesis using g n by (intro exI [of _ ?b]) (simp add: Grow_def reslice_def buf_inv_def Cap_def)
qed

section \<open>The abstract buffer: a queue of bytes\<close>

datatype bq_op = Put bytes | Get nat

text \<open>
  A run of writes and reads. \<open>put\<close> returns the count and \<open>get\<close> the bytes it handed over; the
  result is everything read, in order, and the buffer at the end.
\<close>

fun bq_run :: "(bytes \<Rightarrow> 's \<Rightarrow> (nat \<times> 's) res) \<Rightarrow> (nat \<Rightarrow> 's \<Rightarrow> (bytes \<times> 's) res) \<Rightarrow>
    bq_op list \<Rightarrow> 's \<Rightarrow> (bytes \<times> 's) res" where
  "bq_run put get [] s = Inr ([], s)"
| "bq_run put get (Put p # ops) s = bind_res (put p s) (\<lambda>(n, s). bq_run put get ops s)"
| "bq_run put get (Get n # ops) s =
     bind_res (get n s) (\<lambda>(p, s). bind_res (bq_run put get ops s) (\<lambda>(q, s). Inr (p @ q, s)))"

fun written :: "bq_op list \<Rightarrow> bytes" where
  "written [] = []"
| "written (Put p # ops) = p @ written ops"
| "written (Get n # ops) = written ops"

locale byte_queue =
  fixes inv :: "'s \<Rightarrow> bool" and cont :: "'s \<Rightarrow> bytes"
    and put :: "bytes \<Rightarrow> 's \<Rightarrow> (nat \<times> 's) res" and get :: "nat \<Rightarrow> 's \<Rightarrow> (bytes \<times> 's) res"
  assumes put_law: "inv s \<Longrightarrow> \<exists>s'. put p s = Inr (length p, s') \<and> inv s' \<and> cont s' = cont s @ p"
    and get_law: "inv s \<Longrightarrow> \<exists>s'. get n s = Inr (take n (cont s), s') \<and> inv s' \<and> cont s' = drop n (cont s)"
begin

text \<open>First in, first out, for every interleaving of writes and reads.\<close>

lemma fifo: "inv s \<Longrightarrow> \<exists>out s'. bq_run put get ops s = Inr (out, s') \<and> inv s' \<and>
  out @ cont s' = cont s @ written ops"
proof (induction ops arbitrary: s)
  case (Cons op ops)
  show ?case
  proof (cases op)
    case (Put p)
    obtain s1 where "put p s = Inr (length p, s1)" "inv s1" "cont s1 = cont s @ p"
      using put_law [OF Cons.prems] by blast
    then show ?thesis using Cons.IH [of s1] Put by auto
  next
    case (Get n)
    obtain s1 where 1: "get n s = Inr (take n (cont s), s1)" "inv s1" "cont s1 = drop n (cont s)"
      using get_law [OF Cons.prems] by blast
    obtain out s' where 2: "bq_run put get ops s1 = Inr (out, s')" "inv s'" "out @ cont s' = cont s1 @ written ops"
      using Cons.IH [OF 1(2)] by blast
    have "(take n (cont s) @ out) @ cont s' = cont s @ written ops"
      using 1(3) 2(3) by (metis append.assoc append_take_drop_id)
    then show ?thesis using Get 1(1) 2(1,2) by auto
  qed
qed simp

lemma put_get:
  assumes "inv s" "cont s = []"
  shows "\<exists>s'. bind_res (put p s) (\<lambda>(_, s). get (length p) s) = Inr (p, s') \<and> inv s' \<and> cont s' = []"
proof -
  obtain s1 where 1: "put p s = Inr (length p, s1)" "inv s1" "cont s1 = p"
    using put_law [OF assms(1), of p] assms(2) by auto
  then show ?thesis using get_law [OF 1(2), of "length p"] by auto
qed

end

text \<open>\<open>Read\<close> into a fresh slice of \<open>n\<close> bytes, as seen by the caller.\<close>

definition buf_get :: "nat \<Rightarrow> Buffer \<Rightarrow> (bytes \<times> Buffer) res" where
  "buf_get n b = bind_res (Read (replicate n 0) b) (\<lambda>(p, c, eof, b). Inr (take c p, b))"

interpretation buf: byte_queue buf_inv contents Write buf_get
proof
  fix b :: Buffer and p :: bytes and n :: nat
  assume "buf_inv b"
  then show "\<exists>b'. Write p b = Inr (length p, b') \<and> buf_inv b' \<and> contents b' = contents b @ p"
    by (rule Write_ok)
  show "\<exists>b'. buf_get n b = Inr (take n (contents b), b') \<and> buf_inv b' \<and> contents b' = drop n (contents b)"
    using Read_ok [OF \<open>buf_inv b\<close>, of "replicate n 0"] by (auto simp: buf_get_def go_copy_def min_def)
qed

lemma Buffer0_inv: "buf_inv Buffer0" "contents Buffer0 = []"
  by (simp_all add: buf_inv_def Buffer0_def contents_def buf_slice_def Cap_def)

end
