(* ===== verification/Go_Chan.thy ===== *)
theory Go_Chan
  imports Kcp_Prelude
begin

text \<open>
  Buffered Go channels, as far as the program uses them: a bounded queue that can be closed
  once. A send that may not block is a \<open>select\<close> with a \<open>default\<close> case; \<open>close\<close> of a closed
  channel and a send on one are run-time panics.
\<close>

record 'a chan =
  ch_items :: "'a list"
  ch_cap :: nat
  ch_closed :: bool

definition make_chan :: "nat \<Rightarrow> 'a chan" where
  "make_chan c = \<lparr> ch_items = [], ch_cap = c, ch_closed = False \<rparr>"

text \<open>\<open>select { case ch <- v: ... default: ... }\<close>: whether the send happened.\<close>

definition try_send :: "'a \<Rightarrow> 'a chan \<Rightarrow> (bool \<times> 'a chan) res" where
  "try_send v c =
     (if ch_closed c then Inl SendOnClosedChannel
      else if length (ch_items c) < ch_cap c then Inr (True, c \<lparr> ch_items := ch_items c @ [v] \<rparr>)
      else Inr (False, c))"

text \<open>A receive that is ready: \<open>None\<close> when it would block, \<open>Some None\<close> is the zero value of a closed channel.\<close>

definition try_recv :: "'a chan \<Rightarrow> ('a option \<times> 'a chan) option" where
  "try_recv c =
     (case ch_items c of
        v # vs \<Rightarrow> Some (Some v, c \<lparr> ch_items := vs \<rparr>)
      | [] \<Rightarrow> if ch_closed c then Some (None, c) else None)"

definition close_chan :: "'a chan \<Rightarrow> 'a chan res" where
  "close_chan c = (if ch_closed c then Inl CloseOfClosedChannel else Inr (c \<lparr> ch_closed := True \<rparr>))"

definition chan_ok :: "'a chan \<Rightarrow> bool" where
  "chan_ok c \<longleftrightarrow> length (ch_items c) \<le> ch_cap c"

lemma make_chan_ok [simp]: "chan_ok (make_chan c)"
  by (simp add: chan_ok_def make_chan_def)

lemma try_send_ok: "chan_ok c \<Longrightarrow> try_send v c = Inr (b, c') \<Longrightarrow> chan_ok c'"
  by (auto simp: chan_ok_def try_send_def split: if_splits)

lemma try_recv_ok: "chan_ok c \<Longrightarrow> try_recv c = Some (v, c') \<Longrightarrow> chan_ok c'"
  by (auto simp: chan_ok_def try_recv_def split: list.splits if_splits)

lemma try_recv_closed: "try_recv c = Some (v, c') \<Longrightarrow> ch_closed c' = ch_closed c"
  by (auto simp: try_recv_def split: list.splits if_splits)

lemma try_send_recv:
  assumes "ch_items c = []" "0 < ch_cap c" "\<not> ch_closed c"
  shows "\<exists>c'. try_send v c = Inr (True, c') \<and> try_recv c' = Some (Some v, c)"
  using assms by (simp add: try_send_def try_recv_def)

lemma close_twice: "close_chan c = Inr c' \<Longrightarrow> close_chan c' = Inl CloseOfClosedChannel"
  by (auto simp: close_chan_def split: if_splits)

end
