(* ===== verification/Kcp_Conn.thy ===== *)
theory Kcp_Conn
  imports Kcp_Delivery Byte_Buffer Go_Chan
begin

text \<open>
  The connection \<open>KCPConn\<close> of \<open>go/kcp/kcpconn.go\<close>: a control object, a read buffer, the channels
  that wake its goroutines, and the operations on them.

  What runs under the mutex \<open>mu\<close> is one atomic operation here. A call that blocks is cut at its
  \<open>select\<close>: \<open>Read\<close> and \<open>Write\<close> are loops whose rounds are \<open>Read_iter\<close> and \<open>Write_iter\<close>, the \<open>select\<close>
  at the end of a round is \<open>read_wake\<close> and \<open>write_wake\<close>; the goroutine \<open>run\<close> is a state machine with
  one state per \<open>select\<close> and per loop head.

  Times are \<open>time.Time\<close> in nanoseconds, with \<open>None\<close> for the zero time. An operation takes what its
  calls of \<open>time.Now\<close> return as arguments. The packet socket is a parameter, the link: whether
  its \<open>WriteTo\<close> accepts the \<open>i\<close>-th packet handed to it.
\<close>

section \<open>State\<close>

type_synonym link = "nat \<Rightarrow> bytes \<Rightarrow> bool"

record KCPConn =
  c_kcp :: KCP
  c_listener :: bool            \<comment> \<open>\<open>listener != nil\<close>\<close>
  c_isClient :: bool
  c_conn :: bool                \<comment> \<open>\<open>conn != nil\<close>\<close>
  c_remoteAddr :: string
  c_deadlineRead :: "int option"
  c_deadlineWrite :: "int option"
  c_bufRead :: Buffer
  c_die :: "unit chan"
  c_chReadEvent :: "unit chan"
  c_chWriteEvent :: "unit chan"
  c_chKcpFlushEvent :: "unit chan"
  c_chUdpInput :: "bytes chan"
  c_keepAliveInterval :: int

definition defaultWndSize :: int where "defaultWndSize = 128"
definition rxQueueLimit :: nat where "rxQueueLimit = 8192"
definition defaultKeepAliveInterval :: int where "defaultKeepAliveInterval = 10"

definition newKCPConn :: KCPConn where
  "newKCPConn =
     (let k = newKCP;
          k = snd (setWndSize defaultWndSize defaultWndSize k);
          k = snd (setMtu IKCP_MTU_DEF k);
          k = k \<lparr> stream := 1, stats := KcpConnStats0 \<rparr>
      in \<lparr> c_kcp = k, c_listener = False, c_isClient = False, c_conn = False, c_remoteAddr = [],
           c_deadlineRead = None, c_deadlineWrite = None, c_bufRead = Buffer0,
           c_die = make_chan 0, c_chReadEvent = make_chan 1, c_chWriteEvent = make_chan 1,
           c_chKcpFlushEvent = make_chan 1, c_chUdpInput = make_chan rxQueueLimit,
           c_keepAliveInterval = defaultKeepAliveInterval \<rparr>)"

definition currentTickMs :: "int \<Rightarrow> u32" where
  "currentTickMs now = to_uint32 (go_div now 1000000)"

section \<open>Counters and output\<close>

text \<open>The pairs of counters, of the connection and of the package, that the connection layer adds to.\<close>

definition count_rx :: "int \<Rightarrow> KCP \<Rightarrow> KCP" where
  "count_rx n k = k \<lparr> stats := (stats k) \<lparr> ByteRx := ByteRx (stats k) + n \<rparr>,
                      gstats := (gstats k) \<lparr> g_ByteRx := g_ByteRx (gstats k) + n \<rparr> \<rparr>"

definition count_tx :: "int \<Rightarrow> KCP \<Rightarrow> KCP" where
  "count_tx n k = k \<lparr> stats := (stats k) \<lparr> ByteTx := ByteTx (stats k) + n \<rparr>,
                      gstats := (gstats k) \<lparr> g_ByteTx := g_ByteTx (gstats k) + n \<rparr> \<rparr>"

definition count_in :: "int \<Rightarrow> KCP \<Rightarrow> KCP" where
  "count_in n k =
     k \<lparr> stats := (stats k) \<lparr> PacketIn := PacketIn (stats k) + 1, ByteIn := ByteIn (stats k) + n \<rparr>,
         gstats := (gstats k) \<lparr> g_PacketIn := g_PacketIn (gstats k) + 1, g_ByteIn := g_ByteIn (gstats k) + n \<rparr> \<rparr>"

definition count_err_input :: "KCP \<Rightarrow> KCP" where
  "count_err_input k = k \<lparr> stats := (stats k) \<lparr> ErrorInput := ErrorInput (stats k) + 1 \<rparr>,
                           gstats := (gstats k) \<lparr> g_ErrorInput := g_ErrorInput (gstats k) + 1 \<rparr> \<rparr>"

definition count_err_read :: "KCP \<Rightarrow> KCP" where
  "count_err_read k = k \<lparr> stats := (stats k) \<lparr> ErrorRead := ErrorRead (stats k) + 1 \<rparr>,
                          gstats := (gstats k) \<lparr> g_ErrorRead := g_ErrorRead (gstats k) + 1 \<rparr> \<rparr>"

text \<open>\<open>ok\<close>: \<open>WriteTo\<close> returned no error.\<close>

definition kcpOutput :: "bool \<Rightarrow> bytes \<Rightarrow> KCP \<Rightarrow> KCP" where
  "kcpOutput ok p k =
     (if ok
      then k \<lparr> stats := (stats k) \<lparr> PacketOut := PacketOut (stats k) + 1, ByteOut := ByteOut (stats k) + int (length p) \<rparr>,
               gstats := (gstats k) \<lparr> g_PacketOut := g_PacketOut (gstats k) + 1,
                                       g_ByteOut := g_ByteOut (gstats k) + int (length p) \<rparr> \<rparr>
      else k \<lparr> stats := (stats k) \<lparr> ErrorOutput := ErrorOutput (stats k) + 1 \<rparr>,
               gstats := (gstats k) \<lparr> g_ErrorOutput := g_ErrorOutput (gstats k) + 1 \<rparr> \<rparr>)"

fun kcpOutputs :: "link \<Rightarrow> nat \<Rightarrow> bytes list \<Rightarrow> KCP \<Rightarrow> KCP" where
  "kcpOutputs wt i [] k = k"
| "kcpOutputs wt i (p # ps) k = kcpOutputs wt (Suc i) ps (kcpOutput (wt i p) p k)"

text \<open>
  A call of the control object that may hand out packets. \<open>s.kcp.output = s.kcpOutput\<close> counts each
  of them; the counters it touches are none that the protocol reads, so it may count them after
  the call. Without a socket the callback is a nil dereference.
\<close>

definition kcp_call :: "link \<Rightarrow> (KCP \<Rightarrow> KCP res) \<Rightarrow> KCPConn \<Rightarrow> KCPConn res" where
  "kcp_call wt f s =
     bind_res (f (c_kcp s)) (\<lambda>k.
       let i = length (outputs (c_kcp s)); new = drop i (outputs k)
       in if new \<noteq> [] \<and> \<not> c_conn s then Inl NilPointer
          else Inr (s \<lparr> c_kcp := kcpOutputs wt i new k \<rparr>))"

section \<open>Events\<close>

definition notifyReadEvent :: "KCPConn \<Rightarrow> KCPConn res" where
  "notifyReadEvent s = bind_res (try_send () (c_chReadEvent s)) (\<lambda>(_, c). Inr (s \<lparr> c_chReadEvent := c \<rparr>))"

definition notifyWriteEvent :: "KCPConn \<Rightarrow> KCPConn res" where
  "notifyWriteEvent s = bind_res (try_send () (c_chWriteEvent s)) (\<lambda>(_, c). Inr (s \<lparr> c_chWriteEvent := c \<rparr>))"

definition notifyFlushEvent :: "KCPConn \<Rightarrow> KCPConn res" where
  "notifyFlushEvent s = bind_res (try_send () (c_chKcpFlushEvent s)) (\<lambda>(_, c). Inr (s \<lparr> c_chKcpFlushEvent := c \<rparr>))"

section \<open>Opening and closing\<close>

text \<open>\<open>lst\<close>: whether the connection belongs to a listener (\<open>l != nil\<close>).\<close>

definition accept :: "u32 \<Rightarrow> bool \<Rightarrow> string \<Rightarrow> KCPConn \<Rightarrow> KCPConn" where
  "accept cv lst remote s =
     s \<lparr> c_listener := lst, c_isClient := False, c_conn := True, c_remoteAddr := remote,
         c_kcp := (c_kcp s) \<lparr> conv := cv,
                    gstats := (gstats (c_kcp s)) \<lparr> g_TotalAccept := g_TotalAccept (gstats (c_kcp s)) + 1 \<rparr> \<rparr> \<rparr>"

text \<open>\<open>connect\<close>: the part before the goroutines are started, the handshake, and the wait at its end.\<close>

definition connect_open :: "u32 \<Rightarrow> string \<Rightarrow> KCPConn \<Rightarrow> KCPConn" where
  "connect_open cv remote s =
     s \<lparr> c_isClient := True, c_conn := True, c_remoteAddr := remote,
         c_kcp := (c_kcp s) \<lparr> conv := cv,
                    gstats := (gstats (c_kcp s)) \<lparr> g_TotalConnect := g_TotalConnect (gstats (c_kcp s)) + 1 \<rparr> \<rparr> \<rparr>"

definition connect_flush :: "link \<Rightarrow> int \<Rightarrow> KCPConn \<Rightarrow> KCPConn res" where
  "connect_flush wt now s = kcp_call wt (sendConnectFlush (currentTickMs now)) s"

definition connect_wait :: "KCPConn \<Rightarrow> KCPConn option" where
  "connect_wait s = map_option (\<lambda>(_, c). s \<lparr> c_chWriteEvent := c \<rparr>) (try_recv (c_chWriteEvent s))"

definition closeInternal :: "link \<Rightarrow> int \<Rightarrow> KCPConn \<Rightarrow> (conn_err option \<times> KCPConn) res" where
  "closeInternal wt now s =
     (if \<not> c_conn s \<or> isStateLocalClosed (c_kcp s) then Inr (Some ErrBrokenPipe, s)
      else bind_res (close_chan (c_die s)) (\<lambda>d.
           bind_res (kcp_call wt (sendCloseFlush (currentTickMs now)) (s \<lparr> c_die := d \<rparr>)) (\<lambda>s.
           Inr (None, s))))"

definition Close :: "link \<Rightarrow> int \<Rightarrow> KCPConn \<Rightarrow> (conn_err option \<times> KCPConn) res" where
  "Close wt now s = closeInternal wt now s"

section \<open>Read\<close>

lemma recv_shrinks:
  assumes "recv buf k = Inr (n, p, k')" "rcv_queue k \<noteq> []"
  shows "length (rcv_queue k') + length (rcv_buf k') < length (rcv_queue k) + length (rcv_buf k)"
proof -
  obtain buf' m c where r: "recv_merge (rcv_queue k) buf = Inr (buf', m, c)"
    and k': "k' = move_ready (k \<lparr> rcv_queue := drop c (rcv_queue k) \<rparr>) \<or>
      (\<exists>x. k' = (move_ready (k \<lparr> rcv_queue := drop c (rcv_queue k) \<rparr>)) \<lparr> probe := x \<rparr>)"
    using assms(1) by (auto simp: recv_def bind_res_eq_Inr Let_def split: if_splits)
  have "0 < c" using r assms(2) by (cases "rcv_queue k") (auto simp: bind_res_eq_Inr Let_def split: if_splits)
  moreover have "length (rcv_queue (move_ready q)) + length (rcv_buf (move_ready q)) = length (rcv_queue q) + length (rcv_buf q)" for q
    by (simp add: move_ready_def Let_def min_def)
  ultimately show ?thesis using k' assms(2) by (auto simp: diff_less)
qed

lemma recvSize_queue: "recvSize k = (n, k') \<Longrightarrow> rcv_queue k' = rcv_queue k \<and> rcv_buf k' = rcv_buf k"
  by (auto simp: recvSize_def split: list.splits if_splits)

lemma recvSize_pos: "recvSize k = (n, k') \<Longrightarrow> 0 < n \<Longrightarrow> rcv_queue k \<noteq> []"
  by (auto simp: recvSize_def)

lemma fill_round_shrinks:
  assumes "recvSize k = (n, k1)" "\<not> n \<le> 0" "recv buf k1 = Inr (r, p, k2)"
  shows "length (rcv_queue (count_rx n k2)) + length (rcv_buf (count_rx n k2)) < length (rcv_queue k) + length (rcv_buf k)"
  using recv_shrinks [OF assms(3)] recvSize_queue [OF assms(1)] recvSize_pos [OF assms(1)] assms(2)
  by (auto simp: count_rx_def)

text \<open>Lines 169 to 178: everything that is complete goes to the read buffer.\<close>

function fill_bufRead :: "KCP \<Rightarrow> Buffer \<Rightarrow> (KCP \<times> Buffer) res" where
  "fill_bufRead k b =
     (case recvSize k of (n, k) \<Rightarrow>
        if n \<le> 0 then Inr (k, b)
        else bind_res (Extend n b) (\<lambda>(m, b).
             bind_res (recv (tail_slice m b) k) (\<lambda>(r, p, k).
               fill_bufRead (count_rx n k) (fill m p b))))"
  by pat_completeness auto

termination
  by (relation "measure (\<lambda>(k, b). length (rcv_queue k) + length (rcv_buf k))") (auto dest: fill_round_shrinks [OF sym])

declare fill_bufRead.simps [simp del]

text \<open>A round of \<open>Read\<close> returns (the caller's slice, the count, the error) or waits (with a timer).\<close>

datatype read_out = ReadRet bytes nat "conn_err option" | ReadWait "int option"

definition Read_fill :: "nat \<Rightarrow> KCPConn \<Rightarrow> KCPConn res" where
  "Read_fill len s =
     (if Len (c_bufRead s) < int len
      then bind_res (fill_bufRead (c_kcp s) (c_bufRead s)) (\<lambda>(k, bf). Inr (s \<lparr> c_kcp := k, c_bufRead := bf \<rparr>))
      else Inr s)"

definition Read_close :: "link \<Rightarrow> int \<Rightarrow> KCPConn \<Rightarrow> KCPConn res" where
  "Read_close wt now s =
     (if shouldClose (c_kcp s) then bind_res (closeInternal wt now s) (\<lambda>(_, s). Inr s) else Inr s)"

definition Read_result :: "int \<Rightarrow> bytes \<Rightarrow> KCPConn \<Rightarrow> (read_out \<times> KCPConn) res" where
  "Read_result now b s =
     (if Len (c_bufRead s) > 0
      then bind_res (Read b (c_bufRead s)) (\<lambda>(p, n, eof, bf).
             Inr (ReadRet p n (if eof then Some ErrEOF else None), s \<lparr> c_bufRead := bf \<rparr>))
      else if isStateLocalClosed (c_kcp s) then Inr (ReadRet b 0 (Some ErrEOF), s)
      else case c_deadlineRead s of
             None \<Rightarrow> Inr (ReadWait None, s)
           | Some d \<Rightarrow> if d - now \<le> 0 then Inr (ReadRet b 0 (Some ErrTimeout), s)
                       else Inr (ReadWait (Some (d - now)), s))"

definition Read_iter :: "link \<Rightarrow> int \<Rightarrow> int \<Rightarrow> bytes \<Rightarrow> KCPConn \<Rightarrow> (read_out \<times> KCPConn) res" where
  "Read_iter wt now1 now2 b s =
     bind_res (Read_fill (length b) s) (\<lambda>s.
     bind_res (Read_close wt now1 s) (\<lambda>s.
     Read_result now2 b s))"

text \<open>
  The \<open>select\<close> that ends a round, with the timer it was entered with: \<open>None\<close> when the case is not
  ready. A timer may have fired at any later time.
\<close>

datatype wake = WakeEvent | WakeDeadline | WakeDie

fun read_wake :: "wake \<Rightarrow> int option \<Rightarrow> KCPConn \<Rightarrow> KCPConn option" where
  "read_wake WakeEvent timeout s = map_option (\<lambda>(_, c). s \<lparr> c_chReadEvent := c \<rparr>) (try_recv (c_chReadEvent s))"
| "read_wake WakeDeadline timeout s = (if timeout = None then None else Some s)"
| "read_wake WakeDie timeout s = map_option (\<lambda>(_, c). s \<lparr> c_die := c \<rparr>) (try_recv (c_die s))"

section \<open>Write\<close>

definition canKcpSendInternal :: "KCPConn \<Rightarrow> bool" where
  "canKcpSendInternal s \<longleftrightarrow> waitSnd (c_kcp s) < unat (snd_wnd (c_kcp s)) \<and> isStateConnected (c_kcp s)"

datatype write_out = WriteRet nat "conn_err option" | WriteWait "int option"

definition Write_send :: "bytes \<Rightarrow> KCPConn \<Rightarrow> (write_out \<times> KCPConn) res" where
  "Write_send b s =
     bind_res (send b (c_kcp s)) (\<lambda>(ret, k).
       if ret < 0 then Inl (Explicit ''internal bug, kcp send'')
       else let s = s \<lparr> c_kcp := count_tx (int (length b)) k \<rparr>
            in bind_res (if sndBufAvail (c_kcp s) > 0 then notifyFlushEvent s else Inr s) (\<lambda>s.
               Inr (WriteRet (length b) None, s)))"

definition Write_iter :: "int \<Rightarrow> bytes \<Rightarrow> KCPConn \<Rightarrow> (write_out \<times> KCPConn) res" where
  "Write_iter now b s =
     (if isStateLocalClosed (c_kcp s) then Inr (WriteRet 0 (Some ErrBrokenPipe), s)
      else if canKcpSendInternal s then Write_send b s
      else case c_deadlineWrite s of
             None \<Rightarrow> Inr (WriteWait None, s)
           | Some d \<Rightarrow> if d - now \<le> 0 then Inr (WriteRet 0 (Some ErrTimeout), s)
                       else Inr (WriteWait (Some (d - now)), s))"

fun write_wake :: "wake \<Rightarrow> int option \<Rightarrow> KCPConn \<Rightarrow> KCPConn option" where
  "write_wake WakeEvent timeout s = map_option (\<lambda>(_, c). s \<lparr> c_chWriteEvent := c \<rparr>) (try_recv (c_chWriteEvent s))"
| "write_wake WakeDeadline timeout s = (if timeout = None then None else Some s)"
| "write_wake WakeDie timeout s = map_option (\<lambda>(_, c). s \<lparr> c_die := c \<rparr>) (try_recv (c_die s))"

section \<open>Datagrams\<close>

text \<open>Lines 310 to 313 and lines 315 to 318.\<close>

definition input_greet :: "link \<Rightarrow> int \<Rightarrow> bool \<Rightarrow> KCPConn \<Rightarrow> KCPConn res" where
  "input_greet wt now alreadyConnected s =
     (if \<not> alreadyConnected \<and> isStateConnected (c_kcp s)
      then bind_res (kcp_call wt (sendConnectFlush (currentTickMs now)) s) notifyWriteEvent
      else Inr s)"

definition input_notify :: "KCPConn \<Rightarrow> KCPConn res" where
  "input_notify s =
     (let (n, k) = recvSize (c_kcp s); s = s \<lparr> c_kcp := k \<rparr>
      in if n > 0 \<or> shouldClose (c_kcp s) then notifyReadEvent s else Inr s)"

definition doKcpInput :: "link \<Rightarrow> int \<Rightarrow> int \<Rightarrow> bytes \<Rightarrow> KCPConn \<Rightarrow> KCPConn res" where
  "doKcpInput wt now1 now2 data s =
     (let alreadyConnected = isStateConnected (c_kcp s)
      in bind_res (input (currentTickMs now1) data True (c_kcp s)) (\<lambda>(ret, k).
         bind_res (input_greet wt now2 alreadyConnected (s \<lparr> c_kcp := (if ret \<noteq> 0 then count_err_input k else k) \<rparr>)) (\<lambda>s.
         bind_res (input_notify s) (\<lambda>s.
         Inr (s \<lparr> c_kcp := count_in (int (length data)) (c_kcp s) \<rparr>)))))"

text \<open>
  A round of the client's receiving goroutine: what \<open>ReadFrom\<close> returned, and which ready case of
  its \<open>select\<close> is taken. The result says whether the goroutine goes on.
\<close>

datatype recv_result = RecvOk bytes | RecvErr

definition client_recv :: "recv_result \<Rightarrow> bool \<Rightarrow> KCPConn \<Rightarrow> (bool \<times> KCPConn) res option" where
  "client_recv r use_die s =
     (case r of
        RecvErr \<Rightarrow> Some (Inr (False, s \<lparr> c_kcp := count_err_read (c_kcp s) \<rparr>))
      | RecvOk data \<Rightarrow>
          if use_die
          then map_option (\<lambda>(_, c). Inr (True, s \<lparr> c_die := c \<rparr>)) (try_recv (c_die s))
          else (case try_send data (c_chUdpInput s) of
                  Inl e \<Rightarrow> Some (Inl e)
                | Inr (done, c) \<Rightarrow> if done then Some (Inr (True, s \<lparr> c_chUdpInput := c \<rparr>)) else None))"

section \<open>The goroutine \<open>run\<close>\<close>

text \<open>
  Its local variables and where it is: at the head of the main loop, in its \<open>select\<close>, at the head
  of the closing loop, in its \<open>select\<close>, past the loops, or returned.
\<close>

datatype run_pc = MainHead | MainSelect | CloseHead | CloseSelect | Finishing | Returned

record runner =
  r_pc :: run_pc
  updateDelay :: int
  doKcpFlush :: bool
  closeWaitStartTime :: int
  dangling :: bool

definition updateDelayMax :: int where "updateDelayMax = 1000 * 1000000"
definition updateDelayMin :: int where "updateDelayMin = 10 * 1000000"

definition run_start :: "KCPConn \<Rightarrow> runner \<times> KCPConn" where
  "run_start s =
     (\<lparr> r_pc = MainHead, updateDelay = updateDelayMin, doKcpFlush = False, closeWaitStartTime = 0, dangling = True \<rparr>,
      s \<lparr> c_kcp := (c_kcp s) \<lparr> gstats := (gstats (c_kcp s)) \<lparr> g_ConnCurrent := g_ConnCurrent (gstats (c_kcp s)) + 1 \<rparr> \<rparr> \<rparr>)"

text \<open>
  Its first lines count connections. The high-water mark of the package is shared by all goroutines
  \<open>run\<close>; each of the three atomic operations is a step, on the pair of \<open>ConnCurrent\<close> and \<open>ConnMax\<close>.
\<close>

datatype count_pc = CountAdd | CountLoad int | CountCas int int | CountDone

fun count_step :: "count_pc \<Rightarrow> int \<times> int \<Rightarrow> count_pc \<times> int \<times> int" where
  "count_step CountAdd (cur, mx) = (CountLoad (cur + 1), cur + 1, mx)"
| "count_step (CountLoad connCurrent) (cur, mx) =
     (if connCurrent > mx then CountCas connCurrent mx else CountDone, cur, mx)"
| "count_step (CountCas connCurrent connMax) (cur, mx) =
     (CountDone, cur, if mx = connMax then connCurrent else mx)"
| "count_step CountDone g = (CountDone, g)"

text \<open>A schedule of the goroutines with these program counters.\<close>

fun count_run :: "nat list \<Rightarrow> count_pc list \<Rightarrow> int \<times> int \<Rightarrow> count_pc list \<times> int \<times> int" where
  "count_run [] pcs g = (pcs, g)"
| "count_run (i # is) pcs g = (case count_step (pcs ! i) g of (pc, g) \<Rightarrow> count_run is (pcs[i := pc]) g)"

text \<open>Undisturbed, they keep the maximum; two of them at once may lose it.\<close>

lemma count_sequential: "snd (count_run [0, 0, 0] [CountAdd] (cur, mx)) = (cur + 1, max (cur + 1) mx)"
  by (simp add: max_def)

lemma count_race:
  "count_run [0, 1, 0, 1, 0, 1] [CountAdd, CountAdd] (0, 0) = ([CountDone, CountDone], 2, 1)"
  by simp

text \<open>Lines 414 to 421: from the main loop to the closing loop.\<close>

definition run_leave :: "link \<Rightarrow> int \<Rightarrow> int \<Rightarrow> runner \<Rightarrow> KCPConn \<Rightarrow> (runner \<times> KCPConn) res" where
  "run_leave wt now1 now2 r s =
     (let s = s \<lparr> c_kcp := (c_kcp s) \<lparr> gstats := (gstats (c_kcp s)) \<lparr> g_ConnClosing := g_ConnClosing (gstats (c_kcp s)) + 1 \<rparr> \<rparr> \<rparr>
      in bind_res (if \<not> isStateLocalClosed (c_kcp s) then kcp_call wt (sendCloseFlush (currentTickMs now1)) s else Inr s) (\<lambda>s.
         Inr (r \<lparr> r_pc := CloseHead, closeWaitStartTime := now2, dangling := True \<rparr>, s)))"

definition clampDelay :: "int \<Rightarrow> int" where
  "clampDelay d =
     (let d = (if d > updateDelayMax then updateDelayMax else d)
      in if d < updateDelayMin then updateDelayMin else d)"

definition run_head :: "link \<Rightarrow> int \<Rightarrow> int \<Rightarrow> runner \<Rightarrow> KCPConn \<Rightarrow> (runner \<times> KCPConn) res" where
  "run_head wt now1 now2 r s =
     (if isAllOpen (c_kcp s)
      then let fl = (if sndBufAvail (c_kcp s) > 0 then True else doKcpFlush r)
           in bind_res (kcp_call wt (if fl then flush (currentTickMs now1) else update (currentTickMs now1)) s) (\<lambda>s.
              bind_res (if canKcpSendInternal s then notifyWriteEvent s else Inr s) (\<lambda>s.
              Inr (r \<lparr> r_pc := MainSelect, updateDelay := clampDelay (updateDelay r), doKcpFlush := False \<rparr>, s)))
      else run_leave wt now1 now2 r s)"

text \<open>The cases of the two \<open>select\<close> statements; \<open>None\<close> when the case is not ready.\<close>

datatype run_ev = EvUdp | EvFlush | EvTimer | EvDie

definition the_data :: "bytes option \<Rightarrow> bytes" where
  "the_data v = (case v of None \<Rightarrow> [] | Some d \<Rightarrow> d)"

fun run_select :: "link \<Rightarrow> int \<Rightarrow> int \<Rightarrow> run_ev \<Rightarrow> runner \<Rightarrow> KCPConn \<Rightarrow> (runner \<times> KCPConn) res option" where
  "run_select wt now1 now2 EvUdp r s =
     map_option (\<lambda>(v, c). bind_res (doKcpInput wt now1 now2 (the_data v) (s \<lparr> c_chUdpInput := c \<rparr>)) (\<lambda>s.
         Inr (r \<lparr> r_pc := MainHead, updateDelay := go_div (updateDelay r) 2 \<rparr>, s)))
       (try_recv (c_chUdpInput s))"
| "run_select wt now1 now2 EvFlush r s =
     map_option (\<lambda>(v, c). Inr (r \<lparr> r_pc := MainHead, doKcpFlush := True, updateDelay := go_div (updateDelay r) 2 \<rparr>,
                               s \<lparr> c_chKcpFlushEvent := c \<rparr>))
       (try_recv (c_chKcpFlushEvent s))"
| "run_select wt now1 now2 EvTimer r s =
     Some (Inr (r \<lparr> r_pc := MainHead, updateDelay := updateDelay r * 2 \<rparr>, s))"
| "run_select wt now1 now2 EvDie r s =
     map_option (\<lambda>(v, c). run_leave wt now1 now2 r (s \<lparr> c_die := c \<rparr>)) (try_recv (c_die s))"

definition run_close_head :: "link \<Rightarrow> int \<Rightarrow> int \<Rightarrow> runner \<Rightarrow> KCPConn \<Rightarrow> (runner \<times> KCPConn) res" where
  "run_close_head wt now1 now2 r s =
     bind_res (kcp_call wt (update (currentTickMs now1)) s) (\<lambda>s.
       let isRemoteClosed = isStateRemoteClosed (c_kcp s); isDead = isStateDead (c_kcp s);
           r = (if waitSnd (c_kcp s) > 0 \<or> \<not> isRemoteClosed then r \<lparr> updateDelay := 100 * 1000000 \<rparr>
                else r \<lparr> updateDelay := updateDelayMax, dangling := False \<rparr>);
           isCloseWaitTimeout = (\<bar>now2 - closeWaitStartTime r\<bar> \<ge> 5 * 1000000000)
       in Inr (r \<lparr> r_pc := (if isDead \<or> isCloseWaitTimeout then Finishing else CloseSelect) \<rparr>, s))"

fun run_close_select :: "link \<Rightarrow> int \<Rightarrow> int \<Rightarrow> run_ev \<Rightarrow> runner \<Rightarrow> KCPConn \<Rightarrow> (runner \<times> KCPConn) res option" where
  "run_close_select wt now1 now2 EvUdp r s =
     map_option (\<lambda>(v, c). bind_res (doKcpInput wt now1 now2 (the_data v) (s \<lparr> c_chUdpInput := c \<rparr>)) (\<lambda>s.
         Inr (r \<lparr> r_pc := CloseHead \<rparr>, s)))
       (try_recv (c_chUdpInput s))"
| "run_close_select wt now1 now2 EvTimer r s = Some (Inr (r \<lparr> r_pc := CloseHead \<rparr>, s))"
| "run_close_select wt now1 now2 _ r s = None"

text \<open>
  Lines 449 to 465. The client closes its socket; the server's connection first reports itself
  to the listener, unless the listener is closed (\<open>reported\<close>).
\<close>

definition run_finish :: "runner \<Rightarrow> KCPConn \<Rightarrow> runner \<times> KCPConn" where
  "run_finish r s =
     (let g = gstats (c_kcp s);
          g = g \<lparr> g_ConnCurrent := g_ConnCurrent g - 1, g_ConnClosing := g_ConnClosing g - 1,
                  g_TotalClose := g_TotalClose g + 1 \<rparr>;
          g = (if dangling r then g \<lparr> g_TotalCloseDangling := g_TotalCloseDangling g + 1 \<rparr> else g)
      in (r \<lparr> r_pc := Returned \<rparr>, s \<lparr> c_kcp := (c_kcp s) \<lparr> gstats := g \<rparr> \<rparr>))"

section \<open>Setters\<close>

definition SetDeadline :: "int option \<Rightarrow> KCPConn \<Rightarrow> KCPConn res" where
  "SetDeadline t s =
     bind_res (notifyReadEvent (s \<lparr> c_deadlineRead := t, c_deadlineWrite := t \<rparr>)) notifyWriteEvent"

definition SetReadDeadline :: "int option \<Rightarrow> KCPConn \<Rightarrow> KCPConn res" where
  "SetReadDeadline t s = notifyReadEvent (s \<lparr> c_deadlineRead := t \<rparr>)"

definition SetWriteDeadline :: "int option \<Rightarrow> KCPConn \<Rightarrow> KCPConn res" where
  "SetWriteDeadline t s = notifyWriteEvent (s \<lparr> c_deadlineWrite := t \<rparr>)"

definition SetWindowSize :: "int \<Rightarrow> int \<Rightarrow> KCPConn \<Rightarrow> KCPConn" where
  "SetWindowSize sndwnd rcvwnd s = s \<lparr> c_kcp := snd (setWndSize sndwnd rcvwnd (c_kcp s)) \<rparr>"

definition SetMtu :: "int \<Rightarrow> KCPConn \<Rightarrow> KCPConn" where
  "SetMtu m s = s \<lparr> c_kcp := snd (setMtu m (c_kcp s)) \<rparr>"

definition SetStreamMode :: "bool \<Rightarrow> KCPConn \<Rightarrow> KCPConn" where
  "SetStreamMode enable s = s \<lparr> c_kcp := (c_kcp s) \<lparr> stream := (if enable then 1 else 0) \<rparr> \<rparr>"

definition SetNoDelay :: "int \<Rightarrow> int \<Rightarrow> int \<Rightarrow> int \<Rightarrow> KCPConn \<Rightarrow> KCPConn" where
  "SetNoDelay nd iv resend nc s = s \<lparr> c_kcp := snd (setNoDelay nd iv resend nc (c_kcp s)) \<rparr>"

text \<open>The socket's own setter, where it has one, is a parameter.\<close>

definition SetReadBuffer :: "(int \<Rightarrow> conn_err option) option \<Rightarrow> int \<Rightarrow> KCPConn \<Rightarrow> conn_err option" where
  "SetReadBuffer nc n s =
     (if \<not> c_listener s then (case nc of Some f \<Rightarrow> f n | None \<Rightarrow> Some ErrInvalidOperation)
      else Some ErrInvalidOperation)"

definition SetWriteBuffer :: "(int \<Rightarrow> conn_err option) option \<Rightarrow> int \<Rightarrow> KCPConn \<Rightarrow> conn_err option" where
  "SetWriteBuffer nc n s =
     (if \<not> c_listener s then (case nc of Some f \<Rightarrow> f n | None \<Rightarrow> Some ErrInvalidOperation)
      else Some ErrInvalidOperation)"

definition SetKeepAlive :: "int \<Rightarrow> KCPConn \<Rightarrow> KCPConn" where
  "SetKeepAlive iv s = s \<lparr> c_keepAliveInterval := to_int32 iv \<rparr>"

definition GetConv :: "KCPConn \<Rightarrow> u32" where
  "GetConv s = conv (c_kcp s)"

text \<open>\<open>addr\<close> is what the socket's \<open>LocalAddr\<close> returns; without a socket the call panics.\<close>

definition LocalAddr :: "string \<Rightarrow> KCPConn \<Rightarrow> string res" where
  "LocalAddr addr s = (if c_conn s then Inr addr else Inl NilPointer)"

definition RemoteAddr :: "KCPConn \<Rightarrow> string" where
  "RemoteAddr s = c_remoteAddr s"

end
