(* ===== verification/Conn_Refine.thy ===== *)
theory Conn_Refine
  imports Kcp_Conn
begin

text \<open>
  The connection refines the control object: every operation of \<open>KCPConn\<close> is a sequence of
  operations of the control object within their contract. What the control object guarantees
  in every reachable state, and what two of them guarantee end to end, holds for connections.
\<close>

section \<open>Sequences of operations\<close>

fun is_flush :: "kcp_op \<Rightarrow> bool" where
  "is_flush (OpFlush c) = True"
| "is_flush (OpUpdate c) = True"
| "is_flush (OpConnect c) = True"
| "is_flush (OpClose c) = True"
| "is_flush _ = False"

text \<open>
  \<open>kcp_path P k w g f k'\<close>: from \<open>k\<close> to \<open>k'\<close> by operations that take \<open>w\<close> from the user, give \<open>g\<close> to the
  user, flush at most \<open>f\<close> times, and get datagrams of \<open>P\<close> only.
\<close>

inductive kcp_path :: "bytes set \<Rightarrow> KCP \<Rightarrow> bytes \<Rightarrow> bytes \<Rightarrow> nat \<Rightarrow> KCP \<Rightarrow> bool" for P k where
  path_refl: "kcp_path P k [] [] 0 k"
| path_step: "kcp_path P k w g f k1 \<Longrightarrow> op_ok op k1 \<Longrightarrow> (\<And>c p u. op = OpInput c p u \<Longrightarrow> p \<in> P) \<Longrightarrow>
    exec op k1 = Inr k2 \<Longrightarrow>
    kcp_path P k (w @ accepted op k1) (g @ taken op k1) (f + (if is_flush op then 1 else 0)) k2"

lemma path_op:
  assumes "op_ok op k" "\<And>c p u. op = OpInput c p u \<Longrightarrow> p \<in> P" "exec op k = Inr k'"
  shows "kcp_path P k (accepted op k) (taken op k) (if is_flush op then 1 else 0) k'"
  using path_step [OF path_refl assms] by simp

lemma path_trans:
  "kcp_path P k1 w' g' f' k2 \<Longrightarrow> kcp_path P k w g f k1 \<Longrightarrow> kcp_path P k (w @ w') (g @ g') (f + f') k2"
proof (induction rule: kcp_path.induct)
  case (path_step w' g' f' k2 op k3)
  from kcp_path.path_step [OF path_step.IH [OF path_step.prems] path_step.hyps(2-4)]
  show ?case by (simp add: add.assoc)
qed simp

lemma path_stats: "kcp_path P k [] [] 0 (k \<lparr> stats := x, gstats := y \<rparr>)"
  using path_op [of "OpStats x y" k P] by (simp add: accepted_def taken_def)

lemma path_then_stats: "kcp_path P k w g f k' \<Longrightarrow> kcp_path P k w g f (k' \<lparr> stats := x, gstats := y \<rparr>)"
  using path_trans [OF path_stats] by fastforce

lemma path_gstats: "kcp_path P k w g f k' \<Longrightarrow> kcp_path P k w g f (k' \<lparr> gstats := y \<rparr>)"
proof -
  have "k' \<lparr> gstats := y \<rparr> = k' \<lparr> stats := stats k', gstats := y \<rparr>" by simp
  then show "kcp_path P k w g f k' \<Longrightarrow> ?thesis" using path_then_stats by metis
qed

lemma path_mono: "kcp_path P k w g f k' \<Longrightarrow> P \<subseteq> Q \<Longrightarrow> kcp_path Q k w g f k'"
proof (induction rule: kcp_path.induct)
  case path_refl
  then show ?case by (simp add: kcp_path.path_refl)
next
  case (path_step w g f k1 op k2)
  then show ?case by (intro kcp_path.path_step) blast+
qed

lemma path_inv: "kcp_path P k w g f k' \<Longrightarrow> kcp_inv k \<Longrightarrow> kcp_inv k'"
proof (induction rule: kcp_path.induct)
  case (path_step w g f k1 op k2)
  then show ?case using exec_total by fastforce
qed

section \<open>What the operations leave of the packets and the sequence numbers\<close>

lemma flush_advance:
  assumes "kcp_inv k" "flush c k = Inr k'"
  shows "\<exists>n ps. n \<le> WND_MAX \<and> snd_nxt k' = snd_nxt k + of_nat n \<and> outputs k' = outputs k @ ps"
proof -
  have pre: "flush_pre k" and si: "snd_inv k" using assms(1) by (simp_all add: kcp_inv_def)
  have "flush_count k \<le> WND_MAX"
    using flush_count_span [OF si] calc_cwnd_le [OF si] by (cases "flush_count k = 0") auto
  moreover have "\<exists>ps. snd_nxt k' = snd_nxt k + of_nat (flush_count k) \<and> outputs k' = outputs k @ ps"
    using flush_ok [OF pre si, of c] assms(2) by auto
  ultimately show ?thesis by blast
qed

definition advances :: "nat \<Rightarrow> KCP \<Rightarrow> KCP \<Rightarrow> bool" where
  "advances m k k' \<longleftrightarrow> (\<exists>n ps. n \<le> m \<and> snd_nxt k' = snd_nxt k + of_nat n \<and> outputs k' = outputs k @ ps)"

lemma advances_refl: "snd_nxt k' = snd_nxt k \<Longrightarrow> outputs k' = outputs k \<Longrightarrow> advances m k k'"
  unfolding advances_def by (intro exI [of _ 0] exI [of _ "[]"]) simp

lemma advances_trans: "advances m k k1 \<Longrightarrow> advances m' k1 k2 \<Longrightarrow> advances (m + m') k k2"
proof -
  assume "advances m k k1" "advances m' k1 k2"
  then obtain n ps n' ps' where "n \<le> m" "snd_nxt k1 = snd_nxt k + of_nat n" "outputs k1 = outputs k @ ps"
    "n' \<le> m'" "snd_nxt k2 = snd_nxt k1 + of_nat n'" "outputs k2 = outputs k1 @ ps'"
    unfolding advances_def by blast
  then show ?thesis unfolding advances_def
    by (intro exI [of _ "n + n'"] exI [of _ "ps @ ps'"]) (simp add: add.assoc)
qed

lemma advances_flush:
  assumes "kcp_inv q" "flush c q = Inr k'" "snd_nxt q = snd_nxt k" "outputs q = outputs k"
  shows "advances WND_MAX k k'"
  using flush_advance [OF assms(1,2)] assms(3,4) by (simp add: advances_def)

lemma exec_advances:
  assumes inv: "kcp_inv k" and e: "exec op k = Inr k'"
  shows "advances (if is_flush op then WND_MAX else 0) k k'"
proof (cases op)
  case (OpInput c p u)
  then obtain r where "input c p u k = Inr (r, k')" using e by (auto simp: bind_res_eq_Inr)
  from input_frame_input [OF this] show ?thesis by (intro advances_refl) (simp_all add: input_frame_def)
next
  case (OpFlush c)
  then show ?thesis using e advances_flush [OF inv] by simp
next
  case (OpUpdate c)
  let ?k = "k \<lparr> updated := (if updated k = 0 then 1 else updated k), ts_flush := next_flush c k \<rparr>"
  have "kcp_inv ?k" using inv by (simp add: kcp_inv_def flush_pre_def cfg_inv_def)
  then show ?thesis using e OpUpdate advances_flush [of ?k c k' k] advances_refl
    by (auto simp: update_eq split: if_splits)
next
  case (OpSend buf)
  then show ?thesis using e send_only_queue [OF inv, of buf] by (fastforce simp: bind_res_eq_Inr intro: advances_refl)
next
  case (OpRecv buf)
  then show ?thesis using e
    by (intro advances_refl) (auto simp: recv_def bind_res_eq_Inr move_ready_def Let_def split: if_splits)
next
  case (OpConnect c)
  then show ?thesis
    using e advances_flush [OF enqueue_empty [OF inv, of IKCP_CMD_CONNECT], of c k' k] advances_refl
    by (auto simp: sendConnectFlush_def newSegment_0 split: if_splits)
next
  case (OpClose c)
  let ?k = "k \<lparr> state := (state k OR IKCP_STATE_LOCAL_CLOSED) AND NOT IKCP_STATE_CONNECTED \<rparr>"
  show ?thesis
    using e OpClose advances_flush [OF enqueue_empty [of ?k IKCP_CMD_PUSH], of c k' k] inv advances_refl
    by (auto simp: sendCloseFlush_def newSegment_0 Let_def split: if_splits)
qed (use e in \<open>auto intro!: advances_refl simp: recvSize_def setMtu_def setNoDelay_def setWndSize_def Let_def
    split: list.splits\<close>)

lemma path_advances: "kcp_path P k w g f k' \<Longrightarrow> kcp_inv k \<Longrightarrow> advances (f * WND_MAX) k k'"
proof (induction rule: kcp_path.induct)
  case path_refl
  then show ?case by (simp add: advances_refl)
next
  case (path_step w g f k1 op k2)
  have "kcp_inv k1" using path_inv [OF path_step.hyps(1)] path_step.prems .
  from advances_trans [OF path_step.IH [OF path_step.prems] exec_advances [OF this path_step.hyps(4)]]
  show ?case by (auto split: if_splits simp: add.commute)
qed

lemma path_outputs: "kcp_path P k w g f k' \<Longrightarrow> kcp_inv k \<Longrightarrow> prefix (outputs k) (outputs k')"
  using path_advances by (fastforce simp: advances_def)

section \<open>Paths in the network of two control objects\<close>

lemma net_sender_path:
  assumes "kcp_path P k w g f k'" "reachable net_init net_step s" "sndr s = k"
  shows "\<exists>s' n. reachable net_init net_step s' \<and> sndr s' = k' \<and> rcvr s' = rcvr s \<and> sent s' = sent s @ w \<and>
    got s' = got s \<and> used s' = used s + n \<and> n \<le> f * WND_MAX \<and> snd_nxt k' = snd_nxt k + of_nat n"
  using assms
proof (induction rule: kcp_path.induct)
  case path_refl
  then show ?case by (intro exI [of _ s] exI [of _ 0]) simp
next
  case (path_step w g f k1 op k2)
  then obtain s1 n where s1: "reachable net_init net_step s1" "sndr s1 = k1" "rcvr s1 = rcvr s" "sent s1 = sent s @ w"
    "got s1 = got s" "used s1 = used s + n" "n \<le> f * WND_MAX" "snd_nxt k1 = snd_nxt k + of_nat n"
    by blast
  have "kcp_inv k1" using net.reachable_inv [OF s1(1)] s1(2) by (simp add: net_inv_def)
  then obtain m where m: "m \<le> (if is_flush op then WND_MAX else 0)" "snd_nxt k2 = snd_nxt k1 + of_nat m"
    using exec_advances [OF _ path_step.hyps(4)] unfolding advances_def by blast
  then have "soff (snd_nxt k1) (snd_nxt k2) = m" by (auto simp: soff_of_nat WND_MAX_def split: if_splits)
  then have "net_step s1 (s1 \<lparr> sndr := k2, sent := sent s1 @ accepted op k1, used := used s1 + m \<rparr>)"
    using net_step.sender [of op s1 k2] path_step.hyps s1(2) by simp
  from reach_step [OF s1(1) this] show ?case
    using s1 m by (intro exI [of _ "s1 \<lparr> sndr := k2, sent := sent s1 @ accepted op k1, used := used s1 + m \<rparr>"] exI [of _ "n + m"])
      (auto simp: algebra_simps split: if_splits)
qed

lemma net_receiver_path:
  assumes "kcp_path P k w g f k'" "reachable net_init net_step s" "rcvr s = k" "P \<subseteq> set (outputs (sndr s))"
  shows "\<exists>s'. reachable net_init net_step s' \<and> sndr s' = sndr s \<and> rcvr s' = k' \<and> sent s' = sent s \<and>
    got s' = got s @ g \<and> used s' = used s"
  using assms
proof (induction rule: kcp_path.induct)
  case path_refl
  then show ?case by (intro exI [of _ s]) simp
next
  case (path_step w g f k1 op k2)
  then obtain s1 where s1: "reachable net_init net_step s1" "sndr s1 = sndr s" "rcvr s1 = k1" "sent s1 = sent s"
    "got s1 = got s @ g" "used s1 = used s"
    by blast
  then have "net_step s1 (s1 \<lparr> rcvr := k2, got := got s1 @ taken op k1 \<rparr>)"
    using net_step.receiver [of op s1 k2] path_step.hyps path_step.prems(3) by auto
  from reach_step [OF s1(1) this] show ?case
    using s1 by (intro exI [of _ "s1 \<lparr> rcvr := k2, got := got s1 @ taken op k1 \<rparr>"]) simp
qed

section \<open>Well-formed connections\<close>

definition event_ok :: "'a chan \<Rightarrow> nat \<Rightarrow> bool" where
  "event_ok c n \<longleftrightarrow> chan_ok c \<and> \<not> ch_closed c \<and> ch_cap c = n"

text \<open>
  The types of the fields as the code uses them: a control object and a buffer that satisfy their
  invariants, channels that keep their capacity and are never closed, datagrams that fit the
  receive buffer. \<open>die\<close> carries nothing; it is only ever closed.
\<close>

definition conn_inv :: "KCPConn \<Rightarrow> bool" where
  "conn_inv s \<longleftrightarrow>
     kcp_inv (c_kcp s) \<and> buf_inv (c_bufRead s) \<and> c_conn s \<and> ch_items (c_die s) = [] \<and>
     event_ok (c_chReadEvent s) 1 \<and> event_ok (c_chWriteEvent s) 1 \<and> event_ok (c_chKcpFlushEvent s) 1 \<and>
     event_ok (c_chUdpInput s) rxQueueLimit \<and> (\<forall>d \<in> set (ch_items (c_chUdpInput s)). length d \<le> udpPacketSizeLimit)"

lemma conn_inv_kcp: "conn_inv s \<Longrightarrow> kcp_inv k \<Longrightarrow> conn_inv (s \<lparr> c_kcp := k \<rparr>)"
  by (simp add: conn_inv_def)

lemma conn_inv_sel: "conn_inv s \<Longrightarrow> kcp_inv (c_kcp s)" "conn_inv s \<Longrightarrow> buf_inv (c_bufRead s)" "conn_inv s \<Longrightarrow> c_conn s"
  by (simp_all add: conn_inv_def)

text \<open>\<open>conn_run P f s w s'\<close>: from \<open>s\<close> to \<open>s'\<close> by a path of the control object that delivers nothing.\<close>

definition conn_run :: "bytes set \<Rightarrow> nat \<Rightarrow> KCPConn \<Rightarrow> bytes \<Rightarrow> KCPConn \<Rightarrow> bool" where
  "conn_run P f s w s' \<longleftrightarrow> (\<exists>f' \<le> f. kcp_path P (c_kcp s) w [] f' (c_kcp s')) \<and> conn_inv s' \<and>
     c_bufRead s' = c_bufRead s \<and> c_chUdpInput s' = c_chUdpInput s"

lemma conn_run_refl: "conn_inv s \<Longrightarrow> conn_run P f s [] s"
  by (auto simp: conn_run_def intro: kcp_path.path_refl)

lemma conn_run_trans: "conn_run P f s w s1 \<Longrightarrow> conn_run P f' s1 w' s2 \<Longrightarrow> conn_run P (f + f') s (w @ w') s2"
  using path_trans [of P "c_kcp s1" w' "[]" _ "c_kcp s2" "c_kcp s" w "[]"]
  by (auto simp: conn_run_def intro: add_mono)

lemma conn_run_mono: "conn_run P f s w s' \<Longrightarrow> f \<le> f' \<Longrightarrow> conn_run P f' s w s'"
  by (auto simp: conn_run_def intro: order_trans)

lemma conn_run_inv: "conn_run P f s w s' \<Longrightarrow> conn_inv s'"
  by (simp add: conn_run_def)

text \<open>Updates of the counters may be added at the end of a run.\<close>

lemma conn_run_kcp:
  assumes "conn_run P f s w s'" "kcp_path P (c_kcp s') [] [] 0 k"
  shows "conn_run P f s w (s' \<lparr> c_kcp := k \<rparr>)"
  using path_trans [OF assms(2), of "c_kcp s" w "[]"] assms path_inv [OF assms(2)]
  by (auto simp: conn_run_def conn_inv_kcp conn_inv_sel)

lemma path_counters:
  "kcp_path P k [] [] 0 (k \<lparr> stats := x, gstats := y \<rparr>)" "kcp_path P k [] [] 0 (k \<lparr> gstats := y \<rparr>)"
  "kcp_path P k [] [] 0 (count_rx n k)" "kcp_path P k [] [] 0 (count_tx n k)" "kcp_path P k [] [] 0 (count_in n k)"
  "kcp_path P k [] [] 0 (count_err_input k)" "kcp_path P k [] [] 0 (count_err_read k)" "kcp_path P k [] [] 0 (snd (recvSize k))"
  using path_gstats [OF path_refl] path_op [of OpRecvSize k P]
  by (simp_all add: path_stats count_rx_def count_tx_def count_in_def count_err_input_def count_err_read_def
      accepted_def taken_def)

section \<open>The operations are paths\<close>

lemma kcpOutputs_stats: "\<exists>x y. kcpOutputs wt i ps k = k \<lparr> stats := x, gstats := y \<rparr>"
proof (induction ps arbitrary: i k)
  case Nil
  show ?case by (intro exI [of _ "stats k"] exI [of _ "gstats k"]) simp
next
  case (Cons p ps)
  obtain x y where "kcpOutputs wt (Suc i) ps (kcpOutput (wt i p) p k) = (kcpOutput (wt i p) p k) \<lparr> stats := x, gstats := y \<rparr>"
    using Cons.IH by blast
  then show ?case by (intro exI [of _ x] exI [of _ y]) (simp add: kcpOutput_def)
qed

text \<open>The operations that hand out packets neither take nor give user data.\<close>

lemma is_flush_simps: "is_flush op \<Longrightarrow> accepted op k = [] \<and> taken op k = [] \<and> op_ok op k \<and> op \<noteq> OpInput c p u"
  by (cases op) (simp_all add: accepted_def taken_def)

lemma kcp_call_run:
  assumes inv: "conn_inv s" and op: "is_flush op" "\<And>k. f k = exec op k"
  shows "\<exists>s'. kcp_call wt f s = Inr s' \<and> conn_run P 1 s [] s' \<and> (\<exists>k x y. exec op (c_kcp s) = Inr k \<and>
    s' = s \<lparr> c_kcp := k \<lparr> stats := x, gstats := y \<rparr> \<rparr>)"
proof -
  obtain k where k: "exec op (c_kcp s) = Inr k" "kcp_inv k"
    using exec_total [of "c_kcp s" op] conn_inv_sel(1) [OF inv] is_flush_simps [OF op(1)] by blast
  obtain x y where xy: "kcpOutputs wt (length (outputs (c_kcp s))) (drop (length (outputs (c_kcp s))) (outputs k)) k
      = k \<lparr> stats := x, gstats := y \<rparr>" using kcpOutputs_stats by blast
  have "conn_run P 1 s [] (s \<lparr> c_kcp := k \<rparr>)"
    using path_op [of op "c_kcp s" P k] is_flush_simps [OF op(1)] k inv op(1)
    by (auto simp: conn_run_def conn_inv_kcp)
  from conn_run_kcp [OF this path_counters(1) [where x = x and y = y]] show ?thesis
    using k(1) xy op(2) conn_inv_sel(3) [OF inv] by (auto simp: kcp_call_def Let_def)
qed

lemma try_send_event:
  assumes "event_ok c n"
  shows "\<exists>b c'. try_send v c = Inr (b, c') \<and> event_ok c' n \<and> (0 < n \<longrightarrow> ch_items c' \<noteq> []) \<and> set (ch_items c') \<subseteq> insert v (set (ch_items c))"
  using assms by (auto simp: event_ok_def try_send_def chan_ok_def)

text \<open>A notification that returns leaves its channel non-empty and touches nothing else.\<close>

lemma notify_run:
  assumes "conn_inv s"
  shows "\<exists>c. notifyReadEvent s = Inr (s \<lparr> c_chReadEvent := c \<rparr>) \<and> ch_items c \<noteq> [] \<and> conn_run P 0 s [] (s \<lparr> c_chReadEvent := c \<rparr>)"
    "\<exists>c. notifyWriteEvent s = Inr (s \<lparr> c_chWriteEvent := c \<rparr>) \<and> ch_items c \<noteq> [] \<and> conn_run P 0 s [] (s \<lparr> c_chWriteEvent := c \<rparr>)"
    "\<exists>c. notifyFlushEvent s = Inr (s \<lparr> c_chKcpFlushEvent := c \<rparr>) \<and> ch_items c \<noteq> [] \<and> conn_run P 0 s [] (s \<lparr> c_chKcpFlushEvent := c \<rparr>)"
  using try_send_event [of "c_chReadEvent s" 1 "()"] try_send_event [of "c_chWriteEvent s" 1 "()"]
    try_send_event [of "c_chKcpFlushEvent s" 1 "()"] assms
  by (auto simp: conn_inv_def notifyReadEvent_def notifyWriteEvent_def notifyFlushEvent_def conn_run_def
      kcp_path.path_refl)

lemma kcp_call_runs:
  assumes "conn_inv s"
  shows "\<exists>s'. kcp_call wt (flush c) s = Inr s' \<and> conn_run P 1 s [] s'"
    "\<exists>s'. kcp_call wt (update c) s = Inr s' \<and> conn_run P 1 s [] s'"
    "\<exists>s'. kcp_call wt (sendConnectFlush c) s = Inr s' \<and> conn_run P 1 s [] s'"
    "\<exists>s'. kcp_call wt (sendCloseFlush c) s = Inr s' \<and> conn_run P 1 s [] s'"
  using kcp_call_run [OF assms, of "OpFlush c" "flush c" wt P] kcp_call_run [OF assms, of "OpUpdate c" "update c" wt P]
    kcp_call_run [OF assms, of "OpConnect c" "sendConnectFlush c" wt P] kcp_call_run [OF assms, of "OpClose c" "sendCloseFlush c" wt P]
  by auto

lemma closeInternal_run:
  assumes inv: "conn_inv s" and c: "closeInternal wt now s = Inr (err, s')"
  shows "conn_run P 1 s [] s'"
proof (cases "isStateLocalClosed (c_kcp s)")
  case True
  then show ?thesis using c conn_run_refl [OF inv] by (simp add: closeInternal_def)
next
  case False
  then obtain d where d: "close_chan (c_die s) = Inr d" "kcp_call wt (sendCloseFlush (currentTickMs now)) (s \<lparr> c_die := d \<rparr>) = Inr s'"
    using c conn_inv_sel(3) [OF inv] by (auto simp: closeInternal_def bind_res_eq_Inr)
  have "conn_inv (s \<lparr> c_die := d \<rparr>)" using inv d(1) by (auto simp: conn_inv_def close_chan_def split: if_splits)
  from kcp_call_runs(4) [OF this, of wt "currentTickMs now" P]
  show ?thesis using d(2) by (auto simp: conn_run_def)
qed

lemma input_greet_run:
  assumes "conn_inv s"
  shows "\<exists>s'. input_greet wt now c s = Inr s' \<and> conn_run P 1 s [] s'"
proof -
  obtain s2 where s2: "kcp_call wt (sendConnectFlush (currentTickMs now)) s = Inr s2" "conn_run P 1 s [] s2"
    using kcp_call_runs(3) [OF assms] by blast
  obtain c where "notifyWriteEvent s2 = Inr (s2 \<lparr> c_chWriteEvent := c \<rparr>)" "conn_run P 0 s2 [] (s2 \<lparr> c_chWriteEvent := c \<rparr>)"
    using notify_run(2) [OF conn_run_inv [OF s2(2)]] by blast
  then show ?thesis
    using s2(1) conn_run_trans [OF s2(2)] conn_run_refl [OF assms] by (fastforce simp: input_greet_def)
qed

lemma input_notify_run:
  assumes "conn_inv s"
  shows "\<exists>s'. input_notify s = Inr s' \<and> conn_run P 0 s [] s'"
proof -
  define s3 where "s3 = s \<lparr> c_kcp := snd (recvSize (c_kcp s)) \<rparr>"
  have r: "conn_run P 0 s [] s3" using conn_run_kcp [OF conn_run_refl [OF assms] path_counters(8)] by (simp add: s3_def)
  obtain c where "notifyReadEvent s3 = Inr (s3 \<lparr> c_chReadEvent := c \<rparr>)" "conn_run P 0 s3 [] (s3 \<lparr> c_chReadEvent := c \<rparr>)"
    using notify_run(1) [OF conn_run_inv [OF r]] by blast
  then show ?thesis
    using r conn_run_trans [OF r] by (fastforce simp: input_notify_def case_prod_unfold Let_def s3_def)
qed

lemma doKcpInput_run:
  assumes inv: "conn_inv s" and len: "length data \<le> udpPacketSizeLimit" and P: "data \<in> P"
  shows "\<exists>s'. doKcpInput wt now1 now2 data s = Inr s' \<and> conn_run P 1 s [] s'"
proof -
  let ?op = "OpInput (currentTickMs now1) data True"
  obtain r k where i: "input (currentTickMs now1) data True (c_kcp s) = Inr (r, k)"
    using input_kcp_total [of "c_kcp s" data] conn_inv_sel(1) [OF inv] len by blast
  define q where "q = (if r \<noteq> 0 then count_err_input k else k)"
  have "kcp_path P (c_kcp s) [] [] 0 k"
    using path_op [of ?op "c_kcp s" P k] i len P by (simp add: accepted_def taken_def)
  then have "kcp_path P (c_kcp s) [] [] 0 q" using path_trans [OF path_counters(6)] by (fastforce simp: q_def)
  note r1 = conn_run_kcp [OF conn_run_refl [OF inv] this]
  obtain s2 where s2: "input_greet wt now2 (isStateConnected (c_kcp s)) (s \<lparr> c_kcp := q \<rparr>) = Inr s2"
    "conn_run P 1 (s \<lparr> c_kcp := q \<rparr>) [] s2"
    using input_greet_run [OF conn_run_inv [OF r1]] by blast
  obtain s3 where s3: "input_notify s2 = Inr s3" "conn_run P 0 s2 [] s3"
    using input_notify_run [OF conn_run_inv [OF s2(2)]] by blast
  have "conn_run P 1 s [] s3" using conn_run_trans [OF conn_run_trans [OF r1 s2(2)] s3(2)] by simp
  from conn_run_kcp [OF this path_counters(5)] show ?thesis
    using i s2(1) s3(1) by (simp add: doKcpInput_def Let_def q_def)
qed

lemma recvSize_frag_len: "recvSize k = (n, k') \<Longrightarrow> 0 < n \<Longrightarrow> n = int (frag_len (rcv_queue k'))"
  by (auto simp: recvSize_def split: list.splits if_splits)

text \<open>One round of the loop that fills the read buffer.\<close>

lemma recv_exact_size:
  assumes inv: "kcp_inv k" and r: "recvSize k = (n, k1)" "0 < n" and len: "int (length buf) = n"
  shows "\<exists>r p k2. recv buf k1 = Inr (r, p, k2) \<and> kcp_path P k [] p 0 k2 \<and> int (length p) = n"
proof -
  have fl: "frag_len (rcv_queue k1) = length buf" using recvSize_frag_len [OF r] len by simp
  have inv1: "kcp_inv k1" using recvSize_kcp_inv [OF inv] r(1) by (metis snd_conv)
  obtain r' p k2 where e: "recv buf k1 = Inr (r', p, k2)" using recv_kcp_inv [OF inv1, of buf] fl by auto
  then have p: "length p = length buf" "nat r' = length buf"
    using recv_merge_ok [of "rcv_queue k1" buf] fl frag_len_first_msg [of "rcv_queue k1"] by (auto simp: recv_def Let_def)
  have "kcp_path P k [] [] 0 k1" using path_counters(8) [of P k] r(1) by simp
  from path_trans [OF path_op [of "OpRecv buf" k1 P k2] this]
  have "kcp_path P k [] p 0 k2" using e fl p by (simp add: accepted_def taken_def)
  then show ?thesis using e p(1) len by auto
qed

lemma fill_bufRead_ok:
  assumes "kcp_inv k" "buf_inv b"
  shows "\<exists>k' b' g. fill_bufRead k b = Inr (k', b') \<and> kcp_path P k [] g 0 k' \<and> buf_inv b' \<and>
    contents b' = contents b @ g \<and> fst (recvSize k') \<le> 0 \<and> (fst (recvSize k) > 0 \<longrightarrow> g \<noteq> [])"
  using assms
proof (induction k b rule: fill_bufRead.induct)
  case (1 k b)
  obtain n k1 where r: "recvSize k = (n, k1)" by (cases "recvSize k")
  have p1: "kcp_path P k [] [] 0 k1" using path_counters(8) [of P k] r by simp
  show ?case
  proof (cases "n \<le> 0")
    case True
    have "fst (recvSize k1) = n" using r recvSize_queue [OF r]
      by (auto simp: recvSize_def split: list.splits if_splits)
    then show ?thesis using True r p1 1(3) by (subst fill_bufRead.simps) auto
  next
    case False
    obtain m b1 where e: "Extend n b = Inr (m, b1)" "length (tail_slice m b1) = nat n"
      "\<forall>p. length p = nat n \<longrightarrow> buf_inv (fill m p b1) \<and> contents (fill m p b1) = contents b @ p"
      using Extend_fill [OF 1(3), of n] False by auto
    obtain r' p k2 where v: "recv (tail_slice m b1) k1 = Inr (r', p, k2)" "kcp_path P k [] p 0 k2" "int (length p) = n"
      using recv_exact_size [OF 1(2) r, of "tail_slice m b1" P] e(2) False by auto
    have c: "kcp_path P k [] p 0 (count_rx n k2)"
      using path_trans [OF path_counters(3) v(2)] by simp
    have b2: "buf_inv (fill m p b1)" "contents (fill m p b1) = contents b @ p" using e(3) v(3) by auto
    obtain k' b' g where g: "fill_bufRead (count_rx n k2) (fill m p b1) = Inr (k', b')" "kcp_path P (count_rx n k2) [] g 0 k'"
      "buf_inv b'" "contents b' = contents (fill m p b1) @ g" "fst (recvSize k') \<le> 0"
      using 1(1) [OF r [symmetric] False e(1) refl v(1) refl refl path_inv [OF c 1(2)] b2(1)] by blast
    have "fill_bufRead k b = Inr (k', b')"
      using r False e(1) v(1) g(1) by (subst fill_bufRead.simps) simp
    moreover have "p @ g \<noteq> []" using v(3) False by auto
    ultimately show ?thesis
      using g(3-5) b2(2) path_trans [OF g(2) c] by (intro exI [of _ k'] exI [of _ b'] exI [of _ "p @ g"]) simp
  qed
qed

lemma recv_stream:
  assumes "recv buf k = Inr (n, p, k')" "length buf = frag_len (rcv_queue k)"
  shows "qbytes (rcv_queue k @ rcv_buf k) = p @ qbytes (rcv_queue k' @ rcv_buf k')"
proof -
  let ?k = "k \<lparr> rcv_queue := drop (length (first_msg (rcv_queue k))) (rcv_queue k) \<rparr>"
  have p: "p = qbytes (first_msg (rcv_queue k))" and q: "rcv_queue k' @ rcv_buf k' = rcv_queue ?k @ rcv_buf ?k"
    using assms recv_merge_ok [of "rcv_queue k" buf] move_ready_stream [of ?k] by (auto simp: recv_def Let_def qbytes_def split: if_splits)
  have "qbytes (rcv_queue k) = p @ qbytes (rcv_queue ?k)"
    using first_msg_prefix [of "rcv_queue k"] append_take_drop_id [of "length (first_msg (rcv_queue k))" "rcv_queue k"]
    by (simp add: p qbytes_def flip: concat_append map_append)
  then show ?thesis unfolding q by (simp add: qbytes_def)
qed

text \<open>What the loop appends to the read buffer is what it takes from the front of the received stream.\<close>

lemma fill_bufRead_stream:
  assumes "fill_bufRead k b = Inr (k', b')" "buf_inv b"
  shows "contents b' @ qbytes (rcv_queue k' @ rcv_buf k') = contents b @ qbytes (rcv_queue k @ rcv_buf k)"
  using assms
proof (induction k b rule: fill_bufRead.induct)
  case (1 k b)
  obtain n k1 where r: "recvSize k = (n, k1)" by (cases "recvSize k")
  note q = recvSize_queue [OF r]
  show ?case
  proof (cases "n \<le> 0")
    case True
    then show ?thesis using 1(2) r q by (subst (asm) fill_bufRead.simps) auto
  next
    case False
    obtain m b1 where e: "Extend n b = Inr (m, b1)" "length (tail_slice m b1) = nat n"
      "\<forall>p. length p = nat n \<longrightarrow> buf_inv (fill m p b1) \<and> contents (fill m p b1) = contents b @ p"
      using Extend_fill [OF 1(3), of n] False by auto
    have fl: "length (tail_slice m b1) = frag_len (rcv_queue k1)" using recvSize_frag_len [OF r] e(2) False by simp
    obtain r' p k2 where v: "recv (tail_slice m b1) k1 = Inr (r', p, k2)" "fill_bufRead (count_rx n k2) (fill m p b1) = Inr (k', b')"
      using 1(2) r False e(1) by (subst (asm) fill_bufRead.simps) (auto simp: bind_res_eq_Inr)
    have "length p = nat n"
      using v(1) recv_merge_ok [of "rcv_queue k1" "tail_slice m b1"] fl e(2) frag_len_first_msg [of "rcv_queue k1"]
      by (auto simp: recv_def Let_def)
    then have b2: "buf_inv (fill m p b1)" "contents (fill m p b1) = contents b @ p" using e(3) by auto
    have "contents b' @ qbytes (rcv_queue k' @ rcv_buf k') = contents b @ p @ qbytes (rcv_queue k2 @ rcv_buf k2)"
      using 1(1) [OF r [symmetric] False e(1) refl v(1) refl refl v(2) b2(1)] b2(2) by (simp add: count_rx_def)
    then show ?thesis using recv_stream [OF v(1) fl] q by simp
  qed
qed

text \<open>
  \<open>conn_deliver P f s g s'\<close>: as \<open>conn_run\<close>, for \<open>Read\<close>: the bytes the path delivers go to the end of the
  read buffer, and the bytes \<open>d\<close> are returned from its front.
\<close>

definition conn_deliver :: "bytes set \<Rightarrow> nat \<Rightarrow> KCPConn \<Rightarrow> bytes \<Rightarrow> KCPConn \<Rightarrow> bool" where
  "conn_deliver P f s d s' \<longleftrightarrow>
     (\<exists>g. (\<exists>f' \<le> f. kcp_path P (c_kcp s) [] g f' (c_kcp s')) \<and> contents (c_bufRead s) @ g = d @ contents (c_bufRead s')) \<and>
     conn_inv s' \<and> c_chUdpInput s' = c_chUdpInput s"

lemma conn_deliver_run: "conn_run P f s [] s' \<Longrightarrow> conn_deliver P f s [] s'"
  by (auto simp: conn_run_def conn_deliver_def)

lemma conn_deliver_trans:
  assumes "conn_deliver P f s d s1" "conn_deliver P f' s1 d' s2"
  shows "conn_deliver P (f + f') s (d @ d') s2"
proof -
  obtain g g' n n' where g: "n \<le> f" "kcp_path P (c_kcp s) [] g n (c_kcp s1)" "contents (c_bufRead s) @ g = d @ contents (c_bufRead s1)"
    "n' \<le> f'" "kcp_path P (c_kcp s1) [] g' n' (c_kcp s2)" "contents (c_bufRead s1) @ g' = d' @ contents (c_bufRead s2)"
    using assms unfolding conn_deliver_def by blast
  then have "kcp_path P (c_kcp s) [] (g @ g') (n + n') (c_kcp s2)" "n + n' \<le> f + f'"
    "contents (c_bufRead s) @ g @ g' = (d @ d') @ contents (c_bufRead s2)"
    using path_trans [OF g(5) g(2)] append.assoc [of "contents (c_bufRead s)" g g'] by simp_all
  then show ?thesis using assms unfolding conn_deliver_def by auto
qed

lemma Read_fill_run:
  assumes inv: "conn_inv s"
  shows "\<exists>s'. Read_fill len s = Inr s' \<and> conn_deliver P 0 s [] s' \<and> c_die s' = c_die s"
proof -
  obtain k b g where f: "fill_bufRead (c_kcp s) (c_bufRead s) = Inr (k, b)" "kcp_path P (c_kcp s) [] g 0 k" "buf_inv b"
    "contents b = contents (c_bufRead s) @ g"
    using fill_bufRead_ok [OF conn_inv_sel(1,2) [OF inv]] by metis
  have "conn_inv (s \<lparr> c_kcp := k, c_bufRead := b \<rparr>)"
    using inv path_inv [OF f(2) conn_inv_sel(1) [OF inv]] f(3) by (simp add: conn_inv_def)
  then have "conn_deliver P 0 s [] (s \<lparr> c_kcp := k, c_bufRead := b \<rparr>)"
    using f(2,4) by (auto simp: conn_deliver_def)
  then show ?thesis using f(1) conn_deliver_run [OF conn_run_refl [OF inv]] by (auto simp: Read_fill_def)
qed

lemma Read_close_run:
  assumes "conn_inv s" "Read_close wt now s = Inr s'"
  shows "conn_run P 1 s [] s'"
  using assms closeInternal_run [OF assms(1), of wt now _ s'] conn_run_refl
  by (auto simp: Read_close_def bind_res_eq_Inr split: if_splits)

fun delivered :: "read_out \<Rightarrow> bytes" where
  "delivered (ReadRet p n err) = take n p"
| "delivered (ReadWait t) = []"

lemma Read_result_run:
  assumes inv: "conn_inv s"
  shows "\<exists>out s'. Read_result now b s = Inr (out, s') \<and> conn_deliver P 0 s (delivered out) s'"
proof (cases "Len (c_bufRead s) > 0")
  case True
  let ?c = "contents (c_bufRead s)"
  obtain p bf where r: "Read b (c_bufRead s) = Inr (p, min (length b) (length ?c), ?c = [] \<and> b \<noteq> [], bf)"
    "buf_inv bf" "p = go_copy b ?c" "contents bf = drop (length b) ?c"
    using Read_ok [OF conn_inv_sel(2) [OF inv], of b] by blast
  have "take (min (length b) (length ?c)) p @ contents bf = ?c"
    using r(3,4) by (auto simp: go_copy_def min_def)
  moreover have "conn_inv (s \<lparr> c_bufRead := bf \<rparr>)" using inv r(2) by (simp add: conn_inv_def)
  ultimately have "conn_deliver P 0 s (take (min (length b) (length ?c)) p) (s \<lparr> c_bufRead := bf \<rparr>)"
    using kcp_path.path_refl [of P "c_kcp s"] by (auto simp: conn_deliver_def)
  then show ?thesis using True r(1) by (simp add: Read_result_def)
next
  case False
  have "conn_deliver P 0 s [] s" using conn_deliver_run [OF conn_run_refl [OF inv]] .
  then show ?thesis using False by (auto simp: Read_result_def split: option.split)
qed

lemma Read_iter_run:
  assumes inv: "conn_inv s" and r: "Read_iter wt now1 now2 b s = Inr (out, s')"
  shows "conn_deliver P 1 s (delivered out) s'"
proof -
  obtain s1 where s1: "Read_fill (length b) s = Inr s1" "conn_deliver P 0 s [] s1"
    using Read_fill_run [OF inv] by blast
  obtain s2 where s2: "Read_close wt now1 s1 = Inr s2" "Read_result now2 b s2 = Inr (out, s')"
    using r s1(1) by (auto simp: Read_iter_def bind_res_eq_Inr)
  have "conn_inv s1" using s1(2) by (simp add: conn_deliver_def)
  note c = Read_close_run [OF this s2(1), of P]
  have "conn_deliver P 0 s2 (delivered out) s'"
    using Read_result_run [OF conn_run_inv [OF c], of now2 b P] s2(2) by auto
  from conn_deliver_trans [OF conn_deliver_trans [OF s1(2) conn_deliver_run [OF c]] this] show ?thesis by simp
qed

section \<open>Write and the goroutine\<close>

fun written :: "bytes \<Rightarrow> write_out \<Rightarrow> bytes" where
  "written b (WriteRet n err) = take n b"
| "written b (WriteWait t) = []"

lemma send_ret: "send b k = Inr (r, k') \<Longrightarrow> 0 \<le> r \<Longrightarrow> r = 0"
  by (auto simp: send_def send_frags_def bind_res_eq_Inr split: if_splits)

lemma Write_iter_run:
  assumes inv: "conn_inv s" and w: "Write_iter now b s = Inr (out, s')"
  shows "conn_run P 0 s (written b out) s'"
proof -
  have "s' = s \<and> written b out = [] \<or> Write_send b s = Inr (out, s')"
    using w by (auto simp: Write_iter_def split: if_splits option.splits)
  then show ?thesis
  proof
    assume "s' = s \<and> written b out = []"
    then show ?thesis using conn_run_refl [OF inv] by simp
  next
    assume send: "Write_send b s = Inr (out, s')"
    then obtain r k where k: "send b (c_kcp s) = Inr (r, k)" "0 \<le> r"
      by (auto simp: Write_send_def bind_res_eq_Inr split: if_splits)
    then have r0: "r = 0" using send_ret by blast
    define s1 where "s1 = s \<lparr> c_kcp := count_tx (int (length b)) k \<rparr>"
    have "kcp_path P (c_kcp s) b [] 0 k"
      using path_op [of "OpSend b" "c_kcp s" P k] k r0 by (simp add: accepted_def taken_def)
    then have "kcp_path P (c_kcp s) b [] 0 (count_tx (int (length b)) k)"
      using path_trans [OF path_counters(4)] by fastforce
    then have r1: "conn_run P 0 s b s1"
      using path_inv [OF _ conn_inv_sel(1) [OF inv]] inv by (auto simp: conn_run_def s1_def intro: conn_inv_kcp)
    obtain c where "notifyFlushEvent s1 = Inr (s1 \<lparr> c_chKcpFlushEvent := c \<rparr>)" "conn_run P 0 s1 [] (s1 \<lparr> c_chKcpFlushEvent := c \<rparr>)"
      using notify_run(3) [OF conn_run_inv [OF r1]] by blast
    moreover have "out = WriteRet (length b) None" "s' = s1 \<or> notifyFlushEvent s1 = Inr s'"
      using send k r0 by (auto simp: Write_send_def Let_def bind_res_eq_Inr s1_def split: if_splits)
    ultimately show ?thesis using r1 conn_run_trans [OF r1] by fastforce
  qed
qed

lemma run_leave_run:
  assumes inv: "conn_inv s"
  shows "\<exists>r' s'. run_leave wt now1 now2 r s = Inr (r', s') \<and> conn_run P 1 s [] s'"
proof -
  define s1 where "s1 = s \<lparr> c_kcp := (c_kcp s) \<lparr> gstats := (gstats (c_kcp s)) \<lparr> g_ConnClosing := g_ConnClosing (gstats (c_kcp s)) + 1 \<rparr> \<rparr> \<rparr>"
  have r: "conn_run P 0 s [] s1" unfolding s1_def by (rule conn_run_kcp [OF conn_run_refl [OF inv] path_counters(2)])
  obtain s2 where "kcp_call wt (sendCloseFlush (currentTickMs now1)) s1 = Inr s2" "conn_run P 1 s1 [] s2"
    using kcp_call_runs(4) [OF conn_run_inv [OF r]] by blast
  then show ?thesis
    using conn_run_trans [OF r] conn_run_mono [OF r, of 1]
    by (fastforce simp: run_leave_def Let_def s1_def [symmetric])
qed

lemma run_head_run:
  assumes inv: "conn_inv s"
  shows "\<exists>r' s'. run_head wt now1 now2 r s = Inr (r', s') \<and> conn_run P 1 s [] s'"
proof (cases "isAllOpen (c_kcp s)")
  case True
  define fl where "fl = (if sndBufAvail (c_kcp s) > 0 then True else doKcpFlush r)"
  obtain s1 where s1: "kcp_call wt (if fl then flush (currentTickMs now1) else update (currentTickMs now1)) s = Inr s1"
    "conn_run P 1 s [] s1"
    using kcp_call_runs(1,2) [OF inv, of wt "currentTickMs now1" P] by (cases fl) auto
  obtain c where "notifyWriteEvent s1 = Inr (s1 \<lparr> c_chWriteEvent := c \<rparr>)" "conn_run P 0 s1 [] (s1 \<lparr> c_chWriteEvent := c \<rparr>)"
    using notify_run(2) [OF conn_run_inv [OF s1(2)]] by blast
  then show ?thesis
    using True s1 conn_run_trans [OF s1(2)] by (fastforce simp: run_head_def fl_def [symmetric])
next
  case False
  then show ?thesis using run_leave_run [OF inv] by (simp add: run_head_def)
qed

lemma event_recv:
  assumes "event_ok c n" "try_recv c = Some (v, c')"
  shows "event_ok c' n" "v \<noteq> None" "set_option v \<subseteq> set (ch_items c)" "set (ch_items c') \<subseteq> set (ch_items c)"
  using assms by (auto simp: event_ok_def try_recv_def chan_ok_def split: list.splits if_splits)

lemma die_recv: "ch_items c = [] \<Longrightarrow> try_recv c = Some (v, c') \<Longrightarrow> c' = c \<and> ch_closed c"
  by (auto simp: try_recv_def split: if_splits)

text \<open>\<open>conn_recv\<close>: as \<open>conn_run\<close>, but datagrams may have been taken off the queue.\<close>

definition conn_recv :: "nat \<Rightarrow> KCPConn \<Rightarrow> KCPConn \<Rightarrow> bool" where
  "conn_recv f s s' \<longleftrightarrow>
     (\<exists>f' \<le> f. kcp_path (set (ch_items (c_chUdpInput s))) (c_kcp s) [] [] f' (c_kcp s')) \<and> conn_inv s' \<and>
     c_bufRead s' = c_bufRead s \<and> set (ch_items (c_chUdpInput s')) \<subseteq> set (ch_items (c_chUdpInput s))"

lemma conn_recv_run: "conn_run (set (ch_items (c_chUdpInput s))) f s [] s' \<Longrightarrow> conn_recv f s s'"
  by (auto simp: conn_run_def conn_recv_def)

lemma udp_input_run:
  assumes inv: "conn_inv s" and r: "try_recv (c_chUdpInput s) = Some (v, c)"
  shows "\<exists>s'. doKcpInput wt now1 now2 (the_data v) (s \<lparr> c_chUdpInput := c \<rparr>) = Inr s' \<and> conn_recv 1 s s'"
proof -
  let ?P = "set (ch_items (c_chUdpInput s))"
  have "event_ok (c_chUdpInput s) rxQueueLimit" using inv by (simp add: conn_inv_def)
  note e = event_recv [OF this r]
  then obtain d where d: "v = Some d" "d \<in> ?P" "set (ch_items c) \<subseteq> ?P" "event_ok c rxQueueLimit" by auto
  have "conn_inv (s \<lparr> c_chUdpInput := c \<rparr>)" using inv d by (auto simp: conn_inv_def)
  from doKcpInput_run [OF this, of d ?P wt now1 now2] inv d
  show ?thesis by (auto simp: conn_inv_def conn_run_def conn_recv_def the_data_def)
qed

lemma run_select_run:
  assumes inv: "conn_inv s" and r: "run_select wt now1 now2 ev r s = Some m"
  shows "\<exists>r' s'. m = Inr (r', s') \<and> conn_recv 1 s s'"
proof (cases ev)
  case EvUdp
  then show ?thesis using r udp_input_run [OF inv, of _ _ wt now1 now2] by fastforce
next
  case EvFlush
  then obtain v c where "try_recv (c_chKcpFlushEvent s) = Some (v, c)" and m: "\<exists>r'. m = Inr (r', s \<lparr> c_chKcpFlushEvent := c \<rparr>)"
    using r by auto
  then have "conn_inv (s \<lparr> c_chKcpFlushEvent := c \<rparr>)"
    using event_recv(1) [of "c_chKcpFlushEvent s" 1 v c] inv by (simp add: conn_inv_def)
  then show ?thesis using m by (auto simp: conn_recv_def intro!: exI [of _ "0::nat"] kcp_path.path_refl)
next
  case EvTimer
  then show ?thesis using r conn_recv_run [OF conn_run_refl [OF inv]] by auto
next
  case EvDie
  then obtain v c where "try_recv (c_die s) = Some (v, c)" and m: "m = run_leave wt now1 now2 r (s \<lparr> c_die := c \<rparr>)"
    using r by auto
  then have "s \<lparr> c_die := c \<rparr> = s" using die_recv [of "c_die s" v c] inv by (simp add: conn_inv_def)
  then show ?thesis using m run_leave_run [OF inv] conn_recv_run by fastforce
qed

lemma run_close_head_run:
  assumes inv: "conn_inv s"
  shows "\<exists>r' s'. run_close_head wt now1 now2 r s = Inr (r', s') \<and> conn_run P 1 s [] s'"
  using kcp_call_runs(2) [OF inv, of wt "currentTickMs now1" P] by (auto simp: run_close_head_def Let_def)

lemma run_close_select_run:
  assumes inv: "conn_inv s" and r: "run_close_select wt now1 now2 ev r s = Some m"
  shows "\<exists>r' s'. m = Inr (r', s') \<and> conn_recv 1 s s'"
proof (cases ev)
  case EvUdp
  then show ?thesis using r udp_input_run [OF inv, of _ _ wt now1 now2] by fastforce
next
  case EvTimer
  then show ?thesis using r conn_recv_run [OF conn_run_refl [OF inv]] by auto
qed (use r in simp_all)

lemma run_finish_run: "conn_inv s \<Longrightarrow> run_finish r s = (r', s') \<Longrightarrow> conn_run P 0 s [] s'"
  using conn_run_kcp [OF conn_run_refl path_counters(2)] by (auto simp: run_finish_def Let_def)

end
