(* ===== verification/Conn_System.thy ===== *)
theory Conn_System
  imports Conn_Refine
begin

text \<open>
  A connection with the goroutines that use it: \<open>run\<close>, one reader, one writer, and whoever feeds
  it datagrams and calls its setters. Every interleaving of their steps is covered. Two such
  connections and a network give the end-to-end guarantee of \<open>Read\<close> and \<open>Write\<close>.
\<close>

section \<open>The system\<close>

text \<open>Outside a call, about to start a round, or blocked in the \<open>select\<close> of a round (with its timer).\<close>

datatype reader = RIdle | RWoken bytes | RBlocked bytes "int option"
datatype writer = WIdle | WWoken bytes | WBlocked bytes "int option"

record csys =
  x_conn :: KCPConn
  x_run :: runner
  x_reader :: reader
  x_writer :: writer
  x_written :: bytes   \<comment> \<open>accepted by \<open>Write\<close> so far\<close>
  x_read :: bytes      \<comment> \<open>returned by \<open>Read\<close> so far\<close>
  x_used :: nat        \<comment> \<open>sequence numbers used\<close>

definition csys0 :: "runner \<times> KCPConn \<Rightarrow> csys" where
  "csys0 rs = \<lparr> x_conn = snd rs, x_run = fst rs, x_reader = RIdle, x_writer = WIdle,
                x_written = [], x_read = [], x_used = 0 \<rparr>"

definition server_conn :: "u32 \<Rightarrow> string \<Rightarrow> csys" where
  "server_conn cv remote = csys0 (run_start (accept cv True remote newKCPConn))"

text \<open>Accepted without a listener: the connection has its socket for itself.\<close>

definition direct_conn :: "u32 \<Rightarrow> string \<Rightarrow> csys" where
  "direct_conn cv remote = csys0 (run_start (accept cv False remote newKCPConn))"

definition client_conn :: "u32 \<Rightarrow> string \<Rightarrow> csys" where
  "client_conn cv remote = csys0 (run_start (connect_open cv remote newKCPConn))"

definition sys_init :: "csys \<Rightarrow> bool" where
  "sys_init x \<longleftrightarrow> (\<exists>cv remote. x = server_conn cv remote \<or> x = direct_conn cv remote \<or> x = client_conn cv remote)"

datatype conn_op =
    CConnect int
  | CConnectWait
  | CReadCall bytes | CReadRound int int | CReadWake wake
  | CWriteCall bytes | CWriteRound int | CWriteWake wake
  | CClose int
  | CUdp recv_result bool
  | CRun int int run_ev
  | CSetDeadline "int option" | CSetReadDeadline "int option" | CSetWriteDeadline "int option"
  | CSetWindowSize int int | CSetMtu int | CSetStreamMode bool | CSetNoDelay int int int int
  | CSetKeepAlive int

text \<open>The step of \<open>run\<close> from where it is; \<open>None\<close> when it is blocked or has returned.\<close>

definition run_step :: "link \<Rightarrow> int \<Rightarrow> int \<Rightarrow> run_ev \<Rightarrow> runner \<Rightarrow> KCPConn \<Rightarrow> (runner \<times> KCPConn) res option" where
  "run_step wt now1 now2 ev r s =
     (case r_pc r of
        MainHead \<Rightarrow> Some (run_head wt now1 now2 r s)
      | MainSelect \<Rightarrow> run_select wt now1 now2 ev r s
      | CloseHead \<Rightarrow> Some (run_close_head wt now1 now2 r s)
      | CloseSelect \<Rightarrow> run_close_select wt now1 now2 ev r s
      | Finishing \<Rightarrow> Some (Inr (run_finish r s))
      | Returned \<Rightarrow> None)"

definition with_conn :: "KCPConn \<Rightarrow> csys \<Rightarrow> csys" where
  "with_conn s x = x \<lparr> x_conn := s, x_used := x_used x + soff (snd_nxt (c_kcp (x_conn x))) (snd_nxt (c_kcp s)) \<rparr>"

fun after_read :: "bytes \<Rightarrow> read_out \<Rightarrow> csys \<Rightarrow> csys" where
  "after_read b (ReadRet p n err) x = x \<lparr> x_reader := RIdle, x_read := x_read x @ take n p \<rparr>"
| "after_read b (ReadWait t) x = x \<lparr> x_reader := RBlocked b t \<rparr>"

fun after_write :: "bytes \<Rightarrow> write_out \<Rightarrow> csys \<Rightarrow> csys" where
  "after_write b (WriteRet n err) x = x \<lparr> x_writer := WIdle, x_written := x_written x @ take n b \<rparr>"
| "after_write b (WriteWait t) x = x \<lparr> x_writer := WBlocked b t \<rparr>"

fun conn_exec :: "link \<Rightarrow> conn_op \<Rightarrow> csys \<Rightarrow> csys res option" where
  "conn_exec wt (CConnect now) x =
     (if c_isClient (x_conn x) then Some (bind_res (connect_flush wt now (x_conn x)) (\<lambda>s. Inr (with_conn s x))) else None)"
| "conn_exec wt CConnectWait x =
     (if c_isClient (x_conn x) then map_option (\<lambda>s. Inr (with_conn s x)) (connect_wait (x_conn x)) else None)"
| "conn_exec wt (CReadCall b) x = (if x_reader x = RIdle then Some (Inr (x \<lparr> x_reader := RWoken b \<rparr>)) else None)"
| "conn_exec wt (CReadRound now1 now2) x =
     (case x_reader x of
        RWoken b \<Rightarrow> Some (bind_res (Read_iter wt now1 now2 b (x_conn x)) (\<lambda>(out, s). Inr (after_read b out (with_conn s x))))
      | _ \<Rightarrow> None)"
| "conn_exec wt (CReadWake w) x =
     (case x_reader x of
        RBlocked b t \<Rightarrow> map_option (\<lambda>s. Inr ((with_conn s x) \<lparr> x_reader := RWoken b \<rparr>)) (read_wake w t (x_conn x))
      | _ \<Rightarrow> None)"
| "conn_exec wt (CWriteCall b) x = (if x_writer x = WIdle then Some (Inr (x \<lparr> x_writer := WWoken b \<rparr>)) else None)"
| "conn_exec wt (CWriteRound now) x =
     (case x_writer x of
        WWoken b \<Rightarrow> Some (bind_res (Write_iter now b (x_conn x)) (\<lambda>(out, s). Inr (after_write b out (with_conn s x))))
      | _ \<Rightarrow> None)"
| "conn_exec wt (CWriteWake w) x =
     (case x_writer x of
        WBlocked b t \<Rightarrow> map_option (\<lambda>s. Inr ((with_conn s x) \<lparr> x_writer := WWoken b \<rparr>)) (write_wake w t (x_conn x))
      | _ \<Rightarrow> None)"
| "conn_exec wt (CClose now) x = Some (bind_res (Close wt now (x_conn x)) (\<lambda>(err, s). Inr (with_conn s x)))"
| "conn_exec wt (CUdp r use_die) x =
     map_option (\<lambda>m. bind_res m (\<lambda>(_, s). Inr (with_conn s x))) (client_recv r use_die (x_conn x))"
| "conn_exec wt (CRun now1 now2 ev) x =
     map_option (\<lambda>m. bind_res m (\<lambda>(r, s). Inr ((with_conn s x) \<lparr> x_run := r \<rparr>))) (run_step wt now1 now2 ev (x_run x) (x_conn x))"
| "conn_exec wt (CSetDeadline t) x = Some (bind_res (SetDeadline t (x_conn x)) (\<lambda>s. Inr (with_conn s x)))"
| "conn_exec wt (CSetReadDeadline t) x = Some (bind_res (SetReadDeadline t (x_conn x)) (\<lambda>s. Inr (with_conn s x)))"
| "conn_exec wt (CSetWriteDeadline t) x = Some (bind_res (SetWriteDeadline t (x_conn x)) (\<lambda>s. Inr (with_conn s x)))"
| "conn_exec wt (CSetWindowSize a b) x = Some (Inr (with_conn (SetWindowSize a b (x_conn x)) x))"
| "conn_exec wt (CSetMtu m) x = Some (Inr (with_conn (SetMtu m (x_conn x)) x))"
| "conn_exec wt (CSetStreamMode e) x = Some (Inr (with_conn (SetStreamMode e (x_conn x)) x))"
| "conn_exec wt (CSetNoDelay a b c d) x = Some (Inr (with_conn (SetNoDelay a b c d (x_conn x)) x))"
| "conn_exec wt (CSetKeepAlive v) x = Some (Inr (with_conn (SetKeepAlive v (x_conn x)) x))"

text \<open>
  The contract of the setters is that of the control object. A datagram is read into a buffer of
  \<open>udpPacketSizeLimit\<close> bytes.
\<close>

fun conn_op_ok :: "conn_op \<Rightarrow> csys \<Rightarrow> bool" where
  "conn_op_ok (CUdp (RecvOk d) u) x \<longleftrightarrow> length d \<le> udpPacketSizeLimit"
| "conn_op_ok (CSetWindowSize a b) x \<longleftrightarrow> op_ok (OpWndSize a b) (c_kcp (x_conn x))"
| "conn_op_ok (CSetMtu m) x \<longleftrightarrow> op_ok (OpMtu m) (c_kcp (x_conn x))"
| "conn_op_ok _ x \<longleftrightarrow> True"

inductive conn_step :: "link \<Rightarrow> csys \<Rightarrow> csys \<Rightarrow> bool" for wt where
  "conn_op_ok op x \<Longrightarrow> conn_exec wt op x = Some (Inr x') \<Longrightarrow> conn_step wt x x'"

section \<open>Refinement\<close>

abbreviation x_kcp :: "csys \<Rightarrow> KCP" where "x_kcp x \<equiv> c_kcp (x_conn x)"
abbreviation x_buf :: "csys \<Rightarrow> bytes" where "x_buf x \<equiv> contents (c_bufRead (x_conn x))"
abbreviation x_udp :: "csys \<Rightarrow> bytes set" where "x_udp x \<equiv> set (ch_items (c_chUdpInput (x_conn x)))"

fun arrives :: "conn_op \<Rightarrow> bytes set" where
  "arrives (CUdp (RecvOk d) u) = {d}"
| "arrives _ = {}"

text \<open>
  A step is a path of the control object that takes what \<open>Write\<close> accepted and gives what went
  through the read buffer; it flushes at most once.
\<close>

definition refines :: "bytes set \<Rightarrow> csys \<Rightarrow> csys \<Rightarrow> bool" where
  "refines new x x' \<longleftrightarrow>
     (\<exists>w g f. f \<le> 1 \<and> kcp_path (x_udp x) (x_kcp x) w g f (x_kcp x') \<and> x_written x' = x_written x @ w \<and>
        x_read x @ x_buf x @ g = x_read x' @ x_buf x') \<and>
     conn_inv (x_conn x') \<and> x_udp x' \<subseteq> x_udp x \<union> new \<and>
     x_used x' = x_used x + soff (snd_nxt (x_kcp x)) (snd_nxt (x_kcp x'))"

lemma refines_recv:
  assumes "conn_recv 1 (x_conn x) s" "x_written x' = x_written x" "x_read x' = x_read x" "x_conn x' = s"
    "x_used x' = x_used x + soff (snd_nxt (x_kcp x)) (snd_nxt (c_kcp s))"
  shows "refines new x x'"
  using assms unfolding refines_def conn_recv_def by auto

lemma refines_run:
  assumes "conn_run (x_udp x) 1 (x_conn x) w s" "x_written x' = x_written x @ w" "x_read x' = x_read x" "x_conn x' = s"
    "x_used x' = x_used x + soff (snd_nxt (x_kcp x)) (snd_nxt (c_kcp s))"
  shows "refines new x x'"
  using assms unfolding refines_def conn_run_def by auto

lemma refines_with_conn: "conn_run (x_udp x) 1 (x_conn x) [] s \<Longrightarrow> refines new x (with_conn s x)"
  by (rule refines_run) (simp_all add: with_conn_def)

lemma with_conn_sel [simp]:
  "x_conn (with_conn s x) = s" "x_run (with_conn s x) = x_run x" "x_reader (with_conn s x) = x_reader x"
  "x_writer (with_conn s x) = x_writer x" "x_written (with_conn s x) = x_written x" "x_read (with_conn s x) = x_read x"
  "x_used (with_conn s x) = x_used x + soff (snd_nxt (x_kcp x)) (snd_nxt (c_kcp s))"
  by (simp_all add: with_conn_def)

lemma conn_run_fields:
  assumes "conn_inv s'" "c_kcp s' = c_kcp s" "c_bufRead s' = c_bufRead s" "c_chUdpInput s' = c_chUdpInput s"
  shows "conn_run P f s [] s'"
  using assms kcp_path.path_refl [of P "c_kcp s"] by (auto simp: conn_run_def)

lemma wake_run:
  assumes inv: "conn_inv s"
  shows "read_wake w t s = Some s' \<Longrightarrow> conn_run P 1 s [] s'" "write_wake w t s = Some s' \<Longrightarrow> conn_run P 1 s [] s'"
    "connect_wait s = Some s' \<Longrightarrow> conn_run P 1 s [] s'"
proof -
  have r: "event_ok c 1" if "try_recv (c_chReadEvent s) = Some (v, c)" for v c
    using event_recv(1) [OF _ that] inv by (simp add: conn_inv_def)
  have we: "event_ok c 1" if "try_recv (c_chWriteEvent s) = Some (v, c)" for v c
    using event_recv(1) [OF _ that] inv by (simp add: conn_inv_def)
  have d: "c = c_die s" if "try_recv (c_die s) = Some (v, c)" for v c
    using die_recv [OF _ that] inv by (simp add: conn_inv_def)
  show "conn_run P 1 s [] s'" if "read_wake w t s = Some s'"
    using that r d inv by (intro conn_run_fields; cases w) (fastforce simp: conn_inv_def split: if_splits)+
  show "conn_run P 1 s [] s'" if "write_wake w t s = Some s'"
    using that we d inv by (intro conn_run_fields; cases w) (fastforce simp: conn_inv_def split: if_splits)+
  show "conn_run P 1 s [] s'" if "connect_wait s = Some s'"
    using that we inv by (intro conn_run_fields) (fastforce simp: conn_inv_def connect_wait_def)+
qed

lemma setter_run:
  assumes inv: "conn_inv s"
  shows "SetDeadline t s = Inr s' \<Longrightarrow> conn_run P 1 s [] s'" "SetReadDeadline t s = Inr s' \<Longrightarrow> conn_run P 1 s [] s'"
    "SetWriteDeadline t s = Inr s' \<Longrightarrow> conn_run P 1 s [] s'"
    "op_ok (OpWndSize a b) (c_kcp s) \<Longrightarrow> conn_run P 1 s [] (SetWindowSize a b s)"
    "op_ok (OpMtu m) (c_kcp s) \<Longrightarrow> conn_run P 1 s [] (SetMtu m s)"
    "conn_run P 1 s [] (SetStreamMode e s)" "conn_run P 1 s [] (SetNoDelay nd iv rs nc s)" "conn_run P 1 s [] (SetKeepAlive v s)"
proof -
  have f: "conn_run P 0 s [] (s \<lparr> c_deadlineRead := t, c_deadlineWrite := u \<rparr>)"
    "conn_run P 0 s [] (s \<lparr> c_deadlineRead := t \<rparr>)" "conn_run P 0 s [] (s \<lparr> c_deadlineWrite := t \<rparr>)"
    "conn_run P 1 s [] (SetKeepAlive v s)" for t u
    using inv by (intro conn_run_fields; simp add: conn_inv_def SetKeepAlive_def)+
  then show "conn_run P 1 s [] (SetKeepAlive v s)" by blast
  have n: "conn_run P 0 q [] q'" if "conn_run P 0 s [] q" "notifyReadEvent q = Inr q' \<or> notifyWriteEvent q = Inr q'" for q q'
    using notify_run(1,2) [OF conn_run_inv [OF that(1)], of P] that(2) by auto
  show "conn_run P 1 s [] s'" if "SetReadDeadline t s = Inr s'"
    using conn_run_trans [OF f(2) n [OF f(2)]] conn_run_mono that by (fastforce simp: SetReadDeadline_def)
  show "conn_run P 1 s [] s'" if "SetWriteDeadline t s = Inr s'"
    using conn_run_trans [OF f(3) n [OF f(3)]] conn_run_mono that by (fastforce simp: SetWriteDeadline_def)
  show "conn_run P 1 s [] s'" if a: "SetDeadline t s = Inr s'"
  proof -
    obtain q where q: "notifyReadEvent (s \<lparr> c_deadlineRead := t, c_deadlineWrite := t \<rparr>) = Inr q" "notifyWriteEvent q = Inr s'"
      using a by (auto simp: SetDeadline_def bind_res_eq_Inr)
    have "conn_run P 0 s [] q" using conn_run_trans [OF f(1) n [OF f(1) disjI1 [OF q(1)]]] by simp
    from conn_run_trans [OF this n [OF this disjI2 [OF q(2)]]] have "conn_run P 0 s [] s'" by simp
    then show ?thesis by (rule conn_run_mono) simp
  qed
  have op: "conn_run P 1 s [] (s \<lparr> c_kcp := k \<rparr>)"
    if "op_ok op (c_kcp s)" "exec op (c_kcp s) = Inr k" "\<not> is_flush op" "accepted op (c_kcp s) = []" "taken op (c_kcp s) = []"
      "\<And>c p u. op \<noteq> OpInput c p u" for op k
    using conn_run_kcp [OF conn_run_refl [OF inv]] path_op [OF that(1) _ that(2), of P] that(3-) by fastforce
  show "conn_run P 1 s [] (SetWindowSize a b s)" if "op_ok (OpWndSize a b) (c_kcp s)"
    using op [OF that] by (simp add: SetWindowSize_def accepted_def taken_def)
  show "conn_run P 1 s [] (SetMtu m s)" if "op_ok (OpMtu m) (c_kcp s)"
    using op [OF that] by (simp add: SetMtu_def accepted_def taken_def)
  show "conn_run P 1 s [] (SetStreamMode e s)" using op [of "OpStream e"] by (simp add: SetStreamMode_def accepted_def taken_def)
  show "conn_run P 1 s [] (SetNoDelay nd iv rs nc s)"
    using op [of "OpNoDelay nd iv rs nc"] by (simp add: SetNoDelay_def accepted_def taken_def)
qed

lemma run_step_run:
  assumes inv: "conn_inv s" and r: "run_step wt now1 now2 ev r s = Some m"
  shows "\<exists>r' s'. m = Inr (r', s') \<and> conn_recv 1 s s'"
proof (cases "r_pc r")
  case MainHead
  then show ?thesis using r run_head_run [OF inv] conn_recv_run by (fastforce simp: run_step_def)
next
  case MainSelect
  then show ?thesis using r run_select_run [OF inv] by (simp add: run_step_def)
next
  case CloseHead
  then show ?thesis using r run_close_head_run [OF inv] conn_recv_run by (fastforce simp: run_step_def)
next
  case CloseSelect
  then show ?thesis using r run_close_select_run [OF inv] by (simp add: run_step_def)
next
  case Finishing
  obtain r' s' where f: "run_finish r s = (r', s')" by (cases "run_finish r s")
  have "conn_recv 1 s s'" by (rule conn_recv_run, rule conn_run_mono [OF run_finish_run [OF inv f]]) simp
  then show ?thesis using r f Finishing by (auto simp: run_step_def)
qed (use r in \<open>simp add: run_step_def\<close>)

lemma refines_recv_result:
  assumes inv: "conn_inv (x_conn x)" and ok: "conn_op_ok (CUdp r u) x"
    and c: "client_recv r u (x_conn x) = Some (Inr (b, s))"
  shows "refines (arrives (CUdp r u)) x (with_conn s x)"
proof (cases r)
  case RecvErr
  then show ?thesis
    using c conn_run_kcp [OF conn_run_refl [OF inv] path_counters(7)]
    by (intro refines_with_conn) (simp add: client_recv_def)
next
  case (RecvOk d)
  show ?thesis
  proof (cases u)
    case True
    then obtain v c' where t: "try_recv (c_die (x_conn x)) = Some (v, c')" "s = (x_conn x) \<lparr> c_die := c' \<rparr>"
      using c RecvOk by (auto simp: client_recv_def)
    then have "s = x_conn x" using die_recv [OF _ t(1)] inv by (simp add: conn_inv_def)
    then show ?thesis using conn_run_refl [OF inv] by (intro refines_with_conn) simp
  next
    case False
    then obtain c' where t: "try_send d (c_chUdpInput (x_conn x)) = Inr (True, c')" "s = (x_conn x) \<lparr> c_chUdpInput := c' \<rparr>"
      using c RecvOk by (auto simp: client_recv_def split: sum.splits if_splits)
    have "event_ok c' rxQueueLimit" "set (ch_items c') \<subseteq> insert d (x_udp x)"
      using try_send_event [of "c_chUdpInput (x_conn x)" rxQueueLimit d] t(1) inv by (auto simp: conn_inv_def)
    moreover from this have "conn_inv s" using inv t(2) ok RecvOk by (auto simp: conn_inv_def)
    ultimately show ?thesis using t(2) kcp_path.path_refl [of "x_udp x" "x_kcp x"] RecvOk
      by (fastforce simp: refines_def)
  qed
qed

lemma conn_exec_refines:
  assumes inv: "conn_inv (x_conn x)" and ok: "conn_op_ok op x" and e: "conn_exec wt op x = Some (Inr x')"
  shows "refines (arrives op) x x'"
proof -
  have idle: "refines (arrives op) x (x \<lparr> x_reader := rd, x_writer := wr \<rparr>)" for rd wr
    using refines_run [OF conn_run_refl [OF inv]] by simp
  have wc: "refines (arrives op) x y"
    if "conn_run (x_udp x) 1 (x_conn x) [] s" "x_conn y = s" "x_written y = x_written x" "x_read y = x_read x"
      "x_used y = x_used (with_conn s x)" for s y
    using refines_run [OF that(1)] that(2-) by simp
  show ?thesis
  proof (cases op)
    case (CConnect now)
    then show ?thesis using e kcp_call_runs(3) [OF inv, of wt "currentTickMs now" "x_udp x"]
      by (intro wc [of "x_conn x'"]) (auto simp: connect_flush_def bind_res_eq_Inr split: if_splits)
  next
    case CConnectWait
    then show ?thesis using e wake_run(3) [OF inv, of _ "x_udp x"]
      by (intro wc [of "x_conn x'"]) (auto split: if_splits)
  next
    case (CReadCall b)
    then show ?thesis using e idle [where rd = "RWoken b" and wr = "x_writer x"] by (auto split: if_splits)
  next
    case (CReadRound now1 now2)
    then obtain b out s where r: "Read_iter wt now1 now2 b (x_conn x) = Inr (out, s)" "x' = after_read b out (with_conn s x)"
      using e by (auto simp: bind_res_eq_Inr split: reader.splits)
    have d: "x_conn x' = s" "x_written x' = x_written x" "x_read x' = x_read x @ delivered out"
      "x_used x' = x_used (with_conn s x)" using r(2) by (cases out; simp)+
    show ?thesis using Read_iter_run [OF inv r(1), of "x_udp x"] d unfolding conn_deliver_def refines_def by auto
  next
    case (CReadWake w)
    then show ?thesis using e wake_run(1) [OF inv, of w _ _ "x_udp x"]
      by (intro wc [of "x_conn x'"]) (auto split: reader.splits)
  next
    case (CWriteCall b)
    then show ?thesis using e idle [where rd = "x_reader x" and wr = "WWoken b"] by (auto split: if_splits)
  next
    case (CWriteRound now)
    then obtain b out s where r: "Write_iter now b (x_conn x) = Inr (out, s)" "x' = after_write b out (with_conn s x)"
      using e by (auto simp: bind_res_eq_Inr split: writer.splits)
    have d: "x_conn x' = s" "x_written x' = x_written x @ written b out" "x_read x' = x_read x"
      "x_used x' = x_used (with_conn s x)" using r(2) by (cases out; simp)+
    have "conn_run (x_udp x) 1 (x_conn x) (written b out) s"
      by (rule conn_run_mono [OF Write_iter_run [OF inv r(1)]]) simp
    then show ?thesis using d by (intro refines_run) simp_all
  next
    case (CWriteWake w)
    then show ?thesis using e wake_run(2) [OF inv, of w _ _ "x_udp x"]
      by (intro wc [of "x_conn x'"]) (auto split: writer.splits)
  next
    case (CClose now)
    then show ?thesis using e closeInternal_run [OF inv, of wt now _ _ "x_udp x"]
      by (intro wc [of "x_conn x'"]) (auto simp: Close_def bind_res_eq_Inr)
  next
    case (CUdp r u)
    then show ?thesis using e refines_recv_result [OF inv, of r u] ok by (auto simp: bind_res_eq_Inr)
  next
    case (CRun now1 now2 ev)
    then obtain r s where r: "run_step wt now1 now2 ev (x_run x) (x_conn x) = Some (Inr (r, s))" "x' = (with_conn s x) \<lparr> x_run := r \<rparr>"
      using e by (auto simp: bind_res_eq_Inr)
    have "conn_recv 1 (x_conn x) s" using run_step_run [OF inv r(1)] by simp
    then show ?thesis using r(2) by (intro refines_recv [of _ s]) auto
  next
    case (CSetDeadline t)
    then show ?thesis using e ok setter_run(1) [OF inv]
      by (intro wc [of "x_conn x'"]) (auto simp: bind_res_eq_Inr)
  next
    case (CSetReadDeadline t)
    then show ?thesis using e ok setter_run(2) [OF inv]
      by (intro wc [of "x_conn x'"]) (auto simp: bind_res_eq_Inr)
  next
    case (CSetWriteDeadline t)
    then show ?thesis using e ok setter_run(3) [OF inv]
      by (intro wc [of "x_conn x'"]) (auto simp: bind_res_eq_Inr)
  next
    case (CSetWindowSize a b)
    then show ?thesis using e ok setter_run(4) [OF inv]
      by (intro wc [of "x_conn x'"]) (auto simp: bind_res_eq_Inr)
  next
    case (CSetMtu m)
    then show ?thesis using e ok setter_run(5) [OF inv]
      by (intro wc [of "x_conn x'"]) (auto simp: bind_res_eq_Inr)
  next
    case (CSetStreamMode b)
    then show ?thesis using e ok setter_run(6) [OF inv]
      by (intro wc [of "x_conn x'"]) (auto simp: bind_res_eq_Inr)
  next
    case (CSetNoDelay a b c d)
    then show ?thesis using e ok setter_run(7) [OF inv]
      by (intro wc [of "x_conn x'"]) (auto simp: bind_res_eq_Inr)
  next
    case (CSetKeepAlive v)
    then show ?thesis using e ok setter_run(8) [OF inv]
      by (intro wc [of "x_conn x'"]) (auto simp: bind_res_eq_Inr)
  qed
qed

section \<open>Reachable connections\<close>

definition sys_inv :: "csys \<Rightarrow> bool" where
  "sys_inv x \<longleftrightarrow> conn_inv (x_conn x)"

text \<open>The control object of a new connection, from the one \<open>newKCP\<close> makes.\<close>

lemma newKCPConn_path:
  "kcp_path P (newKCP \<lparr> conv := cv \<rparr>) [] [] 0 ((c_kcp newKCPConn) \<lparr> conv := cv, gstats := g \<rparr>)"
proof -
  let ?k0 = "newKCP \<lparr> conv := cv \<rparr>"
  let ?k1 = "snd (setWndSize defaultWndSize defaultWndSize ?k0)"
  let ?k2 = "snd (setMtu IKCP_MTU_DEF ?k1)"
  let ?k3 = "?k2 \<lparr> stream := 1 \<rparr>"
  have "kcp_path P ?k0 [] [] 0 ?k1"
    using path_op [of "OpWndSize defaultWndSize defaultWndSize" ?k0 P ?k1]
    by (simp add: accepted_def taken_def defaultWndSize_def newKCP_def const_defs)
  moreover have "kcp_path P ?k1 [] [] 0 ?k2"
    using path_op [of "OpMtu IKCP_MTU_DEF" ?k1 P ?k2]
    by (simp add: accepted_def taken_def defaultWndSize_def newKCP_def const_defs setWndSize_def udpPacketSizeLimit_def)
  moreover have "kcp_path P ?k2 [] [] 0 ?k3"
    using path_op [of "OpStream True" ?k2 P ?k3] by (simp add: accepted_def taken_def)
  ultimately have "kcp_path P ?k0 [] [] 0 ?k3"
    using path_trans [of P ?k1 "[]" "[]" 0 ?k2] path_trans [of P ?k2 "[]" "[]" 0 ?k3] by fastforce
  from path_then_stats [OF this, where x = KcpConnStats0 and y = g]
  show ?thesis by (simp add: newKCPConn_def Let_def newKCP_def setWndSize_def setMtu_def defaultWndSize_def const_defs)
qed

lemma sys_init_path:
  assumes "sys_init x"
  shows "\<exists>cv. kcp_path P (newKCP \<lparr> conv := cv \<rparr>) [] [] 0 (x_kcp x)" "conn_inv (x_conn x)" "x_udp x = {}" "x_buf x = []"
    "x_written x = []" "x_read x = []" "x_used x = 0"
proof -
  obtain cv g where k: "x_kcp x = (c_kcp newKCPConn) \<lparr> conv := cv, gstats := g \<rparr>"
    using assms by (auto simp: sys_init_def server_conn_def direct_conn_def client_conn_def csys0_def run_start_def accept_def connect_open_def)
  then show p: "\<exists>cv. kcp_path P (newKCP \<lparr> conv := cv \<rparr>) [] [] 0 (x_kcp x)" for P
    using newKCPConn_path by metis
  have "kcp_inv (newKCP \<lparr> conv := cv \<rparr>)" for cv by (rule kcp.init_inv) (auto simp: kcp_init_def)
  then have "kcp_inv (x_kcp x)" using p path_inv by blast
  then show "conn_inv (x_conn x)"
    using assms Buffer0_inv
    by (auto simp: sys_init_def server_conn_def direct_conn_def client_conn_def csys0_def run_start_def accept_def connect_open_def
        conn_inv_def newKCPConn_def Let_def event_ok_def make_chan_def chan_ok_def)
  show "x_udp x = {}" "x_buf x = []" "x_written x = []" "x_read x = []" "x_used x = 0"
    using assms Buffer0_inv
    by (auto simp: sys_init_def server_conn_def direct_conn_def client_conn_def csys0_def run_start_def accept_def connect_open_def
        newKCPConn_def Let_def make_chan_def)
qed

interpretation conn: invariant_system sys_init "conn_step wt" sys_inv for wt
proof
  show "sys_inv x" if "sys_init x" for x using sys_init_path(2) [OF that] by (simp add: sys_inv_def)
  show "sys_inv x'" if "sys_inv x" "conn_step wt x x'" for x x'
    using that(2,1) by cases (auto simp: sys_inv_def refines_def dest: conn_exec_refines)
qed

section \<open>Two connections and a network\<close>

text \<open>
  The network hands the second connection packets that the first one has handed out, in any order
  and any number of times; the first connection may be fed anything.
\<close>

record pair =
  p_a :: csys
  p_b :: csys

definition pair_init :: "pair \<Rightarrow> bool" where
  "pair_init s \<longleftrightarrow> sys_init (p_a s) \<and> sys_init (p_b s)"

inductive pair_step :: "link \<Rightarrow> link \<Rightarrow> pair \<Rightarrow> pair \<Rightarrow> bool" for wta wtb where
  first: "conn_op_ok op (p_a s) \<Longrightarrow> conn_exec wta op (p_a s) = Some (Inr x) \<Longrightarrow> pair_step wta wtb s (s \<lparr> p_a := x \<rparr>)"
| second: "conn_op_ok op (p_b s) \<Longrightarrow> arrives op \<subseteq> set (outputs (x_kcp (p_a s))) \<Longrightarrow>
    conn_exec wtb op (p_b s) = Some (Inr x) \<Longrightarrow> pair_step wta wtb s (s \<lparr> p_b := x \<rparr>)"

text \<open>The control objects of the two are a reachable state of the network of \<open>Kcp_Delivery\<close>.\<close>

definition simulates :: "net \<Rightarrow> pair \<Rightarrow> bool" where
  "simulates n s \<longleftrightarrow> reachable net_init net_step n \<and>
     sndr n = x_kcp (p_a s) \<and> rcvr n = x_kcp (p_b s) \<and> sent n = x_written (p_a s) \<and>
     got n = x_read (p_b s) @ x_buf (p_b s) \<and> used n = x_used (p_a s)"

definition pair_inv :: "pair \<Rightarrow> bool" where
  "pair_inv s \<longleftrightarrow> sys_inv (p_a s) \<and> sys_inv (p_b s) \<and> x_udp (p_b s) \<subseteq> set (outputs (x_kcp (p_a s))) \<and> (\<exists>n. simulates n s)"

lemma pair_init_sim:
  assumes "pair_init s"
  shows "\<exists>n. simulates n s"
proof -
  have a: "sys_init (p_a s)" and b: "sys_init (p_b s)" using assms by (simp_all add: pair_init_def)
  obtain cva where pa: "kcp_path {} (newKCP \<lparr> conv := cva \<rparr>) [] [] 0 (x_kcp (p_a s))" using sys_init_path(1) [OF a] by blast
  obtain cvb where pb: "kcp_path {} (newKCP \<lparr> conv := cvb \<rparr>) [] [] 0 (x_kcp (p_b s))" using sys_init_path(1) [OF b] by blast
  define n0 :: net where "n0 = \<lparr> sndr = newKCP \<lparr> conv := cva \<rparr>, rcvr = newKCP \<lparr> conv := cvb \<rparr>, sent = [], got = [], used = 0 \<rparr>"
  have n0: "net_init n0" by (auto simp: net_init_def n0_def kcp_init_def)
  obtain n1 where n1: "reachable net_init net_step n1" "sndr n1 = x_kcp (p_a s)" "rcvr n1 = rcvr n0" "sent n1 = []" "got n1 = []" "used n1 = 0"
    using net_sender_path [OF pa reach_init [of net_init, OF n0]] by (auto simp: n0_def)
  obtain n2 where n2: "reachable net_init net_step n2" "sndr n2 = sndr n1" "rcvr n2 = x_kcp (p_b s)" "sent n2 = []" "got n2 = []" "used n2 = 0"
    using net_receiver_path [OF pb n1(1)] n1 by (auto simp: n0_def)
  then show ?thesis using n1(2) sys_init_path(4-7) [OF a] sys_init_path(4-7) [OF b]
    by (intro exI [of _ n2]) (simp add: simulates_def)
qed

lemma refines_sim:
  assumes "simulates n s"
  shows "refines new (p_a s) x \<Longrightarrow> \<exists>n'. simulates n' (s \<lparr> p_a := x \<rparr>)"
    "refines new (p_b s) x \<Longrightarrow> x_udp (p_b s) \<subseteq> set (outputs (x_kcp (p_a s))) \<Longrightarrow> \<exists>n'. simulates n' (s \<lparr> p_b := x \<rparr>)"
proof -
  note n = assms [unfolded simulates_def]
  show "\<exists>n'. simulates n' (s \<lparr> p_a := x \<rparr>)" if r: "refines new (p_a s) x"
  proof -
    obtain w g f where p: "f \<le> 1" "kcp_path (x_udp (p_a s)) (x_kcp (p_a s)) w g f (x_kcp x)" "x_written x = x_written (p_a s) @ w"
      using r unfolding refines_def by blast
    obtain n' m where n': "reachable net_init net_step n'" "sndr n' = x_kcp x" "rcvr n' = rcvr n" "sent n' = sent n @ w"
      "got n' = got n" "used n' = used n + m" "m \<le> f * WND_MAX" "snd_nxt (x_kcp x) = snd_nxt (x_kcp (p_a s)) + of_nat m"
      using net_sender_path [OF p(2), of n] n by auto
    have "m \<le> WND_MAX" using n'(7) p(1) by (cases f) auto
    then have "soff (snd_nxt (x_kcp (p_a s))) (snd_nxt (x_kcp x)) = m" using n'(8) by (simp add: soff_of_nat WND_MAX_def)
    then show ?thesis using n n' p(3) r by (intro exI [of _ n']) (simp add: simulates_def refines_def)
  qed
  show "\<exists>n'. simulates n' (s \<lparr> p_b := x \<rparr>)" if r: "refines new (p_b s) x" "x_udp (p_b s) \<subseteq> set (outputs (x_kcp (p_a s)))"
  proof -
    obtain w g f where p: "kcp_path (x_udp (p_b s)) (x_kcp (p_b s)) w g f (x_kcp x)" "x_read (p_b s) @ x_buf (p_b s) @ g = x_read x @ x_buf x"
      using r unfolding refines_def by blast
    obtain n' where "reachable net_init net_step n'" "sndr n' = sndr n" "rcvr n' = x_kcp x" "sent n' = sent n"
      "got n' = got n @ g" "used n' = used n"
      using net_receiver_path [OF p(1), of n] n r(2) by auto
    then show ?thesis using n p(2) by (intro exI [of _ n']) (simp add: simulates_def)
  qed
qed

interpretation pair: invariant_system pair_init "pair_step wta wtb" pair_inv for wta wtb
proof
  show "pair_inv s" if "pair_init s" for s
    using that sys_init_path(2,3) pair_init_sim by (auto simp: pair_inv_def pair_init_def sys_inv_def)
  show "pair_inv s'" if inv: "pair_inv s" and st: "pair_step wta wtb s s'" for s s'
    using st
  proof cases
    case (first op x)
    have r: "refines (arrives op) (p_a s) x"
      using conn_exec_refines [OF _ first(2,3)] inv by (simp add: pair_inv_def sys_inv_def)
    have "prefix (outputs (x_kcp (p_a s))) (outputs (x_kcp x))"
      using r inv path_outputs conn_inv_sel(1) unfolding refines_def pair_inv_def sys_inv_def by blast
    then have "set (outputs (x_kcp (p_a s))) \<subseteq> set (outputs (x_kcp x))" by (rule set_mono_prefix)
    then show ?thesis using first(1) inv r refines_sim(1) [OF _ r] by (auto simp: pair_inv_def sys_inv_def refines_def)
  next
    case (second op x)
    have r: "refines (arrives op) (p_b s) x"
      using conn_exec_refines [OF _ second(2,4)] inv by (simp add: pair_inv_def sys_inv_def)
    then show ?thesis using second(1,3) inv refines_sim(2) [OF _ r] unfolding pair_inv_def sys_inv_def refines_def by auto
  qed
qed

lemma pair_delivery:
  assumes "reachable pair_init (pair_step wta wtb) s" "x_used (p_a s) < 2 ^ 32"
  shows "prefix (x_read (p_b s) @ x_buf (p_b s) @ qbytes (rcv_queue (x_kcp (p_b s)))) (x_written (p_a s))"
    and "rcv_nxt (x_kcp (p_b s)) = snd_nxt (x_kcp (p_a s)) \<Longrightarrow>
      x_written (p_a s) = x_read (p_b s) @ x_buf (p_b s) @ qbytes (rcv_queue (x_kcp (p_b s))) @ qbytes (snd_queue (x_kcp (p_a s)))"
proof -
  obtain n where n: "simulates n s" using pair.reachable_inv [OF assms(1)] by (auto simp: pair_inv_def)
  then show "prefix (x_read (p_b s) @ x_buf (p_b s) @ qbytes (rcv_queue (x_kcp (p_b s)))) (x_written (p_a s))"
    and "rcv_nxt (x_kcp (p_b s)) = snd_nxt (x_kcp (p_a s)) \<Longrightarrow>
      x_written (p_a s) = x_read (p_b s) @ x_buf (p_b s) @ qbytes (rcv_queue (x_kcp (p_b s))) @ qbytes (snd_queue (x_kcp (p_a s)))"
    using net_delivery [of n] assms(2) by (simp_all add: simulates_def)
qed

end
