(* ===== verification/Conn_Safety.thy ===== *)
theory Conn_Safety
  imports Conn_System
begin

text \<open>
  Which calls of a connection can panic, and who wakes a blocked reader. The state bits of the
  control object carry both: \<open>CONNECTED\<close> is set by the peer's \<open>CONNECT\<close>, \<open>REMOTE_CLOSED\<close> by its
  empty segment, \<open>LOCAL_CLOSED\<close> by the first close.
\<close>

section \<open>The state bits\<close>

lemma state_bits:
  "isStateConnected k \<longleftrightarrow> bit (state k) 0" "isStateRemoteClosed k \<longleftrightarrow> bit (state k) 1"
  "isStateLocalClosed k \<longleftrightarrow> bit (state k) 2" "isStateDead k \<longleftrightarrow> bit (state k) 3"
  using and_exp_eq_0_iff_not_bit [of "state k" 0] and_exp_eq_0_iff_not_bit [of "state k" 1]
    and_exp_eq_0_iff_not_bit [of "state k" 2] and_exp_eq_0_iff_not_bit [of "state k" 3]
  by (simp_all add: isStateConnected_def isStateRemoteClosed_def isStateLocalClosed_def isStateDead_def const_defs)

lemma and_single_bit: "(w :: u32) AND 2 ^ n = (if bit w n then 2 ^ n else 0)"
  by (rule bit_word_eqI) (auto simp: bit_simps)

lemma and_state_bits: "(w :: u32) AND 2 = (if bit w 1 then 2 else 0)" "w AND 4 = (if bit w 2 then 4 else 0)"
  "w AND 8 = (if bit w 3 then 8 else 0)"
  using and_single_bit [of w 1] and_single_bit [of w 2] and_single_bit [of w 3] by simp_all

lemma state_queries:
  "shouldClose k \<longleftrightarrow> isStateRemoteClosed k \<and> \<not> isStateLocalClosed k"
  "isAllOpen k \<longleftrightarrow> \<not> isStateRemoteClosed k \<and> \<not> isStateLocalClosed k \<and> \<not> isStateDead k"
  "isRemoteOpen k \<longleftrightarrow> \<not> isStateRemoteClosed k \<and> \<not> isStateDead k"
proof -
  have c: "IKCP_STATE_REMOTE_CLOSED = 2" "IKCP_STATE_LOCAL_CLOSED = 4" "IKCP_STATE_DEAD = 8"
    by (simp_all add: const_defs)
  have d: "w AND (a OR b) = (w AND a) OR (w AND b)" for w a b :: u32
    by (rule bit_word_eqI) (auto simp: bit_simps)
  show "shouldClose k \<longleftrightarrow> isStateRemoteClosed k \<and> \<not> isStateLocalClosed k"
    "isAllOpen k \<longleftrightarrow> \<not> isStateRemoteClosed k \<and> \<not> isStateLocalClosed k \<and> \<not> isStateDead k"
    "isRemoteOpen k \<longleftrightarrow> \<not> isStateRemoteClosed k \<and> \<not> isStateDead k"
    unfolding state_bits shouldClose_def isAllOpen_def isRemoteOpen_def c d and_state_bits
    by auto
qed

text \<open>How one operation changes the bits.\<close>

definition bits_step :: "u32 \<Rightarrow> u32 \<Rightarrow> bool" where
  "bits_step w w' \<longleftrightarrow> w' = w \<or> w' = w OR IKCP_STATE_CONNECTED \<or> w' = w OR IKCP_STATE_REMOTE_CLOSED \<or>
     w' = (w OR IKCP_STATE_LOCAL_CLOSED) AND NOT IKCP_STATE_CONNECTED"

lemma bits_step_keep:
  "bits_step w w' \<Longrightarrow> bit w 1 \<Longrightarrow> bit w' 1" "bits_step w w' \<Longrightarrow> bit w 2 \<Longrightarrow> bit w' 2"
  "bits_step w w' \<Longrightarrow> bit w' 3 = bit w 3"
  by (auto simp: bits_step_def bit_simps const_defs)

lemma state_keep [simp]:
  "state (parse_data seg k) = state k" "state (ack_push sn ts k) = state k" "state (shrink_buf k) = state k"
  "state (parse_una una k) = state k" "state (parse_ack sn k) = state k" "state (seg_repeat k) = state k"
  by (simp_all add: parse_data_def move_ready_def ack_push_def shrink_buf_def parse_una_def parse_ack_def seg_repeat_def
      Let_def split: prod.split list.split)

lemma input_seg_state:
  "input_seg h d v k = Inr (v', k') \<Longrightarrow> state k' = state k \<or> state k' = state k OR IKCP_STATE_CONNECTED"
  by (auto simp: input_seg_def input_connect_def input_ack_def input_push_def bind_res_eq_Inr Let_def split: if_splits)

lemma recvSize_state: "state (snd (recvSize k)) = state k \<or> state (snd (recvSize k)) = state k OR IKCP_STATE_REMOTE_CLOSED"
  by (simp add: recvSize_def split: list.split)

lemma input_rtt_state: "state (input_rtt current upd v k) = state k" "rcv_view (input_rtt current upd v k) = rcv_view k"
  by (simp_all add: input_rtt_def update_ack_def rtt_sample_def parse_fastack_def rcv_view_def Let_def)

lemma input_state:
  assumes "input current data upd k = Inr (r, k')"
  shows "state k' = state k \<or> state k' = state k OR IKCP_STATE_CONNECTED"
  using assms
proof (cases rule: input_cases)
  case rejected
  then show ?thesis
    using input_loop_preserves [where P = "\<lambda>q. state q = state k \<or> state q = state k OR IKCP_STATE_CONNECTED"] input_seg_state
    by (metis (no_types, lifting) or.right_idem)
next
  case (accepted v q a b)
  have "state q = state k \<or> state q = state k OR IKCP_STATE_CONNECTED"
    using input_loop_preserves [where P = "\<lambda>q. state q = state k \<or> state q = state k OR IKCP_STATE_CONNECTED", OF _ accepted(1)] input_seg_state
    by (metis (no_types, lifting) or.right_idem)
  then show ?thesis using accepted(3) input_rtt_state by auto
qed simp

lemma flush_state: "kcp_inv k \<Longrightarrow> flush current k = Inr k' \<Longrightarrow> state k' = state k"
  using flush_ok [of k current] by (auto simp: kcp_inv_def flush_frame_def)

lemma close_state:
  assumes inv: "kcp_inv k" and e: "sendCloseFlush c k = Inr k'"
  shows "state k' = (if isStateConnected k \<and> \<not> isStateLocalClosed k
     then (state k OR IKCP_STATE_LOCAL_CLOSED) AND NOT IKCP_STATE_CONNECTED else state k)"
  using e flush_state [OF enqueue_empty [of "k \<lparr> state := (state k OR IKCP_STATE_LOCAL_CLOSED) AND NOT IKCP_STATE_CONNECTED \<rparr>" IKCP_CMD_PUSH], of c k'] inv
  by (auto simp: sendCloseFlush_def newSegment_0 Let_def split: if_splits)

lemma quiet_state:
  assumes inv: "kcp_inv k" and e: "exec op k = Inr k'"
    and op: "\<And>c p u. op \<noteq> OpInput c p u" "op \<noteq> OpRecvSize" "\<And>c. op \<noteq> OpClose c"
  shows "state k' = state k"
proof (cases op)
  case (OpUpdate c)
  let ?k = "k \<lparr> updated := (if updated k = 0 then 1 else updated k), ts_flush := next_flush c k \<rparr>"
  have "kcp_inv ?k" using inv by (simp add: kcp_inv_def flush_pre_def cfg_inv_def)
  then show ?thesis using e OpUpdate flush_state [of ?k c k'] by (auto simp: update_eq split: if_splits)
next
  case (OpSend buf)
  then show ?thesis using e send_only_queue [OF inv, of buf] by (fastforce simp: bind_res_eq_Inr)
next
  case (OpConnect c)
  then show ?thesis
    using e flush_state [OF enqueue_empty [OF inv, of IKCP_CMD_CONNECT], of c k']
    by (auto simp: sendConnectFlush_def newSegment_0 split: if_splits)
next
  case (OpRecv buf)
  then show ?thesis using e by (auto simp: recv_def bind_res_eq_Inr move_ready_def Let_def split: if_splits)
qed (use e op flush_state [OF inv] in \<open>auto simp: setMtu_def setNoDelay_def setWndSize_def Let_def\<close>)

lemma exec_bits:
  assumes inv: "kcp_inv k" and e: "exec op k = Inr k'"
  shows "bits_step (state k) (state k')"
proof -
  consider (input) c p u where "op = OpInput c p u" | (size) "op = OpRecvSize" | (close) c where "op = OpClose c"
    | (quiet) "\<And>c p u. op \<noteq> OpInput c p u" "op \<noteq> OpRecvSize" "\<And>c. op \<noteq> OpClose c" by blast
  then show ?thesis
  proof cases
    case input
    then show ?thesis using e input_state by (fastforce simp: bind_res_eq_Inr bits_step_def)
  next
    case size
    then show ?thesis using e recvSize_state [of k] by (auto simp: bits_step_def)
  next
    case close
    then show ?thesis using e close_state [OF inv] by (simp add: bits_step_def)
  next
    case quiet
    then show ?thesis using quiet_state [OF inv e] by (simp add: bits_step_def)
  qed
qed

lemma path_bits:
  assumes "kcp_path P k w g f k'" "kcp_inv k"
  shows "isStateLocalClosed k \<Longrightarrow> isStateLocalClosed k'" "isStateDead k' = isStateDead k"
    "isStateRemoteClosed k \<Longrightarrow> isStateRemoteClosed k'"
proof -
  have "(isStateLocalClosed k \<longrightarrow> isStateLocalClosed k') \<and> isStateDead k' = isStateDead k \<and>
      (isStateRemoteClosed k \<longrightarrow> isStateRemoteClosed k')"
    using assms
  proof (induction rule: kcp_path.induct)
    case (path_step w g f k1 op k2)
    have "bits_step (state k1) (state k2)"
      using exec_bits [OF path_inv [OF path_step.hyps(1)] path_step.hyps(4)] path_step.prems by blast
    then show ?case using path_step bits_step_keep by (simp add: state_bits)
  qed simp
  then show "isStateLocalClosed k \<Longrightarrow> isStateLocalClosed k'" "isStateDead k' = isStateDead k"
    "isStateRemoteClosed k \<Longrightarrow> isStateRemoteClosed k'" by simp_all
qed

section \<open>Nothing is received before the handshake\<close>

text \<open>
  A control object is closed, or connected, or has received nothing yet. A peer that opens with a
  \<open>PUSH\<close> of sequence number 0 breaks this; \<open>opens_ok\<close> says that a datagram carries none.
\<close>

definition opened :: "KCP \<Rightarrow> bool" where
  "opened k \<longleftrightarrow> isStateConnected k \<or> isStateLocalClosed k \<or>
     rcv_nxt k = 0 \<and> rcv_queue k = [] \<and> (\<forall>s \<in> set (rcv_buf k). s_sn s \<noteq> 0) \<and> \<not> isStateRemoteClosed k"

function opens_ok :: "bytes \<Rightarrow> bool" where
  "opens_ok data =
     (if length data < IKCP_OVERHEAD then True
      else case decode_header data of
             Inl e \<Rightarrow> True
           | Inr (h, d) \<Rightarrow> \<not> (ucast (h_cmd h) = IKCP_CMD_PUSH \<and> h_sn h = 0) \<and> opens_ok (drop (unat (h_len h)) d))"
  by pat_completeness auto
termination
  by (relation "measure length") (auto dest!: decode_header_exact simp: IKCP_OVERHEAD_def)

declare opens_ok.simps [simp del]

lemma opened_fields:
  "state k' = state k \<Longrightarrow> rcv_view k' = rcv_view k \<Longrightarrow> opened k' = opened k"
  by (simp add: opened_def rcv_view_def state_bits)

lemma opened_move:
  assumes "rcv_nxt k = 0" "\<forall>s \<in> set (rcv_buf k). s_sn s \<noteq> 0"
  shows "rcv_view (move_ready k) = rcv_view k"
proof -
  have "ready_count (rcv_buf k) 0 room = 0" for room using assms(2) by (cases "rcv_buf k") auto
  then show ?thesis using assms(1) by (simp add: move_ready_def rcv_view_def)
qed

lemma opened_parse_data:
  assumes o: "opened k" and sn: "s_sn seg \<noteq> 0"
  shows "opened (parse_data seg k)"
proof (cases "isStateConnected k \<or> isStateLocalClosed k")
  case True
  then show ?thesis by (auto simp: opened_def state_bits)
next
  case False
  then have n: "rcv_nxt k = 0" "rcv_queue k = []" "\<forall>s \<in> set (rcv_buf k). s_sn s \<noteq> 0" "\<not> isStateRemoteClosed k"
    using o by (auto simp: opened_def)
  define q where "q = rcv_filed seg k"
  have p: "parse_data seg k = k \<or> parse_data seg k = move_ready q"
    by (auto simp: parse_data_def q_def rcv_filed_def Let_def split: prod.splits)
  have set: "set (rcv_buf q) \<subseteq> insert seg (set (rcv_buf k))"
    using find_slot_le [of "rcv_buf k" "s_sn seg" "length (rcv_buf k)"]
    by (auto simp: q_def rcv_filed_def insert_seg_eq dest: in_set_takeD in_set_dropD split: prod.splits if_splits)
  have q: "rcv_nxt q = 0" "rcv_queue q = []" "\<not> isStateRemoteClosed q"
    using n by (auto simp: q_def rcv_filed_def state_bits split: prod.splits)
  have "\<forall>s \<in> set (rcv_buf q). s_sn s \<noteq> 0" using set n(3) sn by auto
  note m = opened_move [OF q(1) this]
  have "opened q" using q n(3) set sn by (auto simp: opened_def)
  then have "opened (move_ready q)" using opened_fields [OF _ m] by (simp add: move_ready_def Let_def)
  then show ?thesis using p o by auto
qed

lemma opened_push:
  assumes "opened k" "input_push h d k = Inr k'" "h_sn h \<noteq> 0"
  shows "opened k'"
proof -
  have a: "opened (ack_push sn ts k)" "opened (seg_repeat (ack_push sn ts k))" "opened (seg_repeat k)" for sn ts
    using assms(1) opened_fields [of "ack_push sn ts k" k] opened_fields [of "seg_repeat (ack_push sn ts k)" k]
      opened_fields [of "seg_repeat k" k]
    by (simp_all add: ack_push_def seg_repeat_def rcv_view_def)
  then show ?thesis using assms(2,3) opened_parse_data [OF a(1)]
    by (auto simp: input_push_def bind_res_eq_Inr Let_def split: if_splits)
qed

lemma opened_connect: "opened k \<Longrightarrow> opened (input_connect h k)"
proof -
  assume o: "opened k"
  show ?thesis
  proof (cases "rcv_nxt k = 0")
    case True
    then have "isStateConnected (input_connect h k)"
      by (simp add: input_connect_def state_bits Let_def ack_push_def bit_simps const_defs)
    then show ?thesis by (simp add: opened_def)
  qed (use o in \<open>simp add: input_connect_def\<close>)
qed

lemma opened_seg:
  assumes o: "opened k" and h: "\<not> (ucast (h_cmd h) = IKCP_CMD_PUSH \<and> h_sn h = 0)" and e: "input_seg h d v k = Inr (v', k')"
  shows "opened k'"
proof -
  define q where "q = shrink_buf (parse_una (h_una h) (k \<lparr> rmt_wnd := ucast (h_wnd h) \<rparr>))"
  have v: "rcv_view q = rcv_view k" "rcv_view (shrink_buf (parse_ack (h_sn h) q)) = rcv_view k"
    "rcv_view (q \<lparr> probe := p \<rparr>) = rcv_view k" for p
    unfolding q_def rcv_view_def by (simp_all add: shrink_buf_def parse_una_def parse_ack_def split: list.split)
  have "opened q" "opened (shrink_buf (parse_ack (h_sn h) q))" "opened (q \<lparr> probe := p \<rparr>)" for p
    using o opened_fields [OF _ v(1)] opened_fields [OF _ v(2)] opened_fields [OF _ v(3)] by (simp_all add: q_def)
  then show ?thesis
    using e h opened_connect [of q h] opened_push [of q h d] unfolding input_seg_def q_def [symmetric] Let_def
    by (auto simp: input_ack_def bind_res_eq_Inr Let_def split: if_splits)
qed

lemma opened_loop:
  "input_loop data v k = Inr (ex, k') \<Longrightarrow> opens_ok data \<Longrightarrow> opened k \<Longrightarrow> opened k'"
proof (induction data v k rule: input_loop.induct)
  case (1 data v k)
  show ?case
  proof (cases "length data < IKCP_OVERHEAD")
    case True
    then show ?thesis using 1(2,4) by (subst (asm) input_loop.simps) simp
  next
    case False
    obtain h d where hd: "decode_header data = Inr (h, d)"
      using 1(2) False by (subst (asm) input_loop.simps) (auto split: sum.splits)
    have ok: "\<not> (ucast (h_cmd h) = IKCP_CMD_PUSH \<and> h_sn h = 0)" "opens_ok (drop (unat (h_len h)) d)"
      using 1(3) False hd by (subst (asm) opens_ok.simps, simp)+
    show ?thesis using 1(2,4) "1.IH" [OF False hd refl] False hd ok opened_seg [OF 1(4) ok(1)]
      by (subst (asm) input_loop.simps) (auto split: if_splits sum.splits prod.splits)
  qed
qed

lemma opened_input:
  assumes "input current data upd k = Inr (r, k')" "opens_ok data" "opened k"
  shows "opened k'"
  using assms(1)
proof (cases rule: input_cases)
  case rejected
  then show ?thesis using opened_loop assms(2,3) by blast
next
  case (accepted v q a b)
  have "state k' = state q" "rcv_view k' = rcv_view q"
    using accepted(3) input_rtt_state [of current upd v q] by (auto simp: rcv_view_def)
  then show ?thesis using opened_fields opened_loop [OF accepted(1) assms(2,3)] by blast
qed (use assms in simp)

lemma opened_recv:
  assumes "opened k" "recv buf k = Inr (n, p, k')"
  shows "opened k'"
proof (cases "isStateConnected k \<or> isStateLocalClosed k")
  case True
  moreover have "state k' = state k"
    using assms(2) by (auto simp: recv_def bind_res_eq_Inr move_ready_def Let_def split: if_splits)
  ultimately show ?thesis by (auto simp: opened_def state_bits)
next
  case False
  then have n: "rcv_nxt k = 0" "rcv_queue k = []" "\<forall>s \<in> set (rcv_buf k). s_sn s \<noteq> 0" "\<not> isStateRemoteClosed k"
    using assms(1) by (auto simp: opened_def)
  have "k \<lparr> rcv_queue := drop c (rcv_queue k) \<rparr> = k" for c using n(2) by simp
  then have "k' = move_ready k \<or> (\<exists>x. k' = (move_ready k) \<lparr> probe := x \<rparr>)"
    using assms(2) by (auto simp: recv_def bind_res_eq_Inr Let_def split: if_splits)
  then have "rcv_view k' = rcv_view k" "state k' = state k"
    using opened_move [OF n(1,3)] by (auto simp: rcv_view_def move_ready_def Let_def)
  then show ?thesis using opened_fields assms(1) by blast
qed

lemma opened_close:
  assumes "kcp_inv k" "opened k" "sendCloseFlush c k = Inr k'"
  shows "opened k'"
proof (cases "isStateConnected k \<and> \<not> isStateLocalClosed k")
  case True
  then have "isStateLocalClosed k'"
    using close_state [OF assms(1,3)] closed_bits(1) by (simp add: isStateLocalClosed_def)
  then show ?thesis by (simp add: opened_def)
next
  case False
  then have "k' = k" using assms(3) by (auto simp: sendCloseFlush_def)
  then show ?thesis using assms(2) by simp
qed

lemma opened_recvSize: "opened k \<Longrightarrow> opened (snd (recvSize k))"
proof (cases "rcv_queue k")
  case Nil
  then show "opened k \<Longrightarrow> ?thesis" by (simp add: recvSize_def)
next
  case (Cons a q)
  assume "opened k"
  then have "isStateConnected k \<or> isStateLocalClosed k" using Cons by (auto simp: opened_def)
  then show ?thesis using recvSize_state [of k] by (auto simp: opened_def state_bits bit_simps)
qed

lemma exec_opened:
  assumes inv: "kcp_inv k" and o: "opened k" and e: "exec op k = Inr k'"
    and p: "\<And>c p u. op = OpInput c p u \<Longrightarrow> opens_ok p"
  shows "opened k'"
proof -
  consider (input) c p u where "op = OpInput c p u" | (recv) buf where "op = OpRecv buf" | (size) "op = OpRecvSize"
    | (close) c where "op = OpClose c"
    | (quiet) "\<And>c p u. op \<noteq> OpInput c p u" "\<And>buf. op \<noteq> OpRecv buf" "op \<noteq> OpRecvSize" "\<And>c. op \<noteq> OpClose c" by blast
  then show ?thesis
  proof cases
    case input
    then show ?thesis using e p opened_input [OF _ _ o] by (fastforce simp: bind_res_eq_Inr)
  next
    case recv
    then show ?thesis using e opened_recv [OF o] by (fastforce simp: bind_res_eq_Inr)
  next
    case size
    then show ?thesis using e opened_recvSize [OF o] by simp
  next
    case close
    then show ?thesis using e opened_close [OF inv o] by simp
  next
    case quiet
    then show ?thesis using quiet_state [OF inv e] exec_rcv_view [OF inv e] opened_fields o by blast
  qed
qed

lemma path_opened:
  "kcp_path P k w g f k' \<Longrightarrow> kcp_inv k \<Longrightarrow> opened k \<Longrightarrow> (\<And>p. p \<in> P \<Longrightarrow> opens_ok p) \<Longrightarrow> opened k'"
proof (induction rule: kcp_path.induct)
  case (path_step w g f k1 op k2)
  show ?case
    using exec_opened [OF path_inv [OF path_step.hyps(1)] _ path_step.hyps(4)] path_step by blast
qed

section \<open>Who touches \<open>die\<close> and the read event\<close>

lemma kcpOutputs_state: "state (kcpOutputs wt i ps k) = state k"
  by (induction ps arbitrary: i k) (simp_all add: kcpOutput_def)

definition rd_frame :: "KCPConn \<Rightarrow> unit chan \<times> unit chan" where
  "rd_frame s = (c_die s, c_chReadEvent s)"

lemma rd_frame_upd [simp]:
  "rd_frame (s \<lparr> c_kcp := k \<rparr>) = rd_frame s" "rd_frame (s \<lparr> c_chWriteEvent := c \<rparr>) = rd_frame s"
  "rd_frame (s \<lparr> c_chKcpFlushEvent := c \<rparr>) = rd_frame s" "rd_frame (s \<lparr> c_chUdpInput := u \<rparr>) = rd_frame s"
  by (simp_all add: rd_frame_def)

lemma kcp_call_frame: "kcp_call wt f s = Inr s' \<Longrightarrow> rd_frame s' = rd_frame s"
  by (auto simp: kcp_call_def bind_res_eq_Inr Let_def split: if_splits)

lemma notify_frame: "notifyWriteEvent s = Inr s' \<Longrightarrow> rd_frame s' = rd_frame s" "notifyFlushEvent s = Inr s' \<Longrightarrow> rd_frame s' = rd_frame s"
  "notifyReadEvent s = Inr s' \<Longrightarrow> c_die s' = c_die s \<and> c_kcp s' = c_kcp s"
  by (auto simp: notifyWriteEvent_def notifyFlushEvent_def notifyReadEvent_def bind_res_eq_Inr)

lemma Write_iter_frame: "Write_iter now b s = Inr (out, s') \<Longrightarrow> rd_frame s' = rd_frame s"
  by (auto simp: Write_iter_def Write_send_def Let_def bind_res_eq_Inr dest: notify_frame split: if_splits option.splits)

lemma run_leave_frame: "run_leave wt now1 now2 r s = Inr (r', s') \<Longrightarrow> rd_frame s' = rd_frame s"
  by (auto simp: run_leave_def Let_def bind_res_eq_Inr dest: kcp_call_frame split: if_splits)

lemma run_head_frame: "run_head wt now1 now2 r s = Inr (r', s') \<Longrightarrow> rd_frame s' = rd_frame s"
  by (auto simp: run_head_def Let_def bind_res_eq_Inr dest!: kcp_call_frame notify_frame(1) run_leave_frame split: if_splits)

lemma run_close_head_frame: "run_close_head wt now1 now2 r s = Inr (r', s') \<Longrightarrow> rd_frame s' = rd_frame s"
  by (auto simp: run_close_head_def Let_def bind_res_eq_Inr dest: kcp_call_frame split: if_splits)

lemma input_greet_frame: "input_greet wt now c s = Inr s' \<Longrightarrow> rd_frame s' = rd_frame s"
  by (auto simp: input_greet_def bind_res_eq_Inr dest!: kcp_call_frame notify_frame(1) split: if_splits)

lemma input_notify_die: "input_notify s = Inr s' \<Longrightarrow> c_die s' = c_die s"
  by (auto simp: input_notify_def case_prod_unfold Let_def dest: notify_frame(3) split: if_splits)

lemma doKcpInput_die: "doKcpInput wt now1 now2 data s = Inr s' \<Longrightarrow> c_die s' = c_die s"
  by (auto simp: doKcpInput_def Let_def bind_res_eq_Inr rd_frame_def dest!: input_greet_frame input_notify_die)

lemma closeInternal_local:
  assumes inv: "conn_inv s" and c: "closeInternal wt now s = Inr (err, s')" and o: "isStateConnected (c_kcp s) \<or> isStateLocalClosed (c_kcp s)"
  shows "isStateLocalClosed (c_kcp s')"
proof (cases "isStateLocalClosed (c_kcp s)")
  case True
  then show ?thesis using c by (simp add: closeInternal_def)
next
  case False
  then obtain d where d: "close_chan (c_die s) = Inr d" "kcp_call wt (sendCloseFlush (currentTickMs now)) (s \<lparr> c_die := d \<rparr>) = Inr s'"
    using c conn_inv_sel(3) [OF inv] by (auto simp: closeInternal_def bind_res_eq_Inr)
  then obtain k where k: "sendCloseFlush (currentTickMs now) (c_kcp s) = Inr k" "state (c_kcp s') = state k"
    by (auto simp: kcp_call_def bind_res_eq_Inr Let_def kcpOutputs_state split: if_splits)
  then show ?thesis using close_state [OF conn_inv_sel(1) [OF inv] k(1)] closed_bits(1) o False by (simp add: isStateLocalClosed_def)
qed

lemma closeInternal_total:
  assumes inv: "conn_inv s" and d: "ch_closed (c_die s) \<Longrightarrow> isStateLocalClosed (c_kcp s)"
  shows "\<exists>err s'. closeInternal wt now s = Inr (err, s')"
proof (cases "isStateLocalClosed (c_kcp s)")
  case True
  then show ?thesis by (simp add: closeInternal_def)
next
  case False
  then have c: "close_chan (c_die s) = Inr ((c_die s) \<lparr> ch_closed := True \<rparr>)" using d by (auto simp: close_chan_def)
  have "conn_inv (s \<lparr> c_die := (c_die s) \<lparr> ch_closed := True \<rparr> \<rparr>)" using inv by (simp add: conn_inv_def)
  from kcp_call_runs(4) [OF this, of wt "currentTickMs now" "{}"] show ?thesis
    using False c by (auto simp: closeInternal_def)
qed

section \<open>Calls that do not panic\<close>

definition safe_conn :: "KCPConn \<Rightarrow> bool" where
  "safe_conn s \<longleftrightarrow> conn_inv s \<and> opened (c_kcp s) \<and> (ch_closed (c_die s) \<longrightarrow> isStateLocalClosed (c_kcp s)) \<and>
     (\<forall>p \<in> set (ch_items (c_chUdpInput s)). opens_ok p)"

text \<open>
  The contract under which no call panics: \<open>Write\<close> gets a non-empty slice that \<open>send\<close> does not
  refuse, \<open>Close\<close> is called once the handshake is complete (or again after that), and the peer
  does not open with a \<open>PUSH\<close> of sequence number 0.
\<close>

fun safe_op :: "conn_op \<Rightarrow> csys \<Rightarrow> bool" where
  "safe_op (CClose now) x \<longleftrightarrow> isStateConnected (x_kcp x) \<or> isStateLocalClosed (x_kcp x)"
| "safe_op (CUdp (RecvOk d) u) x \<longleftrightarrow> length d \<le> udpPacketSizeLimit \<and> opens_ok d"
| "safe_op (CWriteRound now) x \<longleftrightarrow>
     (case x_writer x of
        WWoken b \<Rightarrow> b \<noteq> [] \<and> (stream (x_kcp x) = 0 \<longrightarrow> int (length b) \<le> 255 * mss (x_kcp x))
      | _ \<Rightarrow> True)"
| "safe_op op x \<longleftrightarrow> conn_op_ok op x"

lemma safe_op_ok: "safe_op op x \<Longrightarrow> conn_op_ok op x"
  by (cases "(op, x)" rule: safe_op.cases) simp_all

lemma send_accepts:
  assumes inv: "kcp_inv k" and b: "b \<noteq> []" "stream k = 0 \<longrightarrow> int (length b) \<le> 255 * mss k"
  shows "\<exists>k'. send b k = Inr (0, k')"
proof (cases "stream k = 0")
  case True
  note m = kcp_inv_mss [OF inv]
  have "length b + nat (mss k) - 1 < 256 * nat (mss k)" using b True m(1) by auto
  then have "(length b + nat (mss k) - 1) div nat (mss k) < 256" by (rule less_mult_imp_div_less)
  then have "\<not> 255 < length (chunks (nat (mss k)) b)" using length_chunks [of "nat (mss k)" b] m(1) by simp
  then show ?thesis using send_msg_eq [of k b] True b m by simp
next
  case False
  then show ?thesis using send_stream_eq [of k b] b kcp_inv_mss [OF inv] by simp
qed

lemma Write_iter_total:
  assumes inv: "conn_inv s" and b: "b \<noteq> []" "stream (c_kcp s) = 0 \<longrightarrow> int (length b) \<le> 255 * mss (c_kcp s)"
  shows "\<exists>out s'. Write_iter now b s = Inr (out, s')"
proof -
  obtain k where k: "send b (c_kcp s) = Inr (0, k)" using send_accepts [OF conn_inv_sel(1) [OF inv] b] by blast
  define s1 where "s1 = s \<lparr> c_kcp := count_tx (int (length b)) k \<rparr>"
  have "event_ok (c_chKcpFlushEvent s1) 1" using inv by (simp add: s1_def conn_inv_def)
  then obtain s2 where "notifyFlushEvent s1 = Inr s2"
    using try_send_event [of "c_chKcpFlushEvent s1" 1 "()"] by (auto simp: notifyFlushEvent_def)
  then show ?thesis using k by (auto simp: Write_iter_def Write_send_def Let_def s1_def [symmetric] split: option.split)
qed

lemma Read_iter_total:
  assumes s: "safe_conn s"
  shows "\<exists>out s'. Read_iter wt now1 now2 b s = Inr (out, s') \<and> (c_die s' = c_die s \<or> isStateLocalClosed (c_kcp s'))"
proof -
  have inv: "conn_inv s" using s by (simp add: safe_conn_def)
  let ?P = "set (ch_items (c_chUdpInput s))"
  obtain s1 where s1: "Read_fill (length b) s = Inr s1" "conn_deliver ?P 0 s [] s1" "c_die s1 = c_die s"
    using Read_fill_run [OF inv] by blast
  obtain g where p: "kcp_path ?P (c_kcp s) [] g 0 (c_kcp s1)" and inv1: "conn_inv s1"
    using s1(2) unfolding conn_deliver_def by auto
  have o: "opened (c_kcp s1)" "ch_closed (c_die s1) \<Longrightarrow> isStateLocalClosed (c_kcp s1)"
    using path_opened [OF p conn_inv_sel(1) [OF inv]] path_bits(1) [OF p conn_inv_sel(1) [OF inv]] s s1(3)
    by (auto simp: safe_conn_def)
  have "\<exists>s2. Read_close wt now1 s1 = Inr s2 \<and> (c_die s2 = c_die s1 \<or> isStateLocalClosed (c_kcp s2))"
  proof (cases "shouldClose (c_kcp s1)")
    case True
    then have "isStateConnected (c_kcp s1) \<or> isStateLocalClosed (c_kcp s1)"
      using o(1) by (auto simp: opened_def state_queries)
    then show ?thesis using True closeInternal_total [OF inv1 o(2), of wt now1] closeInternal_local [OF inv1]
      by (fastforce simp: Read_close_def)
  qed (simp add: Read_close_def)
  then obtain s2 where s2: "Read_close wt now1 s1 = Inr s2" "c_die s2 = c_die s1 \<or> isStateLocalClosed (c_kcp s2)" by blast
  obtain out s' where r: "Read_result now2 b s2 = Inr (out, s')"
    using Read_result_run [OF conn_run_inv [OF Read_close_run [OF inv1 s2(1)]]] by blast
  then have "c_die s' = c_die s2" "c_kcp s' = c_kcp s2"
    by (auto simp: Read_result_def bind_res_eq_Inr split: if_splits option.splits)
  then show ?thesis using s1 s2 r by (simp add: Read_iter_def)
qed

text \<open>What becomes of \<open>die\<close> in a step of \<open>run\<close> and in the remaining steps.\<close>

lemma run_step_die:
  assumes "conn_inv s" "run_step wt now1 now2 ev r s = Some (Inr (r', s'))"
  shows "c_die s' = c_die s"
proof (cases "r_pc r")
  case MainHead
  then show ?thesis using assms run_head_frame by (fastforce simp: run_step_def rd_frame_def)
next
  case MainSelect
  have die: "c = c_die s" if "try_recv (c_die s) = Some (v, c)" for v c
    using die_recv [OF _ that] assms(1) by (simp add: conn_inv_def)
  then show ?thesis using assms(2) MainSelect
    by (cases ev) (auto simp: run_step_def bind_res_eq_Inr rd_frame_def dest!: doKcpInput_die run_leave_frame)
next
  case CloseHead
  then show ?thesis using assms run_close_head_frame by (fastforce simp: run_step_def rd_frame_def)
next
  case CloseSelect
  then show ?thesis using assms(2)
    by (cases ev) (auto simp: run_step_def bind_res_eq_Inr dest!: doKcpInput_die)
qed (use assms in \<open>auto simp: run_step_def run_finish_def Let_def\<close>)

lemma deadline_total:
  assumes "conn_inv s"
  shows "\<exists>s'. SetDeadline t s = Inr s' \<and> c_die s' = c_die s" "\<exists>s'. SetReadDeadline t s = Inr s' \<and> c_die s' = c_die s"
    "\<exists>s'. SetWriteDeadline t s = Inr s' \<and> c_die s' = c_die s"
  using assms try_send_event [of "c_chReadEvent s" 1 "()"] try_send_event [of "c_chWriteEvent s" 1 "()"]
  by (auto simp: SetDeadline_def SetReadDeadline_def SetWriteDeadline_def notifyReadEvent_def notifyWriteEvent_def conn_inv_def)

lemma conn_exec_total:
  assumes s: "safe_conn (x_conn x)" and ok: "safe_op op x" and e: "conn_exec wt op x = Some m"
  shows "\<exists>x'. m = Inr x' \<and> (c_die (x_conn x') = c_die (x_conn x) \<or> isStateLocalClosed (x_kcp x'))"
proof -
  have inv: "conn_inv (x_conn x)" using s by (simp add: safe_conn_def)
  have die: "c = c_die (x_conn x)" if "try_recv (c_die (x_conn x)) = Some (v, c)" for v c
    using die_recv [OF _ that] inv by (simp add: conn_inv_def)
  show ?thesis
  proof (cases op)
    case (CConnect now)
    then show ?thesis using e kcp_call_runs(3) [OF inv, of wt "currentTickMs now" "{}"]
      by (auto simp: connect_flush_def rd_frame_def dest!: kcp_call_frame split: if_splits)
  next
    case (CReadRound now1 now2)
    then obtain b where b: "m = bind_res (Read_iter wt now1 now2 b (x_conn x)) (\<lambda>(out, s). Inr (after_read b out (with_conn s x)))"
      using e by (auto split: reader.splits)
    have "x_conn (after_read b out y) = x_conn y" for out y by (cases out) simp_all
    then show ?thesis using b Read_iter_total [OF s, of wt now1 now2 b] by auto
  next
    case (CReadWake w)
    then show ?thesis using e die by (cases w) (fastforce split: reader.splits if_splits)+
  next
    case (CWriteRound now)
    then obtain b where b: "x_writer x = WWoken b" "m = bind_res (Write_iter now b (x_conn x)) (\<lambda>(out, s). Inr (after_write b out (with_conn s x)))"
      using e by (auto split: writer.splits)
    have a: "x_conn (after_write b out y) = x_conn y" for out y by (cases out) simp_all
    obtain out s' where "Write_iter now b (x_conn x) = Inr (out, s')"
      using Write_iter_total [OF inv, of b now] ok CWriteRound b(1) by auto
    then show ?thesis using b(2) a Write_iter_frame by (fastforce simp: rd_frame_def)
  next
    case (CWriteWake w)
    then show ?thesis using e die by (cases w) (fastforce split: writer.splits if_splits)+
  next
    case (CClose now)
    then show ?thesis using e ok closeInternal_total [OF inv, of wt now] closeInternal_local [OF inv, of wt now] s
      by (fastforce simp: Close_def safe_conn_def)
  next
    case (CUdp r u)
    have "event_ok (c_chUdpInput (x_conn x)) rxQueueLimit" using inv by (simp add: conn_inv_def)
    then show ?thesis using e CUdp die
      by (fastforce simp: client_recv_def try_send_def event_ok_def split: recv_result.splits if_splits)
  next
    case (CRun now1 now2 ev)
    then obtain m' where r: "run_step wt now1 now2 ev (x_run x) (x_conn x) = Some m'" "m = bind_res m' (\<lambda>(r, s). Inr ((with_conn s x) \<lparr> x_run := r \<rparr>))"
      using e by auto
    then show ?thesis using run_step_run [OF inv r(1)] run_step_die [OF inv] by fastforce
  next
    case (CSetDeadline t)
    then show ?thesis using e deadline_total(1) [OF inv, of t] by auto
  next
    case (CSetReadDeadline t)
    then show ?thesis using e deadline_total(2) [OF inv, of t] by auto
  next
    case (CSetWriteDeadline t)
    then show ?thesis using e deadline_total(3) [OF inv, of t] by auto
  qed (use e in \<open>auto split: if_splits simp: SetWindowSize_def SetMtu_def SetStreamMode_def SetNoDelay_def SetKeepAlive_def connect_wait_def\<close>)
qed

lemma safe_exec:
  assumes s: "safe_conn (x_conn x)" and ok: "safe_op op x" and e: "conn_exec wt op x = Some m"
  shows "\<exists>x'. m = Inr x' \<and> safe_conn (x_conn x')"
proof -
  have inv: "conn_inv (x_conn x)" and ki: "kcp_inv (x_kcp x)" using s by (simp_all add: safe_conn_def conn_inv_def)
  obtain x' where x': "m = Inr x'" "c_die (x_conn x') = c_die (x_conn x) \<or> isStateLocalClosed (x_kcp x')"
    using conn_exec_total [OF s ok e] by blast
  have r: "refines (arrives op) x x'" using conn_exec_refines [OF inv safe_op_ok [OF ok]] e x'(1) by simp
  then obtain w g f where p: "kcp_path (x_udp x) (x_kcp x) w g f (x_kcp x')" unfolding refines_def by blast
  have "opened (x_kcp x')" using path_opened [OF p ki] s by (auto simp: safe_conn_def)
  moreover have "ch_closed (c_die (x_conn x')) \<longrightarrow> isStateLocalClosed (x_kcp x')"
    using x'(2) path_bits(1) [OF p ki] s by (auto simp: safe_conn_def)
  moreover have "opens_ok q" if "q \<in> arrives op" for q
    using ok that by (cases "(op, x)" rule: safe_op.cases) auto
  ultimately show ?thesis using r x'(1) s unfolding refines_def safe_conn_def by blast
qed

inductive safe_step :: "link \<Rightarrow> csys \<Rightarrow> csys \<Rightarrow> bool" for wt where
  "safe_op op x \<Longrightarrow> conn_exec wt op x = Some (Inr x') \<Longrightarrow> safe_step wt x x'"

definition safe_sys :: "csys \<Rightarrow> bool" where
  "safe_sys x \<longleftrightarrow> safe_conn (x_conn x)"

lemma newKCPConn_fields:
  "state (c_kcp newKCPConn) = 0" "rcv_nxt (c_kcp newKCPConn) = 0" "rcv_queue (c_kcp newKCPConn) = []"
  "rcv_buf (c_kcp newKCPConn) = []" "\<not> ch_closed (c_die newKCPConn)"
  by (simp_all add: newKCPConn_def Let_def newKCP_def setWndSize_def setMtu_def make_chan_def)

lemma sys_init_fields:
  assumes "sys_init x"
  shows "state (x_kcp x) = 0" "rcv_nxt (x_kcp x) = 0" "rcv_queue (x_kcp x) = []" "rcv_buf (x_kcp x) = []"
    "\<not> ch_closed (c_die (x_conn x))" "x_reader x = RIdle"
  using assms newKCPConn_fields
  by (auto simp: sys_init_def server_conn_def direct_conn_def client_conn_def csys0_def run_start_def accept_def connect_open_def)

lemma sys_init_safe: "sys_init x \<Longrightarrow> safe_sys x"
  using sys_init_fields [of x] sys_init_path(2,3) [of x]
  by (simp add: safe_sys_def safe_conn_def opened_def state_bits)

interpretation safe: invariant_system sys_init "safe_step wt" safe_sys for wt
proof
  show "safe_sys x" if "sys_init x" for x using sys_init_safe [OF that] .
  show "safe_sys x'" if "safe_sys x" "safe_step wt x x'" for x x'
    using that(2,1) by cases (use safe_exec in \<open>fastforce simp: safe_sys_def\<close>)
qed

end
