(* ===== verification/Conn_Wakeup.thy ===== *)
theory Conn_Wakeup
  imports Conn_Safety
begin

text \<open>
  Who wakes whom: a blocked reader is woken as soon as there is something for it to return; a
  blocked writer is not, when the peer closes; a closing connection finishes after five seconds.
\<close>

section \<open>A reader is woken\<close>

text \<open>There is something a round of \<open>Read\<close> would return, or react to.\<close>

definition readable :: "KCPConn \<Rightarrow> bool" where
  "readable s \<longleftrightarrow> contents (c_bufRead s) \<noteq> [] \<or> fst (recvSize (c_kcp s)) > 0 \<or> shouldClose (c_kcp s) \<or> isStateLocalClosed (c_kcp s)"

text \<open>A case of the reader's \<open>select\<close> is ready.\<close>

definition signalled :: "KCPConn \<Rightarrow> bool" where
  "signalled s \<longleftrightarrow> ch_items (c_chReadEvent s) \<noteq> [] \<or> ch_closed (c_die s)"

definition r_view where
  "r_view s = (c_bufRead s, rcv_queue (c_kcp s), state (c_kcp s))"

lemma recvSize_fst: "rcv_queue k' = rcv_queue k \<Longrightarrow> fst (recvSize k') = fst (recvSize k)"
  by (auto simp: recvSize_def split: list.splits)

lemma readable_view: "r_view s' = r_view s \<Longrightarrow> readable s' = readable s"
  using recvSize_fst [of "c_kcp s'" "c_kcp s"] by (auto simp: r_view_def readable_def state_queries state_bits)

definition no_worse :: "KCPConn \<Rightarrow> KCPConn \<Rightarrow> bool" where
  "no_worse s s' \<longleftrightarrow> (signalled s \<longrightarrow> signalled s') \<and> (readable s' \<longrightarrow> readable s \<or> signalled s')"

lemma no_worse_refl [simp]: "no_worse s s"
  by (simp add: no_worse_def)

lemma no_worse_trans: "no_worse s s1 \<Longrightarrow> no_worse s1 s2 \<Longrightarrow> no_worse s s2"
  by (auto simp: no_worse_def)

lemma no_worse_frame: "rd_frame s' = rd_frame s \<Longrightarrow> r_view s' = r_view s \<Longrightarrow> no_worse s s'"
  using readable_view [of s' s] by (simp add: no_worse_def signalled_def rd_frame_def)

lemma kcpOutputs_view: "rcv_queue (kcpOutputs wt i ps k) = rcv_queue k"
  by (induction ps arbitrary: i k) (simp_all add: kcpOutput_def)

lemma kcp_call_view:
  assumes inv: "conn_inv s" and c: "kcp_call wt f s = Inr s'"
    and op: "is_flush op" "\<And>k. f k = exec op k" "\<And>c. op \<noteq> OpClose c"
  shows "r_view s' = r_view s"
proof -
  obtain k where k: "exec op (c_kcp s) = Inr k" "rcv_queue (c_kcp s') = rcv_queue k" "state (c_kcp s') = state k" "c_bufRead s' = c_bufRead s"
    using c op(2) by (auto simp: kcp_call_def bind_res_eq_Inr Let_def kcpOutputs_view kcpOutputs_state split: if_splits)
  have "state k = state (c_kcp s)" "rcv_view k = rcv_view (c_kcp s)"
    using quiet_state [OF conn_inv_sel(1) [OF inv] k(1)] exec_rcv_view [OF conn_inv_sel(1) [OF inv] k(1)] op(1,3)
    by (cases op; auto)+
  then show ?thesis using k by (simp add: r_view_def rcv_view_def)
qed

lemma kcp_call_quiet:
  assumes "conn_inv s"
  shows "kcp_call wt (flush c) s = Inr s' \<Longrightarrow> no_worse s s'" "kcp_call wt (update c) s = Inr s' \<Longrightarrow> no_worse s s'"
    "kcp_call wt (sendConnectFlush c) s = Inr s' \<Longrightarrow> r_view s' = r_view s \<and> no_worse s s'"
  using kcp_call_view [OF assms, of wt "flush c" s' "OpFlush c"] kcp_call_view [OF assms, of wt "update c" s' "OpUpdate c"]
    kcp_call_view [OF assms, of wt "sendConnectFlush c" s' "OpConnect c"] no_worse_frame kcp_call_frame
  by (auto simp del: One_nat_def)

lemma notify_quiet:
  "notifyWriteEvent s = Inr s' \<Longrightarrow> r_view s' = r_view s \<and> no_worse s s'" "notifyFlushEvent s = Inr s' \<Longrightarrow> no_worse s s'"
  by (auto intro!: no_worse_frame simp: notifyWriteEvent_def notifyFlushEvent_def bind_res_eq_Inr r_view_def)

lemma notifyRead_signals:
  assumes "conn_inv s" "notifyReadEvent s = Inr s'"
  shows "signalled s'" "no_worse s s'"
  using notify_run(1) [OF assms(1), of "{}"] assms(2) by (auto simp: signalled_def no_worse_def)

lemma close_chan_closed: "close_chan c = Inr c' \<Longrightarrow> ch_closed c'"
  by (auto simp: close_chan_def split: if_splits)

text \<open>Only the first close makes a connection readable without an event, and it closes \<open>die\<close>.\<close>

lemma closeInternal_signals:
  assumes "closeInternal wt now s = Inr (err, s')"
  shows "no_worse s s'"
proof (cases "\<not> c_conn s \<or> isStateLocalClosed (c_kcp s)")
  case True
  then show ?thesis using assms by (auto simp: closeInternal_def)
next
  case False
  then obtain d where d: "close_chan (c_die s) = Inr d" "kcp_call wt (sendCloseFlush (currentTickMs now)) (s \<lparr> c_die := d \<rparr>) = Inr s'"
    using assms by (auto simp: closeInternal_def bind_res_eq_Inr)
  then have "c_die s' = d" "ch_closed d"
    using kcp_call_frame [OF d(2)] close_chan_closed [OF d(1)] by (simp_all add: rd_frame_def)
  then show ?thesis by (simp add: no_worse_def signalled_def)
qed

lemma run_leave_signals:
  assumes inv: "conn_inv s" and l: "run_leave wt now1 now2 r s = Inr (r', s')"
    and o: "shouldClose (c_kcp s) \<or> isStateLocalClosed (c_kcp s) \<or> signalled s"
  shows "no_worse s s'"
proof -
  have f: "rd_frame s' = rd_frame s" using run_leave_frame [OF l] .
  have "readable s \<or> signalled s" using o by (auto simp: readable_def)
  then show ?thesis using f by (auto simp: no_worse_def signalled_def rd_frame_def)
qed

lemma input_greet_view:
  assumes "conn_inv s" "input_greet wt now c s = Inr s'"
  shows "r_view s' = r_view s"
  using assms kcp_call_quiet(3) [OF assms(1)] notify_quiet(1)
  by (fastforce simp: input_greet_def bind_res_eq_Inr split: if_splits)

lemma input_notify_signals:
  assumes "conn_inv s" "input_notify s = Inr s'"
  shows "rcv_queue (c_kcp s') = rcv_queue (c_kcp s)" "isStateLocalClosed (c_kcp s') = isStateLocalClosed (c_kcp s)"
    "c_bufRead s' = c_bufRead s"
    "fst (recvSize (c_kcp s')) > 0 \<or> shouldClose (c_kcp s') \<Longrightarrow> signalled s'" "signalled s \<Longrightarrow> signalled s'"
proof -
  define s1 where "s1 = s \<lparr> c_kcp := snd (recvSize (c_kcp s)) \<rparr>"
  have q: "rcv_queue (c_kcp s1) = rcv_queue (c_kcp s)" using recvSize_queue [of "c_kcp s"] by (cases "recvSize (c_kcp s)") (simp add: s1_def)
  have l: "isStateLocalClosed (c_kcp s1) = isStateLocalClosed (c_kcp s)"
    using recvSize_state [of "c_kcp s"] by (auto simp: s1_def state_bits bit_simps const_defs)
  have inv1: "conn_inv s1" using conn_inv_kcp [OF assms(1) recvSize_kcp_inv [OF conn_inv_sel(1) [OF assms(1)]]] by (simp add: s1_def)
  have n: "fst (recvSize (c_kcp s1)) = fst (recvSize (c_kcp s))" using recvSize_fst [OF q] .
  have e: "s' = s1 \<and> \<not> (fst (recvSize (c_kcp s1)) > 0 \<or> shouldClose (c_kcp s1)) \<or> notifyReadEvent s1 = Inr s'"
    using assms(2) n by (auto simp: input_notify_def case_prod_unfold Let_def s1_def split: if_splits)
  have v: "notifyReadEvent s1 = Inr s' \<Longrightarrow> c_kcp s' = c_kcp s1 \<and> c_bufRead s' = c_bufRead s1"
    by (auto simp: notifyReadEvent_def bind_res_eq_Inr)
  show "rcv_queue (c_kcp s') = rcv_queue (c_kcp s)" "isStateLocalClosed (c_kcp s') = isStateLocalClosed (c_kcp s)" "c_bufRead s' = c_bufRead s"
    using e v q l by (auto simp: s1_def)
  show "fst (recvSize (c_kcp s')) > 0 \<or> shouldClose (c_kcp s') \<Longrightarrow> signalled s'" using e v notifyRead_signals(1) [OF inv1] by auto
  show "signalled s \<Longrightarrow> signalled s'" using e notifyRead_signals(1) [OF inv1] by (auto simp: s1_def signalled_def)
qed

lemma doKcpInput_signals:
  assumes inv: "conn_inv s" and len: "length data \<le> udpPacketSizeLimit" and i: "doKcpInput wt now1 now2 data s = Inr s'"
  shows "no_worse s s'"
proof -
  obtain r k s1 s2 where k: "input (currentTickMs now1) data True (c_kcp s) = Inr (r, k)"
    "input_greet wt now2 (isStateConnected (c_kcp s)) (s \<lparr> c_kcp := (if r \<noteq> 0 then count_err_input k else k) \<rparr>) = Inr s1"
    "input_notify s1 = Inr s2" "s' = s2 \<lparr> c_kcp := count_in (int (length data)) (c_kcp s2) \<rparr>"
    using i by (auto simp: doKcpInput_def Let_def bind_res_eq_Inr)
  define s0 where "s0 = s \<lparr> c_kcp := (if r \<noteq> 0 then count_err_input k else k) \<rparr>"
  have st: "state (c_kcp s0) = state k" "rd_frame s0 = rd_frame s" "c_bufRead s0 = c_bufRead s" by (simp_all add: s0_def count_err_input_def)
  have "kcp_inv k" using input_kcp_inv [OF conn_inv_sel(1) [OF inv] k(1)] .
  then have "kcp_inv (c_kcp s0)" by (simp add: s0_def count_err_input_def kcp_inv_def flush_pre_def cfg_inv_def)
  then have inv0: "conn_inv s0" using conn_inv_kcp [OF inv] by (simp add: s0_def)
  have v: "r_view s1 = r_view s0" "rd_frame s1 = rd_frame s0"
    using input_greet_view [OF inv0] input_greet_frame k(2) by (simp_all add: s0_def)
  obtain s1' where "input_greet wt now2 (isStateConnected (c_kcp s)) s0 = Inr s1'" "conn_inv s1'"
    using input_greet_run [OF inv0, of wt now2 _ "{}"] conn_run_inv by blast
  then have inv1: "conn_inv s1" using k(2) by (simp add: s0_def)
  note n = input_notify_signals [OF inv1 k(3)]
  have l: "isStateLocalClosed (c_kcp s1) = isStateLocalClosed (c_kcp s)"
    using v(1) st(1) input_state [OF k(1)] by (auto simp: r_view_def state_bits bit_simps const_defs)
  have s': "fst (recvSize (c_kcp s')) = fst (recvSize (c_kcp s2))" "state (c_kcp s') = state (c_kcp s2)" "rd_frame s' = rd_frame s2" "c_bufRead s' = c_bufRead s2"
    using k(4) by (auto simp: count_in_def intro: recvSize_fst)
  have sig: "signalled s' = signalled s2" "signalled s1 = signalled s"
    using s'(3) v(2) st(2) by (simp_all add: signalled_def rd_frame_def)
  have b: "c_bufRead s' = c_bufRead s" using s'(4) n(3) v(1) st(3) by (simp add: r_view_def)
  have sc: "shouldClose (c_kcp s') = shouldClose (c_kcp s2)" "isStateLocalClosed (c_kcp s') = isStateLocalClosed (c_kcp s)"
    using s'(2) n(2) l by (simp_all add: state_queries state_bits)
  show ?thesis unfolding no_worse_def
  proof (intro conjI impI)
    show "signalled s'" if "signalled s" using that sig n(5) by blast
    show "readable s \<or> signalled s'" if "readable s'"
      using that n(4) sig(1) s'(1) b sc unfolding readable_def by auto
  qed
qed

lemma udp_signals:
  assumes inv: "conn_inv s" and r: "try_recv (c_chUdpInput s) = Some (v, c)"
    and i: "doKcpInput wt now1 now2 (the_data v) (s \<lparr> c_chUdpInput := c \<rparr>) = Inr s'"
  shows "no_worse s s'"
proof -
  have "event_ok (c_chUdpInput s) rxQueueLimit" using inv by (simp add: conn_inv_def)
  note e = event_recv [OF this r]
  have c: "conn_inv (s \<lparr> c_chUdpInput := c \<rparr>)" using inv e(1,4) by (auto simp: conn_inv_def)
  have l: "length (the_data v) \<le> udpPacketSizeLimit" using inv e(2,3) by (auto simp: conn_inv_def the_data_def)
  have "no_worse s (s \<lparr> c_chUdpInput := c \<rparr>)" by (rule no_worse_frame) (simp_all add: r_view_def)
  then show ?thesis using no_worse_trans doKcpInput_signals [OF c l i] by blast
qed

lemma run_step_signals:
  assumes inv: "conn_inv s" and dead: "\<not> isStateDead (c_kcp s)" and r: "run_step wt now1 now2 ev r s = Some (Inr (r', s'))"
  shows "no_worse s s'"
proof (cases "r_pc r")
  case MainHead
  then have h: "run_head wt now1 now2 r s = Inr (r', s')" using r by (simp add: run_step_def)
  show ?thesis
  proof (cases "isAllOpen (c_kcp s)")
    case True
    then obtain s1 where s1: "kcp_call wt (flush (currentTickMs now1)) s = Inr s1 \<or> kcp_call wt (update (currentTickMs now1)) s = Inr s1"
      "s' = s1 \<or> notifyWriteEvent s1 = Inr s'"
      using h by (auto simp: run_head_def Let_def bind_res_eq_Inr split: if_splits)
    then show ?thesis using kcp_call_quiet(1,2) [OF inv] notify_quiet(1) no_worse_trans by blast
  next
    case False
    then have "run_leave wt now1 now2 r s = Inr (r', s')" "shouldClose (c_kcp s) \<or> isStateLocalClosed (c_kcp s)"
      using h dead by (auto simp: run_head_def state_queries)
    then show ?thesis using run_leave_signals [OF inv] by blast
  qed
next
  case MainSelect
  then have h: "run_select wt now1 now2 ev r s = Some (Inr (r', s'))" using r by (simp add: run_step_def)
  show ?thesis
  proof (cases ev)
    case EvUdp
    then show ?thesis using h udp_signals [OF inv, of _ _ wt now1 now2] by (auto simp: bind_res_eq_Inr)
  next
    case EvFlush
    then show ?thesis using h by (auto intro!: no_worse_frame simp: r_view_def)
  next
    case EvTimer
    then show ?thesis using h by auto
  next
    case EvDie
    then obtain v c where d: "try_recv (c_die s) = Some (v, c)" "run_leave wt now1 now2 r (s \<lparr> c_die := c \<rparr>) = Inr (r', s')"
      using h by auto
    then have "c = c_die s" "ch_closed (c_die s)" using die_recv [OF _ d(1)] inv by (auto simp: conn_inv_def)
    then show ?thesis using run_leave_signals [OF inv, of wt now1 now2 r r' s'] d(2) by (simp add: signalled_def)
  qed
next
  case CloseHead
  then obtain s1 where "kcp_call wt (update (currentTickMs now1)) s = Inr s1" "s' = s1"
    using r by (auto simp: run_step_def run_close_head_def bind_res_eq_Inr Let_def)
  then show ?thesis using kcp_call_quiet(2) [OF inv] by blast
next
  case CloseSelect
  then have "run_close_select wt now1 now2 ev r s = Some (Inr (r', s'))" using r by (simp add: run_step_def)
  then show ?thesis using udp_signals [OF inv, of _ _ wt now1 now2] by (cases ev) (auto simp: bind_res_eq_Inr)
next
  case Finishing
  then show ?thesis using r by (auto intro!: no_worse_frame simp: run_step_def run_finish_def Let_def r_view_def)
qed (use r in \<open>simp add: run_step_def\<close>)

text \<open>A round of \<open>Read\<close> that waits leaves nothing to return, or \<open>die\<close> closed.\<close>

lemma Read_iter_wait:
  assumes inv: "conn_inv s" and b: "b \<noteq> []" and r: "Read_iter wt now1 now2 b s = Inr (ReadWait t, s')"
  shows "readable s' \<longrightarrow> signalled s'"
proof -
  obtain s1 s2 where s: "Read_fill (length b) s = Inr s1" "Read_close wt now1 s1 = Inr s2" "Read_result now2 b s2 = Inr (ReadWait t, s')"
    using r by (auto simp: Read_iter_def bind_res_eq_Inr)
  have s': "s' = s2" "\<not> Len (c_bufRead s2) > 0" "\<not> isStateLocalClosed (c_kcp s2)"
    using s(3) by (auto simp: Read_result_def bind_res_eq_Inr split: if_splits option.splits)
  have inv1: "conn_inv s1" using Read_fill_run [OF inv, of "length b" "{}"] s(1) by (auto simp: conn_deliver_def)
  have inv2: "conn_inv s2" using conn_run_inv [OF Read_close_run [OF inv1 s(2)]] .
  show ?thesis
  proof (cases "shouldClose (c_kcp s1)")
    case True
    then have c: "closeInternal wt now1 s1 = Inr (None, s2) \<or> isStateLocalClosed (c_kcp s1)"
      using s(2) conn_inv_sel(3) [OF inv1] by (auto simp: Read_close_def closeInternal_def bind_res_eq_Inr split: if_splits)
    then obtain d where "close_chan (c_die s1) = Inr d" "kcp_call wt (sendCloseFlush (currentTickMs now1)) (s1 \<lparr> c_die := d \<rparr>) = Inr s2"
      using True by (auto simp: closeInternal_def bind_res_eq_Inr state_queries split: if_splits)
    then have "c_die s2 = d" "ch_closed d"
      using kcp_call_frame [of wt _ "s1 \<lparr> c_die := d \<rparr>" s2] close_chan_closed by (auto simp: rd_frame_def)
    then show ?thesis using s'(1) by (simp add: signalled_def)
  next
    case False
    then have e: "s2 = s1" using s(2) by (simp add: Read_close_def)
    have empty: "contents (c_bufRead s1) = []"
      using length_contents [OF conn_inv_sel(2) [OF inv1]] s'(2) e by (metis length_0_conv of_nat_0_less_iff neq0_conv)
    have "fst (recvSize (c_kcp s1)) \<le> 0"
    proof (cases "Len (c_bufRead s) < int (length b)")
      case True
      obtain k bf where "fill_bufRead (c_kcp s) (c_bufRead s) = Inr (k, bf)" "fst (recvSize k) \<le> 0"
        using fill_bufRead_ok [OF conn_inv_sel(1,2) [OF inv]] by metis
      then show ?thesis using s(1) True by (auto simp: Read_fill_def)
    next
      case False
      have "0 < int (length b)" using b by simp
      with False have "0 < Len (c_bufRead s)" by linarith
      moreover have "s1 = s" using False s(1) by (simp add: Read_fill_def)
      ultimately show ?thesis using s'(2) e by simp
    qed
    then show ?thesis using s' e empty False by (simp add: readable_def)
  qed
qed

definition wake_inv :: "csys \<Rightarrow> bool" where
  "wake_inv x \<longleftrightarrow> sys_inv x \<and> \<not> isStateDead (x_kcp x) \<and>
     (case x_reader x of RBlocked b t \<Rightarrow> b \<noteq> [] \<longrightarrow> readable (x_conn x) \<longrightarrow> signalled (x_conn x) | _ \<Rightarrow> True)"

lemma no_worse_deadlines: "no_worse s (s \<lparr> c_deadlineRead := t \<rparr>)" "no_worse s (s \<lparr> c_deadlineWrite := t \<rparr>)"
  "no_worse s (s \<lparr> c_deadlineRead := t, c_deadlineWrite := u \<rparr>)"
  by (auto intro!: no_worse_frame simp: rd_frame_def r_view_def)

text \<open>The operations of everybody but the reader.\<close>

fun reader_op :: "conn_op \<Rightarrow> bool" where
  "reader_op (CReadCall b) = True"
| "reader_op (CReadRound now1 now2) = True"
| "reader_op (CReadWake w) = True"
| "reader_op _ = False"

lemma setters_quiet:
  "no_worse s (SetWindowSize a b s)" "no_worse s (SetMtu m s)" "no_worse s (SetStreamMode e s)"
  "no_worse s (SetNoDelay nd iv rs nc s)" "no_worse s (SetKeepAlive v s)"
proof -
  have k: "no_worse s (s \<lparr> c_kcp := k \<rparr>)" if "rcv_queue k = rcv_queue (c_kcp s)" "state k = state (c_kcp s)" for k
    using that by (intro no_worse_frame) (simp_all add: r_view_def)
  show "no_worse s (SetWindowSize a b s)" unfolding SetWindowSize_def by (rule k) (simp_all add: setWndSize_def Let_def)
  show "no_worse s (SetMtu m s)" unfolding SetMtu_def by (rule k) (simp_all add: setMtu_def)
  show "no_worse s (SetStreamMode e s)" unfolding SetStreamMode_def by (rule k) simp_all
  show "no_worse s (SetNoDelay nd iv rs nc s)" unfolding SetNoDelay_def by (rule k) (simp_all add: setNoDelay_def Let_def)
  show "no_worse s (SetKeepAlive v s)" by (rule no_worse_frame) (simp_all add: SetKeepAlive_def r_view_def rd_frame_def)
qed

lemma others_signal:
  assumes inv: "conn_inv (x_conn x)" and dead: "\<not> isStateDead (x_kcp x)" and e: "conn_exec wt op x = Some (Inr x')" and o: "\<not> reader_op op"
  shows "no_worse (x_conn x) (x_conn x') \<and> x_reader x' = x_reader x"
proof (cases op)
  case (CConnect now)
  then show ?thesis using e kcp_call_quiet(3) [OF inv] by (auto simp: connect_flush_def bind_res_eq_Inr split: if_splits)
next
  case CConnectWait
  then show ?thesis using e by (auto intro!: no_worse_frame simp: connect_wait_def r_view_def split: if_splits)
next
  case (CWriteRound now)
  then obtain b out s where w: "Write_iter now b (x_conn x) = Inr (out, s)" "x' = after_write b out (with_conn s x)"
    using e by (auto simp: bind_res_eq_Inr split: writer.splits)
  have x': "x_conn x' = s" "x_reader x' = x_reader x" using w(2) by (cases out; simp)+
  obtain q where "c_bufRead s = c_bufRead (x_conn x)" "rcv_queue (c_kcp s) = rcv_queue (x_kcp x)" "state (c_kcp s) = state (x_kcp x)"
    using w(1) send_only_queue [OF conn_inv_sel(1) [OF inv], of b]
    by (fastforce simp: Write_iter_def Write_send_def Let_def bind_res_eq_Inr count_tx_def notifyFlushEvent_def split: if_splits option.splits)
  then show ?thesis using x' no_worse_frame [OF Write_iter_frame [OF w(1)]] by (simp add: r_view_def)
next
  case (CWriteWake w)
  have die: "c = c_die (x_conn x)" if "try_recv (c_die (x_conn x)) = Some (v, c)" for v c
    using die_recv [OF _ that] inv by (simp add: conn_inv_def)
  then show ?thesis using e CWriteWake
    by (cases w) (auto intro!: no_worse_frame simp: r_view_def rd_frame_def split: writer.splits if_splits)
next
  case (CClose now)
  then show ?thesis using e closeInternal_signals by (auto simp: Close_def bind_res_eq_Inr)
next
  case (CUdp r u)
  have die: "c = c_die (x_conn x)" if "try_recv (c_die (x_conn x)) = Some (v, c)" for v c
    using die_recv [OF _ that] inv by (simp add: conn_inv_def)
  then show ?thesis using e CUdp
    by (auto intro!: no_worse_frame simp: client_recv_def bind_res_eq_Inr r_view_def rd_frame_def count_err_read_def
        split: recv_result.splits if_splits sum.splits)
next
  case (CRun now1 now2 ev)
  then show ?thesis using e run_step_signals [OF inv dead] by (auto simp: bind_res_eq_Inr)
next
  case (CSetDeadline t)
  then obtain s1 where s1: "notifyReadEvent ((x_conn x) \<lparr> c_deadlineRead := t, c_deadlineWrite := t \<rparr>) = Inr s1" "notifyWriteEvent s1 = Inr (x_conn x')"
    using e by (auto simp: SetDeadline_def bind_res_eq_Inr)
  have "conn_inv ((x_conn x) \<lparr> c_deadlineRead := t, c_deadlineWrite := t \<rparr>)" using inv by (simp add: conn_inv_def)
  from notifyRead_signals(2) [OF this s1(1)] have "no_worse (x_conn x) s1" using no_worse_deadlines(3) no_worse_trans by blast
  then show ?thesis using e CSetDeadline notify_quiet(1) [OF s1(2)] no_worse_trans by (auto simp: bind_res_eq_Inr)
next
  case (CSetReadDeadline t)
  have "conn_inv ((x_conn x) \<lparr> c_deadlineRead := t \<rparr>)" using inv by (simp add: conn_inv_def)
  from notifyRead_signals(2) [OF this] show ?thesis using e CSetReadDeadline no_worse_deadlines(1) no_worse_trans
    by (fastforce simp: SetReadDeadline_def bind_res_eq_Inr)
next
  case (CSetWriteDeadline t)
  then show ?thesis using e notify_quiet(1) no_worse_deadlines(2) no_worse_trans
    by (fastforce simp: SetWriteDeadline_def bind_res_eq_Inr)
qed (use e o setters_quiet in \<open>auto split: if_splits\<close>)

lemma wake_step:
  assumes w: "wake_inv x" and ok: "conn_op_ok op x" and e: "conn_exec wt op x = Some (Inr x')"
  shows "wake_inv x'"
proof -
  have inv: "conn_inv (x_conn x)" and dead: "\<not> isStateDead (x_kcp x)" using w by (simp_all add: wake_inv_def sys_inv_def)
  have r: "refines (arrives op) x x'" using conn_exec_refines [OF inv ok e] .
  then obtain wr g f where p: "kcp_path (x_udp x) (x_kcp x) wr g f (x_kcp x')" unfolding refines_def by blast
  have base: "sys_inv x'" "\<not> isStateDead (x_kcp x')"
    using r path_bits(2) [OF p conn_inv_sel(1) [OF inv]] dead by (simp_all add: refines_def sys_inv_def)
  show ?thesis
  proof (cases "reader_op op")
    case False
    then show ?thesis using others_signal [OF inv dead e] w base by (auto simp: wake_inv_def no_worse_def split: reader.splits)
  next
    case True
    show ?thesis
    proof (cases op)
      case (CReadRound now1 now2)
      then obtain b out s where rd: "Read_iter wt now1 now2 b (x_conn x) = Inr (out, s)" "x' = after_read b out (with_conn s x)"
        using e by (auto simp: bind_res_eq_Inr split: reader.splits)
      then show ?thesis using base Read_iter_wait [OF inv, of b wt now1 now2] by (cases out) (auto simp: wake_inv_def)
    qed (use True e base in \<open>auto simp: wake_inv_def split: if_splits reader.splits\<close>)
  qed
qed

interpretation wake: invariant_system sys_init "conn_step wt" wake_inv for wt
proof
  show "wake_inv x" if "sys_init x" for x
    using sys_init_fields [OF that] conn.init_inv [OF that] by (simp add: wake_inv_def state_bits)
  show "wake_inv x'" if "wake_inv x" "conn_step wt x x'" for x x'
    using that(2,1) by cases (rule wake_step)
qed

lemma safe_reachable: "reachable sys_init (safe_step wt) x \<Longrightarrow> reachable sys_init (conn_step wt) x"
proof (induction rule: reachable.induct)
  case (reach_init x)
  then show ?case by (rule reachable.reach_init)
next
  case (reach_step x x')
  from reach_step.hyps(2) have "conn_step wt x x'" by cases (auto intro: conn_step.intros safe_op_ok)
  then show ?case by (rule reachable.reach_step [OF reach_step.IH])
qed

lemma Read_fill_readable:
  assumes inv: "conn_inv s" and b: "0 < len" and rd: "readable s" and f: "Read_fill len s = Inr s1"
  shows "contents (c_bufRead s1) \<noteq> [] \<or> shouldClose (c_kcp s1) \<or> isStateLocalClosed (c_kcp s1)"
proof (cases "Len (c_bufRead s) < int len")
  case True
  obtain k bf g where k: "fill_bufRead (c_kcp s) (c_bufRead s) = Inr (k, bf)" "kcp_path {} (c_kcp s) [] g 0 k"
    "contents bf = contents (c_bufRead s) @ g" "fst (recvSize (c_kcp s)) > 0 \<longrightarrow> g \<noteq> []"
    using fill_bufRead_ok [OF conn_inv_sel(1,2) [OF inv], of "{}"] by metis
  have s1: "c_kcp s1 = k" "c_bufRead s1 = bf" using f True k(1) by (auto simp: Read_fill_def)
  note p = path_bits [OF k(2) conn_inv_sel(1) [OF inv]]
  show ?thesis using rd k(3,4) p(1,3) s1 unfolding readable_def state_queries by auto
next
  case False
  then have "0 < Len (c_bufRead s)" "s1 = s" using b f by (simp_all add: Read_fill_def)
  then show ?thesis using length_contents [OF conn_inv_sel(2) [OF inv]] by auto
qed

text \<open>A round of \<open>Read\<close> on a readable connection returns: with data and no error, or with end of file.\<close>

lemma Read_iter_returns:
  assumes s: "safe_conn s" and b: "b \<noteq> []" and rd: "readable s"
  shows "\<exists>p n err s'. Read_iter wt now1 now2 b s = Inr (ReadRet p n err, s') \<and> n \<le> length b \<and>
    err = (if n = 0 then Some ErrEOF else None)"
proof -
  have inv: "conn_inv s" using s by (simp add: safe_conn_def)
  obtain out s' where r: "Read_iter wt now1 now2 b s = Inr (out, s')" using Read_iter_total [OF s] by blast
  then obtain s1 s2 where s12: "Read_fill (length b) s = Inr s1" "Read_close wt now1 s1 = Inr s2" "Read_result now2 b s2 = Inr (out, s')"
    by (auto simp: Read_iter_def bind_res_eq_Inr)
  obtain g where g: "kcp_path {} (c_kcp s) [] g 0 (c_kcp s1)" and inv1: "conn_inv s1"
    using Read_fill_run [OF inv, of "length b" "{}"] s12(1) by (auto simp: conn_deliver_def)
  have o: "opened (c_kcp s1)"
    using path_opened [OF g(1) conn_inv_sel(1) [OF inv]] s by (simp add: safe_conn_def)
  have c2: "conn_inv s2" "c_bufRead s2 = c_bufRead s1"
    using Read_close_run [OF inv1 s12(2), of "{}"] by (auto simp: conn_run_def)
  note rd1 = Read_fill_readable [OF inv _ rd s12(1)]
  show ?thesis
  proof (cases "contents (c_bufRead s1) = []")
    case False
    let ?c = "contents (c_bufRead s2)"
    have ne: "?c \<noteq> []" using False c2(2) by simp
    have "0 < Len (c_bufRead s2)" using length_contents [OF conn_inv_sel(2) [OF c2(1)]] ne by (metis length_greater_0_conv of_nat_0_less_iff)
    moreover obtain p bf where "Read b (c_bufRead s2) = Inr (p, min (length b) (length ?c), ?c = [] \<and> b \<noteq> [], bf)"
      using Read_ok [OF conn_inv_sel(2) [OF c2(1)], of b] by blast
    ultimately have "Read_iter wt now1 now2 b s = Inr (ReadRet p (min (length b) (length ?c)) None, s2 \<lparr> c_bufRead := bf \<rparr>)"
      using s12(3) r ne by (simp add: Read_result_def)
    then show ?thesis using ne b
      by (intro exI [of _ p] exI [of _ "min (length b) (length ?c)"] exI [of _ None] exI [of _ "s2 \<lparr> c_bufRead := bf \<rparr>"]) simp
  next
    case True
    then have "shouldClose (c_kcp s1) \<or> isStateLocalClosed (c_kcp s1)" using rd1 b by auto
    then have l: "isStateLocalClosed (c_kcp s2)"
    proof
      assume sc: "shouldClose (c_kcp s1)"
      then have "isStateConnected (c_kcp s1) \<or> isStateLocalClosed (c_kcp s1)" using o by (auto simp: opened_def state_queries)
      then show ?thesis using sc s12(2) closeInternal_local [OF inv1] by (auto simp: Read_close_def bind_res_eq_Inr)
    next
      assume "isStateLocalClosed (c_kcp s1)"
      then show ?thesis using s12(2) by (auto simp: Read_close_def state_queries)
    qed
    have "\<not> 0 < Len (c_bufRead s2)"
      using length_contents [OF conn_inv_sel(2) [OF c2(1)]] True c2(2) by simp
    then show ?thesis using s12(3) r l by (auto simp: Read_result_def)
  qed
qed

lemma wake_ready:
  assumes w: "wake_inv x" and rb: "x_reader x = RBlocked b t" "b \<noteq> []" and rd: "readable (x_conn x)"
  shows "\<exists>wk s. read_wake wk t (x_conn x) = Some s \<and> c_kcp s = x_kcp x \<and> c_bufRead s = c_bufRead (x_conn x)"
proof -
  have "signalled (x_conn x)" using w rb rd by (simp add: wake_inv_def)
  then show ?thesis
  proof (cases "ch_closed (c_die (x_conn x))")
    case True
    have "ch_items (c_die (x_conn x)) = []" using w by (simp add: wake_inv_def sys_inv_def conn_inv_def)
    then show ?thesis using True by (intro exI [of _ WakeDie]) (simp add: try_recv_def)
  next
    case False
    then obtain v vs where "ch_items (c_chReadEvent (x_conn x)) = v # vs"
      using \<open>signalled (x_conn x)\<close> by (auto simp: signalled_def neq_Nil_conv)
    then show ?thesis by (intro exI [of _ WakeEvent]) (simp add: try_recv_def)
  qed
qed

section \<open>A writer is not woken when the peer closes\<close>

text \<open>
  The peer has closed and \<open>run\<close> has left its main loop: it marks the connection closed, but neither
  closes \<open>die\<close> nor signals the write event, and \<open>closeInternal\<close> does nothing any more.
\<close>

definition stranded :: "bytes \<Rightarrow> csys \<Rightarrow> bool" where
  "stranded b x \<longleftrightarrow> conn_inv (x_conn x) \<and> isStateLocalClosed (x_kcp x) \<and> x_writer x = WBlocked b None \<and>
     r_pc (x_run x) \<in> {CloseHead, CloseSelect, Finishing, Returned} \<and>
     \<not> ch_closed (c_die (x_conn x)) \<and> ch_items (c_chWriteEvent (x_conn x)) = [] \<and> ch_items (c_chUdpInput (x_conn x)) = []"

text \<open>Steps of every goroutine, but no datagram and no new write deadline.\<close>

fun silent :: "conn_op \<Rightarrow> bool" where
  "silent (CUdp (RecvOk d) u) = False"
| "silent (CSetDeadline t) = False"
| "silent (CSetWriteDeadline t) = False"
| "silent _ = True"

inductive silent_step :: "link \<Rightarrow> csys \<Rightarrow> csys \<Rightarrow> bool" for wt where
  "silent op \<Longrightarrow> conn_op_ok op x \<Longrightarrow> conn_exec wt op x = Some (Inr x') \<Longrightarrow> silent_step wt x x'"

definition w_frame :: "KCPConn \<Rightarrow> unit chan \<times> unit chan" where
  "w_frame s = (c_die s, c_chWriteEvent s)"

lemma kcp_call_w_frame: "kcp_call wt f s = Inr s' \<Longrightarrow> w_frame s' = w_frame s"
  by (auto simp: kcp_call_def bind_res_eq_Inr Let_def w_frame_def split: if_splits)

lemma Read_iter_w_frame:
  assumes inv: "conn_inv s" and l: "isStateLocalClosed (c_kcp s)" and r: "Read_iter wt now1 now2 b s = Inr (out, s')"
  shows "w_frame s' = w_frame s"
proof -
  obtain s1 where s1: "Read_fill (length b) s = Inr s1" "conn_deliver {} 0 s [] s1" using Read_fill_run [OF inv] by blast
  then have "isStateLocalClosed (c_kcp s1)" using path_bits(1) conn_inv_sel(1) [OF inv] l unfolding conn_deliver_def by blast
  then have "Read_result now2 b s1 = Inr (out, s')" using r s1(1) by (auto simp: Read_iter_def Read_close_def state_queries)
  then show ?thesis using s1(1)
    by (auto simp: Read_fill_def Read_result_def bind_res_eq_Inr w_frame_def split: if_splits option.splits)
qed

lemma run_step_closing:
  assumes inv: "conn_inv s" and pc: "r_pc r \<in> {CloseHead, CloseSelect, Finishing, Returned}"
    and u: "ch_items (c_chUdpInput s) = []" and r: "run_step wt now1 now2 ev r s = Some (Inr (r', s'))"
  shows "w_frame s' = w_frame s \<and> r_pc r' \<in> {CloseHead, CloseSelect, Finishing, Returned}"
proof -
  have "event_ok (c_chUdpInput s) rxQueueLimit" using inv by (simp add: conn_inv_def)
  then have none: "try_recv (c_chUdpInput s) = None" using u by (simp add: try_recv_def event_ok_def)
  consider "r_pc r = CloseHead" | "r_pc r = CloseSelect" | "r_pc r = Finishing" | "r_pc r = Returned" using pc by auto
  then show ?thesis
  proof cases
    case 1
    then show ?thesis using r kcp_call_w_frame
      by (auto simp: run_step_def run_close_head_def bind_res_eq_Inr Let_def split: if_splits)
  next
    case 2
    then show ?thesis using r none by (cases ev) (auto simp: run_step_def)
  next
    case 3
    then show ?thesis using r by (auto simp: run_step_def run_finish_def Let_def w_frame_def)
  next
    case 4
    then show ?thesis using r by (simp add: run_step_def)
  qed
qed

lemma stranded_step:
  assumes st: "stranded b x" and s: "silent op" and ok: "conn_op_ok op x" and e: "conn_exec wt op x = Some (Inr x')"
  shows "stranded b x'"
proof -
  have inv: "conn_inv (x_conn x)" and l: "isStateLocalClosed (x_kcp x)" and w: "x_writer x = WBlocked b None"
    and pc: "r_pc (x_run x) \<in> {CloseHead, CloseSelect, Finishing, Returned}" and u: "ch_items (c_chUdpInput (x_conn x)) = []"
    and d: "\<not> ch_closed (c_die (x_conn x))" "ch_items (c_chWriteEvent (x_conn x)) = []"
    using st by (simp_all add: stranded_def)
  have r: "refines (arrives op) x x'" using conn_exec_refines [OF inv ok e] .
  moreover have "arrives op = {}" using s by (cases op rule: silent.cases) simp_all
  ultimately have "conn_inv (x_conn x')" "x_udp x' = {}" using u by (auto simp: refines_def)
  moreover have "isStateLocalClosed (x_kcp x')" using r path_bits(1) conn_inv_sel(1) [OF inv] l unfolding refines_def by blast
  moreover have "w_frame (x_conn x') = w_frame (x_conn x) \<and> x_writer x' = x_writer x \<and>
      r_pc (x_run x') \<in> {CloseHead, CloseSelect, Finishing, Returned}"
  proof -
    have we: "try_recv (c_chWriteEvent (x_conn x)) = None" "try_recv (c_die (x_conn x)) = None"
      using d inv by (auto simp: try_recv_def conn_inv_def event_ok_def)
    show ?thesis
    proof (cases op)
      case (CConnect now)
      then show ?thesis using e pc kcp_call_w_frame by (auto simp: connect_flush_def bind_res_eq_Inr split: if_splits)
    next
      case (CReadRound now1 now2)
      then obtain b out s where rd: "Read_iter wt now1 now2 b (x_conn x) = Inr (out, s)" "x' = after_read b out (with_conn s x)"
        using e by (auto simp: bind_res_eq_Inr split: reader.splits)
      then show ?thesis using pc Read_iter_w_frame [OF inv l] by (cases out) auto
    next
      case (CReadWake wk)
      then show ?thesis using e pc we by (cases wk) (auto simp: w_frame_def split: reader.splits if_splits)
    next
      case (CWriteWake wk)
      then show ?thesis using e pc we w by (cases wk) (auto simp: w_frame_def)
    next
      case (CClose now)
      then show ?thesis using e pc l by (auto simp: Close_def closeInternal_def bind_res_eq_Inr)
    next
      case (CUdp rr uu)
      then show ?thesis using e pc we s by (cases rr) (auto simp: client_recv_def w_frame_def)
    next
      case (CRun now1 now2 ev)
      then obtain r s where rs: "run_step wt now1 now2 ev (x_run x) (x_conn x) = Some (Inr (r, s))" "x' = (with_conn s x) \<lparr> x_run := r \<rparr>"
        using e by (auto simp: bind_res_eq_Inr)
      show ?thesis using run_step_closing [OF inv pc u rs(1)] rs(2) by simp
    qed (use e pc s w we in \<open>auto simp: w_frame_def connect_wait_def SetReadDeadline_def notifyReadEvent_def bind_res_eq_Inr
        SetWindowSize_def SetMtu_def SetStreamMode_def SetNoDelay_def SetKeepAlive_def split: if_splits\<close>)
  qed
  ultimately show ?thesis using w d by (simp add: stranded_def w_frame_def)
qed

lemma stranded_enter:
  assumes inv: "conn_inv (x_conn x)" and pc: "r_pc (x_run x) = MainHead" and w: "x_writer x = WBlocked b None"
    and st: "isStateRemoteClosed (x_kcp x)" "isStateConnected (x_kcp x)"
    and q: "\<not> ch_closed (c_die (x_conn x))" "ch_items (c_chWriteEvent (x_conn x)) = []" "ch_items (c_chUdpInput (x_conn x)) = []"
  shows "\<exists>x'. conn_exec wt (CRun now1 now2 ev) x = Some (Inr x') \<and> stranded b x'"
proof -
  have na: "\<not> isAllOpen (x_kcp x)" using st by (simp add: state_queries)
  obtain r' s' where l: "run_leave wt now1 now2 (x_run x) (x_conn x) = Inr (r', s')" "conn_run {} 1 (x_conn x) [] s'"
    using run_leave_run [OF inv] by blast
  have e: "conn_exec wt (CRun now1 now2 ev) x = Some (Inr ((with_conn s' x) \<lparr> x_run := r' \<rparr>))"
    using pc l(1) na by (simp add: run_step_def run_head_def)
  define s1 where "s1 = (x_conn x) \<lparr> c_kcp := (x_kcp x) \<lparr> gstats := (gstats (x_kcp x)) \<lparr> g_ConnClosing := g_ConnClosing (gstats (x_kcp x)) + 1 \<rparr> \<rparr> \<rparr>"
  have i1: "kcp_inv (c_kcp s1)" using conn_inv_sel(1) [OF inv] by (simp add: s1_def kcp_inv_def flush_pre_def cfg_inv_def)
  have f: "w_frame s1 = w_frame (x_conn x)" "state (c_kcp s1) = state (x_kcp x)" by (simp_all add: s1_def w_frame_def)
  have c: "r_pc r' = CloseHead" "s' = s1 \<and> isStateLocalClosed (c_kcp s1) \<or> kcp_call wt (sendCloseFlush (currentTickMs now1)) s1 = Inr s'"
    using l(1) by (auto simp: run_leave_def Let_def bind_res_eq_Inr s1_def split: if_splits)
  have wf: "w_frame s' = w_frame (x_conn x)" using c(2) f(1) kcp_call_w_frame by auto
  have "isStateLocalClosed (c_kcp s')"
  proof (cases "s' = s1 \<and> isStateLocalClosed (c_kcp s1)")
    case False
    then obtain k where k: "sendCloseFlush (currentTickMs now1) (c_kcp s1) = Inr k" "state (c_kcp s') = state k"
      using c(2) by (auto simp: kcp_call_def bind_res_eq_Inr Let_def kcpOutputs_state split: if_splits)
    have "isStateConnected (c_kcp s1)" using st(2) f(2) by (simp add: state_bits)
    then show ?thesis using close_state [OF i1 k(1)] closed_bits(1) k(2) by (auto simp: isStateLocalClosed_def split: if_splits)
  qed simp
  then have "stranded b ((with_conn s' x) \<lparr> x_run := r' \<rparr>)"
    using w q wf c(1) l(2) by (simp add: stranded_def w_frame_def conn_run_def)
  then show ?thesis using e by blast
qed

lemma stranded_forever: "(silent_step wt)\<^sup>*\<^sup>* x x' \<Longrightarrow> stranded b x \<Longrightarrow> stranded b x'"
  by (induction rule: rtranclp_induct) (auto elim!: silent_step.cases dest: stranded_step)

lemma stranded_blocked:
  assumes "stranded b x"
  shows "x_writer x = WBlocked b None \<and> conn_exec wt (CWriteWake wk) x = None"
proof -
  have "try_recv (c_chWriteEvent (x_conn x)) = None" "try_recv (c_die (x_conn x)) = None"
    using assms by (auto simp: try_recv_def stranded_def conn_inv_def event_ok_def)
  then show ?thesis using assms by (cases wk) (auto simp: stranded_def)
qed

section \<open>Closing ends\<close>

text \<open>
  The closing loop of \<open>run\<close> (lines 422 to 447) and what follows it, when no datagram arrives: every
  \<open>select\<close> ends with its timer. It drives the parts of \<open>run\<close>, whose \<open>run_close_select\<close> has the case
  of a datagram too, along this one schedule. \<open>None\<close> when the rounds do not suffice; the result carries the time.
\<close>

fun closing :: "link \<Rightarrow> nat \<Rightarrow> int \<Rightarrow> runner \<Rightarrow> KCPConn \<Rightarrow> (runner \<times> KCPConn \<times> int) res option" where
  "closing wt 0 now r s = None"
| "closing wt (Suc n) now r s =
     (case run_close_head wt now now r s of
        Inl e \<Rightarrow> Some (Inl e)
      | Inr (r, s) \<Rightarrow>
          if r_pc r = Finishing then (case run_finish r s of (r, s) \<Rightarrow> Some (Inr (r, s, now)))
          else (case run_close_select wt now now EvTimer r s of
                  Some (Inr (r', s)) \<Rightarrow> closing wt n (now + updateDelay r) r' s
                | Some (Inl e) \<Rightarrow> Some (Inl e)
                | None \<Rightarrow> None))"

lemma run_close_head_delay:
  assumes inv: "conn_inv s"
  shows "\<exists>r' s'. run_close_head wt now1 now2 r s = Inr (r', s') \<and> conn_inv s' \<and>
    r_pc r' \<in> {CloseSelect, Finishing} \<and> (\<bar>now2 - closeWaitStartTime r\<bar> \<ge> 5000000000 \<longrightarrow> r_pc r' = Finishing) \<and>
    100000000 \<le> updateDelay r' \<and> updateDelay r' \<le> 1000000000 \<and> closeWaitStartTime r' = closeWaitStartTime r"
proof -
  obtain s1 where "kcp_call wt (update (currentTickMs now1)) s = Inr s1" "conn_run {} 1 s [] s1"
    using kcp_call_runs(2) [OF inv] by blast
  then show ?thesis by (auto simp: run_close_head_def Let_def updateDelayMax_def conn_run_inv)
qed

lemma closing_ends:
  assumes "conn_inv s" "closeWaitStartTime r \<le> now" "closeWaitStartTime r + 5000000000 \<le> now + int n * 100000000"
  shows "\<exists>r' s' t. closing wt (Suc n) now r s = Some (Inr (r', s', t)) \<and> r_pc r' = Returned \<and>
    t \<le> max now (closeWaitStartTime r + 6000000000)"
  using assms
proof (induction n arbitrary: now r s)
  case 0
  obtain r' s' where "run_close_head wt now now r s = Inr (r', s')" "r_pc r' = Finishing"
    using run_close_head_delay [OF 0(1), of wt now now r] 0(3) by auto
  then show ?case by (auto simp: run_finish_def Let_def)
next
  case (Suc n)
  obtain r1 s1 where h: "run_close_head wt now now r s = Inr (r1, s1)" "conn_inv s1" "r_pc r1 \<in> {CloseSelect, Finishing}"
    "\<bar>now - closeWaitStartTime r\<bar> \<ge> 5000000000 \<longrightarrow> r_pc r1 = Finishing"
    "100000000 \<le> updateDelay r1" "updateDelay r1 \<le> 1000000000" "closeWaitStartTime r1 = closeWaitStartTime r"
    using run_close_head_delay [OF Suc.prems(1), of wt now now r] by blast
  show ?case
  proof (cases "r_pc r1 = Finishing")
    case True
    then show ?thesis using h(1) by (auto simp: run_finish_def Let_def)
  next
    case False
    then have early: "now - closeWaitStartTime r < 5000000000" using h(4) Suc.prems(2) by linarith
    let ?r = "r1 \<lparr> r_pc := CloseHead \<rparr>" and ?t = "now + updateDelay r1"
    have "closeWaitStartTime ?r \<le> ?t" "closeWaitStartTime ?r + 5000000000 \<le> ?t + int n * 100000000"
      using Suc.prems(2,3) h(5,7) by simp_all
    from Suc.IH [OF h(2) this] obtain r' s' t where c: "closing wt (Suc n) ?t ?r s1 = Some (Inr (r', s', t))" "r_pc r' = Returned"
      "t \<le> max ?t (closeWaitStartTime r + 6000000000)" using h(7) by auto
    have "closing wt (Suc (Suc n)) now r s = Some (Inr (r', s', t))"
      unfolding closing.simps(2) [of wt "Suc n"] using h(1) False c(1) by simp
    moreover have "t \<le> max now (closeWaitStartTime r + 6000000000)" using c(3) early h(6) by linarith
    ultimately show ?thesis using c(2) by blast
  qed
qed

section \<open>Closing before the handshake\<close>

lemma close_unconnected:
  assumes inv: "conn_inv s" and n: "\<not> isStateConnected (c_kcp s)" "\<not> isStateLocalClosed (c_kcp s)" "\<not> ch_closed (c_die s)"
  shows "closeInternal wt now s = Inr (None, s \<lparr> c_die := (c_die s) \<lparr> ch_closed := True \<rparr> \<rparr>)"
    "closeInternal wt now' (s \<lparr> c_die := (c_die s) \<lparr> ch_closed := True \<rparr> \<rparr>) = Inl CloseOfClosedChannel"
  using assms by (auto simp: closeInternal_def close_chan_def kcp_call_def sendCloseFlush_def conn_inv_def)

lemma or_remote_idem: "bit w 1 \<Longrightarrow> (w :: u32) OR 2 = w"
  using and_single_bit [of w 1] by (intro bit_word_eqI) (auto simp: bit_simps)

lemma fill_nothing: "fst (recvSize k) \<le> 0 \<Longrightarrow> fill_bufRead k b = Inr (snd (recvSize k), b)"
  by (subst fill_bufRead.simps) (auto split: prod.splits)

lemma read_panics_again:
  assumes inv: "conn_inv s" and b: "b \<noteq> []"
    and n: "isStateRemoteClosed (c_kcp s)" "\<not> isStateConnected (c_kcp s)" "\<not> isStateLocalClosed (c_kcp s)" "ch_closed (c_die s)"
    and e: "Len (c_bufRead s) = 0" "fst (recvSize (c_kcp s)) \<le> 0"
  shows "Read_iter wt now1 now2 b s = Inl CloseOfClosedChannel"
proof -
  have "c_kcp s \<lparr> state := state (c_kcp s) OR IKCP_STATE_REMOTE_CLOSED \<rparr> = c_kcp s"
    using n(1) by (simp add: state_bits const_defs or_remote_idem)
  then have "snd (recvSize (c_kcp s)) = c_kcp s" by (auto simp: recvSize_def split: list.split)
  then have "Read_fill (length b) s = Inr s" using e b fill_nothing [OF e(2)] by (simp add: Read_fill_def)
  moreover have "closeInternal wt now1 s = Inl CloseOfClosedChannel"
    using n(2-4) inv by (simp add: closeInternal_def close_chan_def kcp_call_def sendCloseFlush_def conn_inv_def)
  moreover have "shouldClose (c_kcp s)" using n by (simp add: state_queries)
  ultimately show ?thesis by (simp add: Read_iter_def Read_close_def)
qed

text \<open>
  The first round closes \<open>die\<close> and waits; the next one, whatever wakes it, closes it again. \<open>t\<close> is the timer
  the first round waits with.
\<close>

lemma read_closes_twice:
  assumes inv: "conn_inv s" and b: "b \<noteq> []"
    and n: "isStateRemoteClosed (c_kcp s)" "\<not> isStateConnected (c_kcp s)" "\<not> isStateLocalClosed (c_kcp s)" "\<not> ch_closed (c_die s)"
    and e: "contents (c_bufRead s) = []" "fst (recvSize (c_kcp s)) \<le> 0" "\<And>d. c_deadlineRead s = Some d \<Longrightarrow> now2 < d"
  shows "\<exists>s'. Read_iter wt now1 now2 b s = Inr (ReadWait (map_option (\<lambda>d. d - now2) (c_deadlineRead s)), s') \<and>
    (\<exists>s''. read_wake WakeDie t s' = Some s'') \<and>
    (\<forall>wk s''. read_wake wk t s' = Some s'' \<longrightarrow> Read_iter wt now3 now4 b s'' = Inl CloseOfClosedChannel)"
proof -
  define s1 where "s1 = s \<lparr> c_kcp := snd (recvSize (c_kcp s)) \<rparr>"
  define s2 where "s2 = s1 \<lparr> c_die := (c_die s1) \<lparr> ch_closed := True \<rparr> \<rparr>"
  have k: "recvSize (c_kcp s) = (fst (recvSize (c_kcp s)), c_kcp s1)" by (simp add: s1_def)
  have q: "fst (recvSize (c_kcp s1)) \<le> 0" using recvSize_fst recvSize_queue [OF k] e(2) by metis
  have L: "Len (c_bufRead s) = 0" using length_contents [OF conn_inv_sel(2) [OF inv]] e(1) by simp
  have len: "0 < int (length b)" using b by simp
  have inv1: "conn_inv s1" using conn_inv_kcp [OF inv recvSize_kcp_inv [OF conn_inv_sel(1) [OF inv]]] by (simp add: s1_def)
  have st: "state (c_kcp s1) = state (c_kcp s) \<or> state (c_kcp s1) = state (c_kcp s) OR IKCP_STATE_REMOTE_CLOSED"
    using recvSize_state [of "c_kcp s"] by (simp add: s1_def)
  then have n1: "isStateRemoteClosed (c_kcp s1)" "\<not> isStateConnected (c_kcp s1)" "\<not> isStateLocalClosed (c_kcp s1)" "\<not> ch_closed (c_die s1)"
    using n by (auto simp: state_bits bit_simps const_defs s1_def)
  have f1: "Read_fill (length b) s = Inr s1" using L len fill_nothing [OF e(2)] by (simp add: Read_fill_def s1_def)
  have c: "closeInternal wt now1 s1 = Inr (None, s2)" using close_unconnected(1) [OF inv1 n1(2,3,4)] by (simp add: s2_def)
  have sc: "shouldClose (c_kcp s1)" "c_kcp s2 = c_kcp s1" "c_bufRead s2 = c_bufRead s" "c_deadlineRead s2 = c_deadlineRead s" "ch_closed (c_die s2)"
    using n1 by (simp_all add: state_queries s1_def s2_def)
  have "Read_iter wt now1 now2 b s = Inr (ReadWait (map_option (\<lambda>d. d - now2) (c_deadlineRead s)), s2)"
    using f1 sc c L n1(3) e(3) by (auto simp: Read_iter_def Read_close_def Read_result_def split: option.split)
  moreover have "read_wake WakeDie t s2 = Some s2"
    using inv1 by (simp add: try_recv_def s2_def conn_inv_def)
  moreover have "Read_iter wt now3 now4 b s'' = Inl CloseOfClosedChannel" if w: "read_wake wk t s2 = Some s''" for wk s''
  proof -
    have inv2: "conn_inv s2" using inv1 by (simp add: s2_def conn_inv_def)
    have "conn_inv s''" using wake_run(1) [OF inv2 w, of "{}"] by (simp add: conn_run_def)
    moreover have "(c_kcp s'', c_bufRead s'', c_die s'') = (c_kcp s2, c_bufRead s2, c_die s2)"
      using w \<open>read_wake WakeDie t s2 = Some s2\<close> by (cases wk) (auto split: if_splits)
    ultimately show ?thesis using n1 q L sc by (intro read_panics_again [OF _ b]) simp_all
  qed
  ultimately show ?thesis by blast
qed

end
