(* ===== verification/Kcp_Listener.thy ===== *)
theory Kcp_Listener
  imports Conn_Safety
begin

text \<open>
  The \<open>Listener\<close> of \<open>go/kcp/kcpconn.go\<close>: it hands the datagrams of one socket to the connection of
  the address they come from, opens connections, and forgets those that have ended.

  A pointer to a connection is an index into \<open>l_conns\<close>, the connections accepted so far. The
  goroutine \<open>server\<close> is a state machine with a state for each place it can block at: its \<open>select\<close>,
  the send on \<open>chAccepts\<close>, and the send on the input queue of a connection.
\<close>

section \<open>Session tables\<close>

text \<open>What \<open>server\<close> uses of the map \<open>sessions\<close>, and what its two uses of it come to.\<close>

locale session_table =
  fixes lookup :: "'t \<Rightarrow> 'a \<Rightarrow> 'v option" and put :: "'a \<Rightarrow> 'v \<Rightarrow> 't \<Rightarrow> 't" and del :: "'a \<Rightarrow> 't \<Rightarrow> 't"
  assumes lookup_put: "lookup (put a v t) b = (if b = a then Some v else lookup t b)"
    and lookup_del: "lookup (del a t) b = (if b = a then None else lookup t b)"
begin

text \<open>A closing session is deleted and its successor entered.\<close>

lemma replace: "lookup (put a v (del a t)) b = (if b = a then Some v else lookup t b)"
  by (simp add: lookup_put lookup_del)

text \<open>A session that has ended is forgotten, unless its address has a new session by now.\<close>

lemma forget:
  "lookup (if lookup t a = Some v then del a t else t) b =
     (if b = a \<and> lookup t a = Some v then None else lookup t b)"
  by (simp add: lookup_del)

lemma forget_keeps:
  assumes "lookup t a = Some w" "w \<noteq> v"
  shows "lookup (if lookup t a = Some v then del a t else t) a = Some w"
  using assms by (simp add: lookup_del)

end

type_synonym sessions = "string \<rightharpoonup> nat"

definition sess_put :: "string \<Rightarrow> nat \<Rightarrow> sessions \<Rightarrow> sessions" where
  "sess_put a i m = m(a \<mapsto> i)"

definition sess_del :: "string \<Rightarrow> sessions \<Rightarrow> sessions" where
  "sess_del a m = m(a := None)"

interpretation sess: session_table "\<lambda>m a. m a" sess_put sess_del
  by unfold_locales (simp_all add: sess_put_def sess_del_def)

section \<open>Operations\<close>

datatype srv_pc = SrvSelect | SrvAccept nat bytes | SrvInput nat bytes | SrvDone

record Listener =
  l_sessions :: sessions
  l_conns :: "csys list"
  l_chAccepts :: "nat chan"
  l_chDeadConns :: "nat chan"
  l_die :: "unit chan"
  l_rd :: "int option"
  l_wd :: "int option"
  l_chPacket :: "(string \<times> bytes) chan"
  l_pc :: srv_pc
  l_reading :: bool          \<comment> \<open>the goroutine that reads the socket is running\<close>
  l_errorRead :: int

definition ServeConn :: Listener where
  "ServeConn = \<lparr> l_sessions = Map.empty, l_conns = [], l_chAccepts = make_chan 4096, l_chDeadConns = make_chan 4096,
     l_die = make_chan 0, l_rd = None, l_wd = None, l_chPacket = make_chan rxQueueLimit, l_pc = SrvSelect,
     l_reading = True, l_errorRead = 0 \<rparr>"

text \<open>
  A round of the reading goroutine: what \<open>ReadFrom\<close> returned (\<open>None\<close> is an error). The result is
  \<open>None\<close> when it blocks or has ended.
\<close>

definition listener_recv :: "(string \<times> bytes) option \<Rightarrow> Listener \<Rightarrow> Listener res option" where
  "listener_recv r l =
     (if \<not> l_reading l then None
      else case r of
             Some p \<Rightarrow> (case try_send p (l_chPacket l) of
                           Inl e \<Rightarrow> Some (Inl e)
                         | Inr (done, c) \<Rightarrow> if done then Some (Inr (l \<lparr> l_chPacket := c \<rparr>)) else None)
           | None \<Rightarrow> Some (bind_res (close_chan (l_chPacket l)) (\<lambda>c.
                        Inr (l \<lparr> l_chPacket := c, l_errorRead := l_errorRead l + 1, l_reading := False \<rparr>))))"

text \<open>\<open>binary.LittleEndian.Uint32(data)\<close>\<close>

definition packet_conv :: "bytes \<Rightarrow> u32 res" where
  "packet_conv data = bind_res (ikcp_decode32u data) (\<lambda>(cv, _). Inr cv)"

definition new_session :: "u32 \<Rightarrow> string \<Rightarrow> bytes \<Rightarrow> Listener \<Rightarrow> Listener" where
  "new_session cv from data l =
     (let i = length (l_conns l)
      in l \<lparr> l_conns := l_conns l @ [server_conn cv from], l_sessions := sess_put from i (l_sessions l),
             l_pc := SrvAccept i data \<rparr>)"

text \<open>The case of a packet, up to the first send that may block.\<close>

definition server_packet :: "string \<Rightarrow> bytes \<Rightarrow> Listener \<Rightarrow> Listener res" where
  "server_packet from data l =
     (if length data < IKCP_OVERHEAD then Inr l
      else bind_res (packet_conv data) (\<lambda>cv.
             case l_sessions l from of
               Some i \<Rightarrow>
                 let s = x_conn (l_conns l ! i)
                 in if GetConv s \<noteq> cv
                    then if \<not> isRemoteOpen (c_kcp s)
                         then Inr (new_session cv from data (l \<lparr> l_sessions := sess_del from (l_sessions l) \<rparr>))
                         else Inr l
                    else Inr (l \<lparr> l_pc := SrvInput i data \<rparr>)
             | None \<Rightarrow> Inr (new_session cv from data l)))"

definition server_dead :: "nat \<Rightarrow> Listener \<Rightarrow> Listener" where
  "server_dead i l =
     (let addr = RemoteAddr (x_conn (l_conns l ! i))
      in l \<lparr> l_sessions := (if l_sessions l addr = Some i then sess_del addr (l_sessions l) else l_sessions l) \<rparr>)"

datatype srv_ev = SrvPacket | SrvDead | SrvDie

text \<open>
  A step of \<open>server\<close>; \<open>None\<close> when it blocks. A closed \<open>chPacket\<close> yields the zero packet, whose data
  is nil, for ever.
\<close>

definition with_udp :: "bytes chan \<Rightarrow> csys \<Rightarrow> csys" where
  "with_udp c x = x \<lparr> x_conn := (x_conn x) \<lparr> c_chUdpInput := c \<rparr> \<rparr>"

definition server_step :: "srv_ev \<Rightarrow> Listener \<Rightarrow> Listener res option" where
  "server_step ev l =
     (case l_pc l of
        SrvSelect \<Rightarrow>
          (case ev of
             SrvPacket \<Rightarrow> map_option (\<lambda>(v, c). case v of
                                     Some (from, data) \<Rightarrow> server_packet from data (l \<lparr> l_chPacket := c \<rparr>)
                                   | None \<Rightarrow> server_packet [] [] (l \<lparr> l_chPacket := c \<rparr>)) (try_recv (l_chPacket l))
           | SrvDead \<Rightarrow> map_option (\<lambda>(v, c). case v of
                                   Some i \<Rightarrow> Inr (server_dead i (l \<lparr> l_chDeadConns := c \<rparr>))
                                 | None \<Rightarrow> Inl NilPointer) (try_recv (l_chDeadConns l))
           | SrvDie \<Rightarrow> map_option (\<lambda>(v, c). Inr (l \<lparr> l_die := c, l_pc := SrvDone \<rparr>)) (try_recv (l_die l)))
      | SrvAccept i data \<Rightarrow>
          (case try_send i (l_chAccepts l) of
             Inl e \<Rightarrow> Some (Inl e)
           | Inr (done, c) \<Rightarrow> if done then Some (Inr (l \<lparr> l_chAccepts := c, l_pc := SrvInput i data \<rparr>)) else None)
      | SrvInput i data \<Rightarrow>
          (case try_send data (c_chUdpInput (x_conn (l_conns l ! i))) of
             Inl e \<Rightarrow> Some (Inl e)
           | Inr (done, c) \<Rightarrow>
               if done then Some (Inr (l \<lparr> l_conns := (l_conns l)[i := with_udp c (l_conns l ! i)], l_pc := SrvSelect \<rparr>))
               else None)
      | SrvDone \<Rightarrow> None)"

datatype acc_ev = AccTimeout | AccConn | AccDie

text \<open>The \<open>select\<close> of \<open>AcceptKCP\<close>: the case that is taken; \<open>None\<close> when it is not ready.\<close>

fun AcceptKCP :: "acc_ev \<Rightarrow> Listener \<Rightarrow> ((conn_err + nat) \<times> Listener) option" where
  "AcceptKCP AccTimeout l = (if l_rd l = None then None else Some (Inl ErrTimeout, l))"
| "AcceptKCP AccConn l =
     (case try_recv (l_chAccepts l) of
        Some (Some i, c) \<Rightarrow> Some (Inr i, l \<lparr> l_chAccepts := c \<rparr>)
      | _ \<Rightarrow> None)"
| "AcceptKCP AccDie l = map_option (\<lambda>(_, c). (Inl ErrBrokenPipe, l \<lparr> l_die := c \<rparr>)) (try_recv (l_die l))"

definition Accept :: "acc_ev \<Rightarrow> Listener \<Rightarrow> ((conn_err + nat) \<times> Listener) option" where
  "Accept ev l = AcceptKCP ev l"

definition Listener_SetReadDeadline :: "int option \<Rightarrow> Listener \<Rightarrow> Listener" where
  "Listener_SetReadDeadline t l = l \<lparr> l_rd := t \<rparr>"

definition Listener_SetWriteDeadline :: "int option \<Rightarrow> Listener \<Rightarrow> Listener" where
  "Listener_SetWriteDeadline t l = l \<lparr> l_wd := t \<rparr>"

definition Listener_SetDeadline :: "int option \<Rightarrow> Listener \<Rightarrow> Listener" where
  "Listener_SetDeadline t l = Listener_SetWriteDeadline t (Listener_SetReadDeadline t l)"

definition Listener_Close :: "Listener \<Rightarrow> Listener res" where
  "Listener_Close l = bind_res (close_chan (l_die l)) (\<lambda>d. Inr (l \<lparr> l_die := d \<rparr>))"

definition Listener_SetReadBuffer :: "(int \<Rightarrow> conn_err option) option \<Rightarrow> int \<Rightarrow> conn_err option" where
  "Listener_SetReadBuffer nc n = (case nc of Some f \<Rightarrow> f n | None \<Rightarrow> Some ErrInvalidOperation)"

definition Listener_SetWriteBuffer :: "(int \<Rightarrow> conn_err option) option \<Rightarrow> int \<Rightarrow> conn_err option" where
  "Listener_SetWriteBuffer nc n = (case nc of Some f \<Rightarrow> f n | None \<Rightarrow> Some ErrInvalidOperation)"

text \<open>
  The end of \<open>run\<close> of an accepted connection: it reports itself on \<open>chDeadConns\<close>, or finds the
  listener closed (\<open>use_die\<close>), and returns.
\<close>

definition report_dead :: "nat \<Rightarrow> bool \<Rightarrow> Listener \<Rightarrow> Listener res option" where
  "report_dead i use_die l =
     (let x = l_conns l ! i; fin = (case run_finish (x_run x) (x_conn x) of (r, s) \<Rightarrow> (with_conn s x) \<lparr> x_run := r \<rparr>)
      in if r_pc (x_run x) \<noteq> Finishing then None
         else if use_die
         then map_option (\<lambda>(_, c). Inr (l \<lparr> l_conns := (l_conns l)[i := fin], l_die := c \<rparr>)) (try_recv (l_die l))
         else (case try_send i (l_chDeadConns l) of
                 Inl e \<Rightarrow> Some (Inl e)
               | Inr (done, c) \<Rightarrow> if done then Some (Inr (l \<lparr> l_conns := (l_conns l)[i := fin], l_chDeadConns := c \<rparr>)) else None))"

section \<open>The system\<close>

text \<open>
  The goroutines of the listener, its users, and those of every accepted connection. Datagrams reach
  a connection through \<open>server\<close> only; the last step of its \<open>run\<close> is \<open>LFinish\<close>.
\<close>

datatype lis_op =
    LRecv "(string \<times> bytes) option"
  | LServer srv_ev
  | LAccept acc_ev
  | LClose
  | LSetDeadline "int option" | LSetReadDeadline "int option" | LSetWriteDeadline "int option"
  | LConn nat conn_op
  | LFinish nat bool

fun finishes :: "conn_op \<Rightarrow> csys \<Rightarrow> bool" where
  "finishes (CRun now1 now2 ev) x \<longleftrightarrow> r_pc (x_run x) = Finishing"
| "finishes _ x \<longleftrightarrow> False"

fun lis_exec :: "(nat \<Rightarrow> link) \<Rightarrow> lis_op \<Rightarrow> Listener \<Rightarrow> Listener res option" where
  "lis_exec wt (LRecv r) l = listener_recv r l"
| "lis_exec wt (LServer ev) l = server_step ev l"
| "lis_exec wt (LAccept ev) l = map_option (\<lambda>(r, l). Inr l) (AcceptKCP ev l)"
| "lis_exec wt LClose l = Some (Listener_Close l)"
| "lis_exec wt (LSetDeadline t) l = Some (Inr (Listener_SetDeadline t l))"
| "lis_exec wt (LSetReadDeadline t) l = Some (Inr (Listener_SetReadDeadline t l))"
| "lis_exec wt (LSetWriteDeadline t) l = Some (Inr (Listener_SetWriteDeadline t l))"
| "lis_exec wt (LConn i op) l =
     (if i < length (l_conns l) \<and> \<not> finishes op (l_conns l ! i) \<and> arrives op = {}
      then map_option (\<lambda>m. bind_res m (\<lambda>x. Inr (l \<lparr> l_conns := (l_conns l)[i := x] \<rparr>))) (conn_exec (wt i) op (l_conns l ! i))
      else None)"
| "lis_exec wt (LFinish i use_die) l = (if i < length (l_conns l) then report_dead i use_die l else None)"

fun lis_op_ok :: "lis_op \<Rightarrow> Listener \<Rightarrow> bool" where
  "lis_op_ok (LRecv (Some (a, d))) l \<longleftrightarrow> length d \<le> udpPacketSizeLimit"
| "lis_op_ok (LConn i op) l \<longleftrightarrow> conn_op_ok op (l_conns l ! i)"
| "lis_op_ok _ l \<longleftrightarrow> True"

inductive lis_step :: "(nat \<Rightarrow> link) \<Rightarrow> Listener \<Rightarrow> Listener \<Rightarrow> bool" for wt where
  "lis_op_ok op l \<Longrightarrow> lis_exec wt op l = Some (Inr l') \<Longrightarrow> lis_step wt l l'"

section \<open>Invariant\<close>

definition addr_of :: "csys \<Rightarrow> string" where
  "addr_of x = c_remoteAddr (x_conn x)"

text \<open>
  Every entry of the table is a connection of that address, so two addresses never share one; an
  entry whose \<open>run\<close> has returned is waiting to be removed, unless the listener is closed.
\<close>

definition table_ok :: "Listener \<Rightarrow> bool" where
  "table_ok l \<longleftrightarrow> (\<forall>a i. l_sessions l a = Some i \<longrightarrow>
     i < length (l_conns l) \<and> addr_of (l_conns l ! i) = a \<and>
     (r_pc (x_run (l_conns l ! i)) = Returned \<longrightarrow> i \<in> set (ch_items (l_chDeadConns l)) \<or> ch_closed (l_die l)))"

fun pc_bound :: "nat \<Rightarrow> srv_pc \<Rightarrow> bool" where
  "pc_bound n (SrvAccept i d) \<longleftrightarrow> i < n \<and> length d \<le> udpPacketSizeLimit"
| "pc_bound n (SrvInput i d) \<longleftrightarrow> i < n \<and> length d \<le> udpPacketSizeLimit"
| "pc_bound n _ \<longleftrightarrow> True"

definition pc_ok :: "Listener \<Rightarrow> bool" where
  "pc_ok l \<longleftrightarrow> pc_bound (length (l_conns l)) (l_pc l)"

definition queues_ok :: "Listener \<Rightarrow> bool" where
  "queues_ok l \<longleftrightarrow> event_ok (l_chAccepts l) 4096 \<and> event_ok (l_chDeadConns l) 4096 \<and> ch_items (l_die l) = [] \<and>
     (\<forall>i \<in> set (ch_items (l_chAccepts l)) \<union> set (ch_items (l_chDeadConns l)). i < length (l_conns l)) \<and>
     (\<forall>p \<in> set (ch_items (l_chPacket l)). length (snd p) \<le> udpPacketSizeLimit) \<and>
     (ch_closed (l_chPacket l) \<longleftrightarrow> \<not> l_reading l)"

definition lis_inv :: "Listener \<Rightarrow> bool" where
  "lis_inv l \<longleftrightarrow> table_ok l \<and> pc_ok l \<and> queues_ok l \<and> (\<forall>x \<in> set (l_conns l). sys_inv x)"

lemma ServeConn_inv: "lis_inv ServeConn"
  by (simp add: lis_inv_def table_ok_def pc_ok_def queues_ok_def ServeConn_def make_chan_def event_ok_def chan_ok_def)

text \<open>What the steps of a connection leave alone.\<close>

lemma kcp_call_addr: "kcp_call wt f s = Inr s' \<Longrightarrow> c_remoteAddr s' = c_remoteAddr s"
  by (auto simp: kcp_call_def bind_res_eq_Inr Let_def split: if_splits)

lemma notify_addr:
  "notifyReadEvent s = Inr s' \<Longrightarrow> c_remoteAddr s' = c_remoteAddr s"
  "notifyWriteEvent s = Inr s' \<Longrightarrow> c_remoteAddr s' = c_remoteAddr s"
  "notifyFlushEvent s = Inr s' \<Longrightarrow> c_remoteAddr s' = c_remoteAddr s"
  by (auto simp: notifyReadEvent_def notifyWriteEvent_def notifyFlushEvent_def bind_res_eq_Inr)

lemma closeInternal_addr: "closeInternal wt now s = Inr (err, s') \<Longrightarrow> c_remoteAddr s' = c_remoteAddr s"
  by (auto simp: closeInternal_def bind_res_eq_Inr dest!: kcp_call_addr split: if_splits)

lemma Read_iter_addr:
  assumes "Read_iter wt now1 now2 b s = Inr (out, s')"
  shows "c_remoteAddr s' = c_remoteAddr s"
proof -
  obtain s1 s2 where s: "Read_fill (length b) s = Inr s1" "Read_close wt now1 s1 = Inr s2" "Read_result now2 b s2 = Inr (out, s')"
    using assms by (auto simp: Read_iter_def bind_res_eq_Inr)
  have "c_remoteAddr s1 = c_remoteAddr s" using s(1) by (auto simp: Read_fill_def bind_res_eq_Inr split: if_splits)
  moreover have "c_remoteAddr s2 = c_remoteAddr s1"
    using s(2) closeInternal_addr by (auto simp: Read_close_def bind_res_eq_Inr split: if_splits)
  moreover have "c_remoteAddr s' = c_remoteAddr s2"
    using s(3) by (auto simp: Read_result_def bind_res_eq_Inr split: if_splits option.splits)
  ultimately show ?thesis by simp
qed

lemma doKcpInput_addr: "doKcpInput wt now1 now2 data s = Inr s' \<Longrightarrow> c_remoteAddr s' = c_remoteAddr s"
  by (auto simp: doKcpInput_def input_greet_def input_notify_def case_prod_unfold Let_def bind_res_eq_Inr
      dest!: kcp_call_addr notify_addr split: if_splits)

lemma run_leave_addr: "run_leave wt now1 now2 r s = Inr (r', s') \<Longrightarrow> c_remoteAddr s' = c_remoteAddr s \<and> r_pc r' = CloseHead"
  by (auto simp: run_leave_def Let_def bind_res_eq_Inr dest!: kcp_call_addr split: if_splits)

lemma run_step_addr:
  assumes "run_step wt now1 now2 ev r s = Some (Inr (r', s'))"
  shows "c_remoteAddr s' = c_remoteAddr s" "r_pc r' = Returned \<Longrightarrow> r_pc r = Finishing"
proof -
  have "c_remoteAddr s' = c_remoteAddr s \<and> (r_pc r' = Returned \<longrightarrow> r_pc r = Finishing)"
  proof (cases "r_pc r")
    case MainHead
    then show ?thesis using assms
      by (auto simp: run_step_def run_head_def Let_def bind_res_eq_Inr dest!: kcp_call_addr notify_addr run_leave_addr split: if_splits)
  next
    case MainSelect
    then show ?thesis using assms
      by (cases ev) (auto simp: run_step_def bind_res_eq_Inr dest!: doKcpInput_addr run_leave_addr)
  next
    case CloseHead
    then show ?thesis using assms
      by (auto simp: run_step_def run_close_head_def Let_def bind_res_eq_Inr dest!: kcp_call_addr split: if_splits)
  next
    case CloseSelect
    then show ?thesis using assms by (cases ev) (auto simp: run_step_def bind_res_eq_Inr dest!: doKcpInput_addr)
  next
    case Finishing
    then show ?thesis using assms by (auto simp: run_step_def run_finish_def Let_def)
  qed (use assms in \<open>simp add: run_step_def\<close>)
  then show "c_remoteAddr s' = c_remoteAddr s" "r_pc r' = Returned \<Longrightarrow> r_pc r = Finishing" by simp_all
qed

lemma conn_exec_addr:
  assumes e: "conn_exec wt op x = Some (Inr x')"
  shows "addr_of x' = addr_of x \<and> (r_pc (x_run x') = Returned \<longrightarrow> r_pc (x_run x) = Returned \<or> finishes op x)"
proof (cases op)
  case (CReadRound now1 now2)
  then obtain b out s where r: "Read_iter wt now1 now2 b (x_conn x) = Inr (out, s)" "x' = after_read b out (with_conn s x)"
    using e by (auto simp: bind_res_eq_Inr split: reader.splits)
  then show ?thesis using Read_iter_addr [OF r(1)] by (cases out) (auto simp: addr_of_def)
next
  case (CReadWake w)
  then show ?thesis using e by (cases w) (auto simp: addr_of_def split: reader.splits if_splits)
next
  case (CWriteRound now)
  then obtain b out s where r: "Write_iter now b (x_conn x) = Inr (out, s)" "x' = after_write b out (with_conn s x)"
    using e by (auto simp: bind_res_eq_Inr split: writer.splits)
  have "c_remoteAddr s = c_remoteAddr (x_conn x)"
    using r(1) by (auto simp: Write_iter_def Write_send_def Let_def bind_res_eq_Inr dest!: notify_addr split: if_splits option.splits)
  then show ?thesis using r(2) by (cases out) (auto simp: addr_of_def)
next
  case (CWriteWake w)
  then show ?thesis using e by (cases w) (auto simp: addr_of_def split: writer.splits if_splits)
next
  case (CClose now)
  then show ?thesis using e closeInternal_addr by (auto simp: Close_def addr_of_def bind_res_eq_Inr)
next
  case (CUdp r u)
  then show ?thesis using e
    by (auto simp: addr_of_def client_recv_def bind_res_eq_Inr split: recv_result.splits if_splits sum.splits)
next
  case (CRun now1 now2 ev)
  then show ?thesis using e run_step_addr by (fastforce simp: addr_of_def bind_res_eq_Inr)
qed (use e in \<open>auto simp: addr_of_def bind_res_eq_Inr connect_flush_def connect_wait_def SetDeadline_def SetReadDeadline_def
    SetWriteDeadline_def SetWindowSize_def SetMtu_def SetStreamMode_def SetNoDelay_def SetKeepAlive_def
    dest!: kcp_call_addr notify_addr split: if_splits\<close>)

section \<open>The table is kept\<close>

lemma packet_conv_total: "IKCP_OVERHEAD \<le> length data \<Longrightarrow> \<exists>cv. packet_conv data = Inr cv"
  by (cases data rule: ikcp_decode32u.cases) (auto simp: packet_conv_def IKCP_OVERHEAD_def)

text \<open>Replacing a connection by a later state of itself.\<close>

lemma table_ok_update:
  assumes t: "table_ok l" and i: "i < length (l_conns l)" and a: "addr_of x = addr_of (l_conns l ! i)"
    and r: "r_pc (x_run x) = Returned \<Longrightarrow> r_pc (x_run (l_conns l ! i)) = Returned \<or> i \<in> set (ch_items c) \<or> ch_closed d"
    and c: "set (ch_items (l_chDeadConns l)) \<subseteq> set (ch_items c)" "ch_closed (l_die l) \<longrightarrow> ch_closed d"
  shows "table_ok (l \<lparr> l_conns := (l_conns l)[i := x], l_chDeadConns := c, l_die := d \<rparr>)"
proof -
  have "j < length (l_conns l) \<and> addr_of ((l_conns l)[i := x] ! j) = b \<and>
      (r_pc (x_run ((l_conns l)[i := x] ! j)) = Returned \<longrightarrow> j \<in> set (ch_items c) \<or> ch_closed d)"
    if "l_sessions l b = Some j" for b j
  proof -
    have j: "j < length (l_conns l)" "addr_of (l_conns l ! j) = b"
      "r_pc (x_run (l_conns l ! j)) = Returned \<longrightarrow> j \<in> set (ch_items (l_chDeadConns l)) \<or> ch_closed (l_die l)"
      using t that by (auto simp: table_ok_def)
    show ?thesis
    proof (cases "j = i")
      case True
      then show ?thesis using j a r c i by auto
    next
      case False
      then show ?thesis using j c by auto
    qed
  qed
  then show ?thesis by (simp add: table_ok_def)
qed

lemma server_conn_inv: "sys_inv (server_conn cv a)" "addr_of (server_conn cv a) = a" "r_pc (x_run (server_conn cv a)) = MainHead"
proof -
  have "sys_init (server_conn cv a)" by (auto simp: sys_init_def)
  then show "sys_inv (server_conn cv a)" by (rule conn.init_inv)
qed (simp_all add: server_conn_def csys0_def run_start_def accept_def addr_of_def)

lemma new_session_inv:
  assumes l: "lis_inv l" and d: "length data \<le> udpPacketSizeLimit" and m: "\<And>a. m a = l_sessions l a \<or> m a = None"
  shows "lis_inv (new_session cv from data (l \<lparr> l_sessions := m \<rparr>))"
proof -
  let ?n = "length (l_conns l)" and ?l = "new_session cv from data (l \<lparr> l_sessions := m \<rparr>)"
  have "table_ok ?l"
    unfolding table_ok_def
  proof (intro allI impI)
    fix a i
    assume "l_sessions ?l a = Some i"
    then have c: "a = from \<and> i = ?n \<or> l_sessions l a = Some i"
      using m [of a] by (auto simp: new_session_def Let_def sess.lookup_put split: if_splits)
    then have "i = ?n \<and> a = from \<or> i < ?n \<and> addr_of (l_conns l ! i) = a \<and>
        (r_pc (x_run (l_conns l ! i)) = Returned \<longrightarrow> i \<in> set (ch_items (l_chDeadConns l)) \<or> ch_closed (l_die l))"
      using l by (auto simp: lis_inv_def table_ok_def)
    then show "i < length (l_conns ?l) \<and> addr_of (l_conns ?l ! i) = a \<and>
        (r_pc (x_run (l_conns ?l ! i)) = Returned \<longrightarrow> i \<in> set (ch_items (l_chDeadConns ?l)) \<or> ch_closed (l_die ?l))"
      using server_conn_inv by (auto simp: new_session_def Let_def nth_append)
  qed
  moreover have "i < Suc ?n" if "i \<in> set (ch_items (l_chAccepts l)) \<union> set (ch_items (l_chDeadConns l))" for i
    using l that by (intro less_SucI) (simp add: lis_inv_def queues_ok_def)
  then have "queues_ok ?l"
    using l unfolding lis_inv_def queues_ok_def new_session_def Let_def by simp
  moreover have "pc_ok ?l" "\<forall>x \<in> set (l_conns ?l). sys_inv x"
    using l d server_conn_inv(1) by (auto simp: lis_inv_def pc_ok_def new_session_def Let_def)
  ultimately show ?thesis by (simp add: lis_inv_def)
qed

lemma server_packet_inv:
  assumes l: "lis_inv l" and pc: "l_pc l = SrvSelect" and d: "length data \<le> udpPacketSizeLimit"
  shows "\<exists>l'. server_packet from data l = Inr l' \<and> lis_inv l'"
proof (cases "length data < IKCP_OVERHEAD")
  case True
  then show ?thesis using l by (simp add: server_packet_def)
next
  case False
  then obtain cv where cv: "packet_conv data = Inr cv" using packet_conv_total by (metis not_less)
  have del: "sess_del from (l_sessions l) a = l_sessions l a \<or> sess_del from (l_sessions l) a = None" for a
    by (simp add: sess.lookup_del)
  have put: "lis_inv (new_session cv from data l)" using new_session_inv [OF l d, of "l_sessions l"] by simp
  have "lis_inv (l \<lparr> l_pc := SrvInput i data \<rparr>)" if "l_sessions l from = Some i" for i
    using l d that by (auto simp: lis_inv_def table_ok_def pc_ok_def queues_ok_def)
  then show ?thesis using False cv l put new_session_inv [OF l d del]
    by (auto simp: server_packet_def Let_def split: option.split)
qed

lemma server_dead_inv:
  assumes l: "lis_inv l" and c: "try_recv (l_chDeadConns l) = Some (v, c)"
  shows "\<exists>i. v = Some i \<and> lis_inv (server_dead i (l \<lparr> l_chDeadConns := c \<rparr>))"
proof -
  have "event_ok (l_chDeadConns l) 4096" using l by (simp add: lis_inv_def queues_ok_def)
  note e = event_recv [OF this c]
  then obtain i where i: "v = Some i" "i \<in> set (ch_items (l_chDeadConns l))" by auto
  have split: "set (ch_items (l_chDeadConns l)) \<subseteq> insert i (set (ch_items c))"
    using c i(1) by (auto simp: try_recv_def split: list.splits if_splits)
  let ?l = "server_dead i (l \<lparr> l_chDeadConns := c \<rparr>)"
  have "table_ok ?l"
    unfolding table_ok_def
  proof (intro allI impI)
    fix a j
    assume a: "l_sessions ?l a = Some j"
    let ?b = "RemoteAddr (x_conn (l_conns l ! i))"
    have f: "l_sessions ?l a = (if a = ?b \<and> l_sessions l ?b = Some i then None else l_sessions l a)"
      by (simp add: server_dead_def Let_def sess.lookup_del)
    then have s: "l_sessions l a = Some j" and n: "\<not> (a = ?b \<and> l_sessions l ?b = Some i)" using a by (auto split: if_splits)
    then have j: "j < length (l_conns l)" "addr_of (l_conns l ! j) = a"
      "r_pc (x_run (l_conns l ! j)) = Returned \<longrightarrow> j \<in> set (ch_items (l_chDeadConns l)) \<or> ch_closed (l_die l)"
      using l by (auto simp: lis_inv_def table_ok_def)
    have "j \<noteq> i" using n s j(2) by (auto simp: RemoteAddr_def addr_of_def)
    then show "j < length (l_conns ?l) \<and> addr_of (l_conns ?l ! j) = a \<and>
        (r_pc (x_run (l_conns ?l ! j)) = Returned \<longrightarrow> j \<in> set (ch_items (l_chDeadConns ?l)) \<or> ch_closed (l_die ?l))"
      using j split by (auto simp: server_dead_def Let_def)
  qed
  moreover have "pc_ok ?l" "queues_ok ?l" "\<forall>x \<in> set (l_conns ?l). sys_inv x"
    using l e(1,4) by (auto simp: lis_inv_def pc_ok_def queues_ok_def server_dead_def Let_def)
  ultimately show ?thesis using i(1) by (simp add: lis_inv_def)
qed

text \<open>The goroutine \<open>server\<close> never panics.\<close>

lemma server_step_inv:
  assumes l: "lis_inv l" and e: "server_step ev l = Some m"
  shows "\<exists>l'. m = Inr l' \<and> lis_inv l'"
proof (cases "l_pc l")
  case SrvSelect
  show ?thesis
  proof (cases ev)
    case SrvPacket
    then obtain v c where c: "try_recv (l_chPacket l) = Some (v, c)" using e SrvSelect by (auto simp: server_step_def)
    let ?l = "l \<lparr> l_chPacket := c \<rparr>"
    have items: "set (ch_items c) \<subseteq> set (ch_items (l_chPacket l))" "set_option v \<subseteq> set (ch_items (l_chPacket l))"
      "ch_closed c = ch_closed (l_chPacket l)"
      using c by (auto simp: try_recv_def split: list.splits if_splits)
    have inv: "lis_inv ?l" using l items by (auto simp: lis_inv_def table_ok_def pc_ok_def queues_ok_def)
    have len: "length d \<le> udpPacketSizeLimit" if "v = Some (a, d)" for a d
      using l items(2) that by (auto simp: lis_inv_def queues_ok_def)
    show ?thesis
    proof (cases v)
      case None
      then show ?thesis using e SrvSelect SrvPacket c inv by (auto simp: server_step_def server_packet_def IKCP_OVERHEAD_def)
    next
      case (Some p)
      then show ?thesis using e SrvSelect SrvPacket c server_packet_inv [OF inv _ len] by (cases p) (auto simp: server_step_def)
    qed
  next
    case SrvDead
    then show ?thesis using e SrvSelect server_dead_inv [OF l] by (fastforce simp: server_step_def)
  next
    case SrvDie
    then obtain v c where c: "try_recv (l_die l) = Some (v, c)" "m = Inr (l \<lparr> l_die := c, l_pc := SrvDone \<rparr>)"
      using e SrvSelect by (auto simp: server_step_def)
    have "c = l_die l" using die_recv [OF _ c(1)] l by (simp add: lis_inv_def queues_ok_def)
    then show ?thesis using c(2) l by (auto simp: lis_inv_def table_ok_def pc_ok_def queues_ok_def)
  qed
next
  case (SrvAccept i d)
  have "event_ok (l_chAccepts l) 4096" "i < length (l_conns l)" "length d \<le> udpPacketSizeLimit"
    using l SrvAccept by (simp_all add: lis_inv_def queues_ok_def pc_ok_def)
  moreover from this(1) obtain b c where c: "try_send i (l_chAccepts l) = Inr (b, c)" "event_ok c 4096"
    "set (ch_items c) \<subseteq> insert i (set (ch_items (l_chAccepts l)))" using try_send_event by metis
  moreover have "m = Inr (l \<lparr> l_chAccepts := c, l_pc := SrvInput i d \<rparr>)"
    using e SrvAccept c(1) by (auto simp: server_step_def split: if_splits)
  ultimately show ?thesis using l by (auto simp: lis_inv_def table_ok_def pc_ok_def queues_ok_def)
next
  case (SrvInput i d)
  have i: "i < length (l_conns l)" "length d \<le> udpPacketSizeLimit" using l SrvInput by (simp_all add: lis_inv_def pc_ok_def)
  let ?x = "l_conns l ! i"
  have x: "sys_inv ?x" using l i by (simp add: lis_inv_def)
  then have "event_ok (c_chUdpInput (x_conn ?x)) rxQueueLimit" by (simp add: sys_inv_def conn_inv_def)
  then obtain b c where c: "try_send d (c_chUdpInput (x_conn ?x)) = Inr (b, c)" "event_ok c rxQueueLimit"
    "set (ch_items c) \<subseteq> insert d (x_udp ?x)" using try_send_event by metis
  have m: "m = Inr (l \<lparr> l_conns := (l_conns l)[i := with_udp c ?x], l_pc := SrvSelect \<rparr>)"
    using e SrvInput c(1) by (auto simp: server_step_def split: if_splits)
  have x': "sys_inv (with_udp c ?x)" using x c i by (auto simp: sys_inv_def conn_inv_def with_udp_def)
  have "table_ok (l \<lparr> l_conns := (l_conns l)[i := with_udp c ?x], l_chDeadConns := l_chDeadConns l, l_die := l_die l \<rparr>)"
    using l i by (intro table_ok_update) (auto simp: lis_inv_def addr_of_def with_udp_def)
  then have "table_ok (l \<lparr> l_conns := (l_conns l)[i := with_udp c ?x], l_pc := SrvSelect \<rparr>)" by (simp add: table_ok_def)
  then show ?thesis using m l x' by (auto simp: lis_inv_def pc_ok_def queues_ok_def dest!: set_update_subset_insert [THEN subsetD])
qed (use e in \<open>simp add: server_step_def\<close>)

lemma report_dead_inv:
  assumes l: "lis_inv l" and i: "i < length (l_conns l)" and e: "report_dead i u l = Some m"
  shows "\<exists>l'. m = Inr l' \<and> lis_inv l'"
proof -
  let ?x = "l_conns l ! i"
  obtain r s where f: "run_finish (x_run ?x) (x_conn ?x) = (r, s)" by (cases "run_finish (x_run ?x) (x_conn ?x)")
  define x where "x = (with_conn s ?x) \<lparr> x_run := r \<rparr>"
  have inv: "conn_inv (x_conn ?x)" using l i by (simp add: lis_inv_def sys_inv_def)
  have x: "sys_inv x" "addr_of x = addr_of ?x"
    using conn_run_inv [OF run_finish_run [OF inv f]] f by (auto simp: x_def sys_inv_def addr_of_def run_finish_def Let_def)
  have fin: "r_pc (x_run ?x) = Finishing" using e by (auto simp: report_dead_def Let_def split: if_splits)
  have new: "lis_inv (l \<lparr> l_conns := (l_conns l)[i := x], l_chDeadConns := c, l_die := l_die l \<rparr>)"
    if "event_ok c 4096" "set (ch_items c) \<subseteq> insert i (set (ch_items (l_chDeadConns l)))"
      "set (ch_items (l_chDeadConns l)) \<subseteq> set (ch_items c)" "i \<in> set (ch_items c) \<or> ch_closed (l_die l)" for c
  proof -
    have "table_ok (l \<lparr> l_conns := (l_conns l)[i := x], l_chDeadConns := c, l_die := l_die l \<rparr>)"
      using l i x that by (intro table_ok_update) (auto simp: lis_inv_def)
    then show ?thesis using l i x that
      by (auto simp: lis_inv_def pc_ok_def queues_ok_def dest!: set_update_subset_insert [THEN subsetD])
  qed
  show ?thesis
  proof (cases u)
    case True
    then obtain v c where c: "try_recv (l_die l) = Some (v, c)" "m = Inr (l \<lparr> l_conns := (l_conns l)[i := x], l_die := c \<rparr>)"
      using e fin f by (auto simp: report_dead_def Let_def x_def)
    have "c = l_die l" "ch_closed (l_die l)" using die_recv [OF _ c(1)] l by (auto simp: lis_inv_def queues_ok_def)
    then show ?thesis using new [of "l_chDeadConns l"] c(2) l by (auto simp: lis_inv_def queues_ok_def)
  next
    case False
    have "event_ok (l_chDeadConns l) 4096" using l by (simp add: lis_inv_def queues_ok_def)
    then obtain b c where c: "try_send i (l_chDeadConns l) = Inr (b, c)" "event_ok c 4096"
      "set (ch_items c) \<subseteq> insert i (set (ch_items (l_chDeadConns l)))" using try_send_event by metis
    then have b: "b" "m = Inr (l \<lparr> l_conns := (l_conns l)[i := x], l_chDeadConns := c \<rparr>)"
      using e fin f False by (auto simp: report_dead_def Let_def x_def split: if_splits)
    then have "ch_items c = ch_items (l_chDeadConns l) @ [i]" using c(1) by (auto simp: try_send_def split: if_splits)
    then show ?thesis using new [of c] c b(2) by auto
  qed
qed

lemma lis_inv_deadline: "lis_inv l \<Longrightarrow> lis_inv (l \<lparr> l_rd := t \<rparr>)" "lis_inv l \<Longrightarrow> lis_inv (l \<lparr> l_wd := t \<rparr>)"
  by (simp_all add: lis_inv_def table_ok_def pc_ok_def queues_ok_def)

lemma lis_exec_inv:
  assumes l: "lis_inv l" and ok: "lis_op_ok op l" and e: "lis_exec wt op l = Some (Inr l')"
  shows "lis_inv l'"
proof (cases op)
  case (LRecv r)
  then show ?thesis using e ok l
    by (cases r) (auto simp: listener_recv_def try_send_def close_chan_def bind_res_eq_Inr lis_inv_def table_ok_def pc_ok_def queues_ok_def
        split: if_splits)
next
  case (LServer ev)
  then show ?thesis using e server_step_inv [OF l] by fastforce
next
  case (LAccept ev)
  show ?thesis
  proof (cases ev)
    case AccConn
    then obtain i c where c: "try_recv (l_chAccepts l) = Some (Some i, c)" "l' = l \<lparr> l_chAccepts := c \<rparr>"
      using e LAccept by (auto split: option.splits)
    have "event_ok (l_chAccepts l) 4096" using l by (simp add: lis_inv_def queues_ok_def)
    from event_recv [OF this c(1)] show ?thesis using l c(2) by (auto simp: lis_inv_def table_ok_def pc_ok_def queues_ok_def)
  next
    case AccDie
    then obtain v c where c: "try_recv (l_die l) = Some (v, c)" "l' = l \<lparr> l_die := c \<rparr>" using e LAccept by auto
    have "c = l_die l" using die_recv [OF _ c(1)] l by (simp add: lis_inv_def queues_ok_def)
    then show ?thesis using c(2) l by simp
  qed (use e LAccept l in \<open>auto split: if_splits\<close>)
next
  case LClose
  then show ?thesis using e l
    by (auto simp: Listener_Close_def close_chan_def bind_res_eq_Inr lis_inv_def table_ok_def pc_ok_def queues_ok_def split: if_splits)
next
  case (LConn i cop)
  then obtain x where i: "i < length (l_conns l)" "\<not> finishes cop (l_conns l ! i)" "conn_exec (wt i) cop (l_conns l ! i) = Some (Inr x)"
    "l' = l \<lparr> l_conns := (l_conns l)[i := x] \<rparr>" using e by (auto simp: bind_res_eq_Inr split: if_splits)
  have "sys_inv (l_conns l ! i)" using l i(1) by (simp add: lis_inv_def)
  then have x: "sys_inv x" using conn_exec_refines [OF _ _ i(3)] ok LConn by (simp add: sys_inv_def refines_def)
  note a = conn_exec_addr [OF i(3)]
  have "table_ok (l \<lparr> l_conns := (l_conns l)[i := x], l_chDeadConns := l_chDeadConns l, l_die := l_die l \<rparr>)"
    using l i(1,2) a by (intro table_ok_update) (auto simp: lis_inv_def)
  then show ?thesis using l x i(4)
    by (auto simp: lis_inv_def pc_ok_def queues_ok_def dest!: set_update_subset_insert [THEN subsetD])
next
  case (LFinish i u)
  then show ?thesis using e report_dead_inv [OF l, of i u] by (auto split: if_splits)
qed (use e l in \<open>auto simp: Listener_SetDeadline_def Listener_SetReadDeadline_def Listener_SetWriteDeadline_def lis_inv_deadline\<close>)

interpretation lis: invariant_system "\<lambda>l. l = ServeConn" "lis_step wt" lis_inv for wt
proof
  show "lis_inv l" if "l = ServeConn" for l using that ServeConn_inv by simp
  show "lis_inv l'" if "lis_inv l" "lis_step wt l l'" for l l'
    using that(2,1) by cases (rule lis_exec_inv)
qed

end
