(* ===== verification/Conn_Demo.thy ===== *)
theory Conn_Demo
  imports Conn_Wakeup Kcp_Listener
begin

text \<open>
  A concrete run of a server's connection, evaluated: a reader blocks, the peer's handshake and one
  byte arrive in one datagram, and the writer's bytes are accepted. It shows that the hypotheses of
  the properties about reachable connections can hold. Likewise for a blocked writer, a connection
  that its peer closes before the handshake, and a listener.
\<close>

fun safe_run :: "link \<Rightarrow> conn_op list \<Rightarrow> csys \<Rightarrow> csys option" where
  "safe_run wt [] x = Some x"
| "safe_run wt (op # ops) x =
     (if safe_op op x then (case conn_exec wt op x of Some (Inr x') \<Rightarrow> safe_run wt ops x' | _ \<Rightarrow> None) else None)"

lemma safe_run_reachable:
  "reachable sys_init (safe_step wt) x \<Longrightarrow> safe_run wt ops x = Some x' \<Longrightarrow> reachable sys_init (safe_step wt) x'"
proof (induction ops arbitrary: x)
  case (Cons op ops)
  then obtain x1 where x1: "safe_op op x" "conn_exec wt op x = Some (Inr x1)" "safe_run wt ops x1 = Some x'"
    by (auto split: if_splits option.splits sum.splits)
  from reach_step [OF Cons.prems(1) safe_step.intros [OF x1(1,2)]] Cons.IH x1(3) show ?case by blast
qed simp

lemma pair_reachable:
  assumes "reachable sys_init (conn_step wt) x" "sys_init y"
  shows "reachable pair_init (pair_step wt wtb) \<lparr> p_a = x, p_b = y \<rparr>"
  using assms(1)
proof (induction rule: reachable.induct)
  case (reach_init x)
  then show ?case using assms(2) by (intro reachable.reach_init) (simp add: pair_init_def)
next
  case (reach_step x x')
  from reach_step.hyps(2) have "pair_step wt wtb \<lparr> p_a = x, p_b = y \<rparr> (\<lparr> p_a = x, p_b = y \<rparr> \<lparr> p_a := x' \<rparr>)"
  proof cases
    case (1 op)
    then show ?thesis using pair_step.first [of op "\<lparr> p_a = x, p_b = y \<rparr>" wt x' wtb] by simp
  qed
  from reachable.reach_step [OF reach_step.IH this] show ?case by simp
qed

text \<open>\<open>CONNECT\<close> with sequence number 0, and a \<open>PUSH\<close> of one byte with sequence number 1.\<close>

definition hello :: bytes where
  "hello = [7, 0, 0, 0, 80, 0, 128, 0, 0, 0, 0, 0, 0, 0, 0, 0, 0, 0, 0, 0, 0, 0, 0, 0,
            7, 0, 0, 0, 81, 0, 128, 0, 0, 0, 0, 0, 1, 0, 0, 0, 0, 0, 0, 0, 1, 0, 0, 0, 5]"

text \<open>A lone \<open>CONNECT\<close>.\<close>

definition handshake :: bytes where
  "handshake = [7, 0, 0, 0, 80, 0, 128, 0, 0, 0, 0, 0, 0, 0, 0, 0, 0, 0, 0, 0, 0, 0, 0, 0]"

definition link_up :: link where
  "link_up = (\<lambda>i p. True)"

definition demo_ops :: "conn_op list" where
  "demo_ops = [CReadCall [0], CReadRound 0 0, CUdp (RecvOk hello) False, CRun 0 0 EvUdp, CRun 0 0 EvUdp,
               CWriteCall [1, 2, 3], CWriteRound 0]"

lemma demo_conn_run:
  "map_option (\<lambda>x. (x_written x, x_read x, x_used x, x_reader x, fst (recvSize (x_kcp x)))) (safe_run link_up demo_ops (server_conn 7 ''peer''))
   = Some ([1, 2, 3], [], 1, RBlocked [0] None, 1)"
  by code_simp

lemma demo_conn:
  "\<exists>x. reachable sys_init (safe_step link_up) x \<and> x_written x = [1, 2, 3] \<and> x_used x = 1 \<and> x_reader x = RBlocked [0] None \<and>
     readable (x_conn x)"
proof -
  obtain x where x: "safe_run link_up demo_ops (server_conn 7 ''peer'') = Some x"
    "(x_written x, x_read x, x_used x, x_reader x, fst (recvSize (x_kcp x))) = ([1, 2, 3], [], 1, RBlocked [0] None, 1)"
    using demo_conn_run unfolding map_option_eq_Some by blast
  have "reachable sys_init (safe_step link_up) (server_conn 7 ''peer'')" by (rule reach_init) (auto simp: sys_init_def)
  from safe_run_reachable [OF this x(1)] x(2) show ?thesis by (intro exI [of _ x]) (simp add: readable_def)
qed

text \<open>Runs that may panic; a lone \<open>PUSH\<close> with sequence number 0.\<close>

fun conn_runs :: "link \<Rightarrow> conn_op list \<Rightarrow> csys \<Rightarrow> csys res option" where
  "conn_runs wt [] x = Some (Inr x)"
| "conn_runs wt (op # ops) x =
     (case conn_exec wt op x of
        Some (Inr x') \<Rightarrow> conn_runs wt ops x'
      | r \<Rightarrow> r)"

definition lone_push :: bytes where
  "lone_push = [7, 0, 0, 0, 81, 0, 128, 0, 0, 0, 0, 0, 0, 0, 0, 0, 0, 0, 0, 0, 0, 0, 0, 0]"

lemma conn_runs_reachable:
  "reachable sys_init (conn_step wt) x \<Longrightarrow> (\<forall>y. list_all (\<lambda>op. conn_op_ok op y) ops) \<Longrightarrow> conn_runs wt ops x = Some (Inr x') \<Longrightarrow>
   reachable sys_init (conn_step wt) x'"
proof (induction ops arbitrary: x)
  case (Cons op ops)
  then obtain x1 where x1: "conn_op_ok op x" "conn_exec wt op x = Some (Inr x1)" "conn_runs wt ops x1 = Some (Inr x')"
    by (auto split: option.splits sum.splits)
  from reach_step [OF Cons.prems(1) conn_step.intros [OF x1(1,2)]] Cons.IH Cons.prems(2) x1(3) show ?case by simp
qed simp

text \<open>A server's connection after that packet: closed by the peer and not connected.\<close>

definition lone_ops :: "conn_op list" where
  "lone_ops = [CUdp (RecvOk lone_push) False, CRun 0 0 EvUdp, CRun 0 0 EvUdp]"

lemma demo_lone_run:
  "map_option (\<lambda>r. case r of Inr x \<Rightarrow> (x_reader x, isStateRemoteClosed (x_kcp x), isStateConnected (x_kcp x), isStateLocalClosed (x_kcp x),
       ch_closed (c_die (x_conn x)), contents (c_bufRead (x_conn x)), fst (recvSize (x_kcp x)), c_deadlineRead (x_conn x))
     | Inl e \<Rightarrow> (RIdle, False, True, True, True, [], 1, None)) (conn_runs link_up lone_ops (server_conn 7 ''peer''))
   = Some (RIdle, True, False, False, False, [], 0, None)"
  by code_simp

lemma demo_lone:
  "\<exists>x. conn_runs link_up lone_ops (server_conn 7 ''peer'') = Some (Inr x) \<and> reachable sys_init (conn_step link_up) x \<and>
     x_reader x = RIdle \<and> isStateRemoteClosed (c_kcp (x_conn x)) \<and> \<not> isStateConnected (c_kcp (x_conn x)) \<and>
     \<not> isStateLocalClosed (c_kcp (x_conn x)) \<and> \<not> ch_closed (c_die (x_conn x)) \<and> contents (c_bufRead (x_conn x)) = [] \<and>
     fst (recvSize (c_kcp (x_conn x))) \<le> 0 \<and> c_deadlineRead (x_conn x) = None"
proof -
  obtain x where x: "conn_runs link_up lone_ops (server_conn 7 ''peer'') = Some (Inr x)"
    "(x_reader x, isStateRemoteClosed (x_kcp x), isStateConnected (x_kcp x), isStateLocalClosed (x_kcp x),
       ch_closed (c_die (x_conn x)), contents (c_bufRead (x_conn x)), fst (recvSize (x_kcp x)), c_deadlineRead (x_conn x))
     = (RIdle, True, False, False, False, [], 0, None)"
    using demo_lone_run unfolding map_option_eq_Some by (elim exE conjE) (simp split: sum.splits)
  have i: "reachable sys_init (conn_step link_up) (server_conn 7 ''peer'')" by (rule reach_init) (auto simp: sys_init_def)
  have "\<forall>y. list_all (\<lambda>op. conn_op_ok op y) lone_ops" by (simp add: udpPacketSizeLimit_def lone_ops_def lone_push_def)
  from conn_runs_reachable [OF i this x(1)] x show ?thesis by (intro exI [of _ x]) simp
qed

text \<open>
  The handshake and the peer's end-of-stream mark in one datagram. With a send window of 1, which
  the answer to the handshake fills, a writer blocks and uses up the write event.
\<close>

definition hello_bye :: bytes where
  "hello_bye = [7, 0, 0, 0, 80, 0, 128, 0, 0, 0, 0, 0, 0, 0, 0, 0, 0, 0, 0, 0, 0, 0, 0, 0,
                7, 0, 0, 0, 81, 0, 128, 0, 0, 0, 0, 0, 1, 0, 0, 0, 0, 0, 0, 0, 0, 0, 0, 0]"

definition writer_ops :: "conn_op list" where
  "writer_ops = [CSetWindowSize 1 128, CUdp (RecvOk hello_bye) False, CRun 0 0 EvUdp, CRun 0 0 EvUdp,
                 CWriteCall [1], CWriteRound 0, CWriteWake WakeEvent, CWriteRound 0]"

lemma demo_writer_run:
  "map_option (\<lambda>x. (r_pc (x_run x), x_writer x, isStateRemoteClosed (x_kcp x), isStateConnected (x_kcp x), ch_closed (c_die (x_conn x)),
       ch_items (c_chWriteEvent (x_conn x)), ch_items (c_chUdpInput (x_conn x)))) (safe_run link_up writer_ops (server_conn 7 ''peer''))
   = Some (MainHead, WBlocked [1] None, True, True, False, [], [])"
  by code_simp

lemma demo_writer:
  "\<exists>x. reachable sys_init (safe_step link_up) x \<and> r_pc (x_run x) = MainHead \<and> x_writer x = WBlocked [1] None \<and>
     isStateRemoteClosed (c_kcp (x_conn x)) \<and> isStateConnected (c_kcp (x_conn x)) \<and> \<not> ch_closed (c_die (x_conn x)) \<and>
     ch_items (c_chWriteEvent (x_conn x)) = [] \<and> ch_items (c_chUdpInput (x_conn x)) = []"
proof -
  obtain x where x: "safe_run link_up writer_ops (server_conn 7 ''peer'') = Some x"
    "(r_pc (x_run x), x_writer x, isStateRemoteClosed (x_kcp x), isStateConnected (x_kcp x), ch_closed (c_die (x_conn x)),
       ch_items (c_chWriteEvent (x_conn x)), ch_items (c_chUdpInput (x_conn x))) = (MainHead, WBlocked [1] None, True, True, False, [], [])"
    using demo_writer_run unfolding map_option_eq_Some by blast
  have "reachable sys_init (safe_step link_up) (server_conn 7 ''peer'')" by (rule reach_init) (auto simp: sys_init_def)
  from safe_run_reachable [OF this x(1)] x(2) show ?thesis by (intro exI [of _ x]) simp
qed


text \<open>Runs of a listener.\<close>

fun lis_run :: "(nat \<Rightarrow> link) \<Rightarrow> lis_op list \<Rightarrow> Listener \<Rightarrow> Listener option" where
  "lis_run wt [] l = Some l"
| "lis_run wt (op # ops) l =
     (if lis_op_ok op l then (case lis_exec wt op l of Some (Inr l') \<Rightarrow> lis_run wt ops l' | _ \<Rightarrow> None) else None)"

lemma lis_run_reachable:
  "reachable (\<lambda>l. l = ServeConn) (lis_step wt) l \<Longrightarrow> lis_run wt ops l = Some l' \<Longrightarrow> reachable (\<lambda>l. l = ServeConn) (lis_step wt) l'"
proof (induction ops arbitrary: l)
  case (Cons op ops)
  then obtain l1 where l1: "lis_op_ok op l" "lis_exec wt op l = Some (Inr l1)" "lis_run wt ops l1 = Some l'"
    by (auto split: if_splits option.splits sum.splits)
  from reach_step [OF Cons.prems(1) lis_step.intros [OF l1(1,2)]] Cons.IH l1(3) show ?case by blast
qed simp

text \<open>A packet from a new address opens a session and is queued for it.\<close>

lemma demo_listener_run:
  "map_option (\<lambda>l. (l_sessions l ''p'', length (l_conns l), ch_items (l_chAccepts l)))
     (lis_run (\<lambda>_. link_up) [LRecv (Some (''p'', hello)), LServer SrvPacket, LServer SrvPacket, LServer SrvPacket] ServeConn)
   = Some (Some 0, 1, [0])"
  by code_simp

lemma demo_listener:
  "\<exists>l. reachable (\<lambda>l. l = ServeConn) (lis_step (\<lambda>_. link_up)) l \<and> l_sessions l ''p'' = Some 0"
proof -
  obtain l where l: "lis_run (\<lambda>_. link_up) [LRecv (Some (''p'', hello)), LServer SrvPacket, LServer SrvPacket, LServer SrvPacket] ServeConn = Some l"
    "(l_sessions l ''p'', length (l_conns l), ch_items (l_chAccepts l)) = (Some 0, 1, [0])"
    using demo_listener_run unfolding map_option_eq_Some by blast
  have "reachable (\<lambda>l. l = ServeConn) (lis_step (\<lambda>_. link_up)) ServeConn" by (rule reach_init) simp
  from lis_run_reachable [OF this l(1)] l(2) show ?thesis by blast
qed

end
