(* ===== verification/Kcp_Dial.thy ===== *)
theory Kcp_Dial
  imports Conn_Demo
begin

text \<open>
  \<open>DialTimeout\<close> and \<open>Listen\<close> of \<open>go/kcp/kcpconn.go\<close>. \<open>DialTimeout\<close> starts a goroutine that resolves
  the address, opens a socket, makes a connection, waits for the handshake and hands the connection
  over on an unbuffered channel; the caller waits for it or for its timer. The state holds both and
  the connection with its own goroutines; an event carries what the resolver, the socket and the
  random number generator returned.
\<close>

section \<open>Dialing\<close>

datatype dial_err = NetError string | DialTimedOut

text \<open>Where the goroutine is: before each call, waiting in \<open>connect\<close>, or sending (a connection or nil).\<close>

datatype dial_pc = DialResolve | DialSocket string | DialConnect | DialWait | DialSend bool | DialEnd

record dial =
  d_timeout :: int
  d_pc :: dial_pc
  d_err :: "string option"                            \<comment> \<open>the variable \<open>err\<close> the two share\<close>
  d_sys :: "csys option"                              \<comment> \<open>the connection, once it is made\<close>
  d_ret :: "(bool \<times> dial_err option) option"          \<comment> \<open>what the caller got: a connection or nil, and the error\<close>

definition dial0 :: "int \<Rightarrow> dial" where
  "dial0 timeout = \<lparr> d_timeout = timeout, d_pc = DialResolve, d_err = None, d_sys = None, d_ret = None \<rparr>"

datatype dial_op =
    DResolved "string + string"
  | DSocket "string option" u32
  | DHandshake int
  | DConnected
  | DHandOver
  | DDeadline
  | DConn conn_op

text \<open>The steps of the connection's own goroutines; its users call the rest.\<close>

fun own_op :: "conn_op \<Rightarrow> bool" where
  "own_op (CUdp r u) \<longleftrightarrow> True"
| "own_op (CRun now1 now2 ev) \<longleftrightarrow> True"
| "own_op _ \<longleftrightarrow> False"

fun connect_op :: "conn_op \<Rightarrow> bool" where
  "connect_op (CConnect now) \<longleftrightarrow> True"
| "connect_op CConnectWait \<longleftrightarrow> True"
| "connect_op _ \<longleftrightarrow> False"

text \<open>Whether the caller has a connection.\<close>

fun has_conn :: "dial \<Rightarrow> bool" where
  "has_conn d \<longleftrightarrow> (case d_ret d of Some (True, e) \<Rightarrow> True | _ \<Rightarrow> False)"

definition dial_conn :: "link \<Rightarrow> conn_op \<Rightarrow> dial_pc \<Rightarrow> dial \<Rightarrow> dial res option" where
  "dial_conn wt op pc d =
     (case d_sys d of
        None \<Rightarrow> None
      | Some x \<Rightarrow> map_option (\<lambda>m. bind_res m (\<lambda>x. Inr (d \<lparr> d_sys := Some x, d_pc := pc \<rparr>))) (conn_exec wt op x))"

fun dial_exec :: "link \<Rightarrow> dial_op \<Rightarrow> dial \<Rightarrow> dial res option" where
  "dial_exec wt (DResolved r) d =
     (if d_pc d \<noteq> DialResolve then None
      else Some (Inr (case r of
             Inl e \<Rightarrow> d \<lparr> d_err := Some e, d_pc := DialSend False \<rparr>
           | Inr a \<Rightarrow> d \<lparr> d_err := None, d_pc := DialSocket a \<rparr>)))"
| "dial_exec wt (DSocket e cv) d =
     (case d_pc d of
        DialSocket a \<Rightarrow> Some (Inr (case e of
             Some e \<Rightarrow> d \<lparr> d_err := Some e, d_pc := DialSend False \<rparr>
           | None \<Rightarrow> d \<lparr> d_err := None, d_sys := Some (client_conn cv a), d_pc := DialConnect \<rparr>))
      | _ \<Rightarrow> None)"
| "dial_exec wt (DHandshake now) d = (if d_pc d = DialConnect then dial_conn wt (CConnect now) DialWait d else None)"
| "dial_exec wt DConnected d = (if d_pc d = DialWait then dial_conn wt CConnectWait (DialSend True) d else None)"
| "dial_exec wt DHandOver d =
     (case d_pc d of
        DialSend b \<Rightarrow> if d_ret d = None then Some (Inr (d \<lparr> d_pc := DialEnd, d_ret := Some (b, map_option NetError (d_err d)) \<rparr>)) else None
      | _ \<Rightarrow> None)"
| "dial_exec wt DDeadline d =
     (if d_timeout d \<noteq> 0 \<and> d_ret d = None then Some (Inr (d \<lparr> d_ret := Some (False, Some DialTimedOut) \<rparr>)) else None)"
| "dial_exec wt (DConn op) d =
     (if own_op op \<or> \<not> connect_op op \<and> has_conn d then dial_conn wt op (d_pc d) d else None)"

fun dial_op_ok :: "dial_op \<Rightarrow> dial \<Rightarrow> bool" where
  "dial_op_ok (DConn op) d \<longleftrightarrow> (case d_sys d of Some x \<Rightarrow> conn_op_ok op x | None \<Rightarrow> True)"
| "dial_op_ok _ d \<longleftrightarrow> True"

definition dial_init :: "dial \<Rightarrow> bool" where
  "dial_init d \<longleftrightarrow> (\<exists>timeout. d = dial0 timeout)"

inductive dial_step :: "link \<Rightarrow> dial \<Rightarrow> dial \<Rightarrow> bool" for wt where
  "dial_op_ok op d \<Longrightarrow> dial_exec wt op d = Some (Inr d') \<Longrightarrow> dial_step wt d d'"

text \<open>\<open>ConnectedUDPConn\<close>: the socket is connected, so \<open>WriteTo\<close> is its \<open>Write\<close> and the address is not used.\<close>

definition connected_WriteTo :: "(bytes \<Rightarrow> int \<times> conn_err option) \<Rightarrow> bytes \<Rightarrow> string \<Rightarrow> int \<times> conn_err option" where
  "connected_WriteTo write b addr = write b"

text \<open>\<open>Listen\<close>: what \<open>net.ResolveUDPAddr\<close> and then \<open>net.ListenUDP\<close> return are parameters.\<close>

definition Listen :: "(string \<Rightarrow> string + string) \<Rightarrow> (string \<Rightarrow> string option) \<Rightarrow> string \<Rightarrow> string + Listener" where
  "Listen resolve listenUDP laddr =
     (case resolve laddr of
        Inl e \<Rightarrow> Inl e
      | Inr udpaddr \<Rightarrow> (case listenUDP udpaddr of Some e \<Rightarrow> Inl e | None \<Rightarrow> Inr ServeConn))"

section \<open>The write event comes with the handshake\<close>

text \<open>\<open>CONNECTED\<close> is only cleared when \<open>LOCAL_CLOSED\<close> is set.\<close>

definition established :: "KCP \<Rightarrow> bool" where
  "established k \<longleftrightarrow> isStateConnected k \<or> isStateLocalClosed k"

lemma bits_established: "bits_step (state k) (state k') \<Longrightarrow> established k \<Longrightarrow> established k'"
  by (auto simp: bits_step_def established_def state_bits bit_simps const_defs)

lemma path_established: "kcp_path P k w g f k' \<Longrightarrow> kcp_inv k \<Longrightarrow> established k \<Longrightarrow> established k'"
proof (induction rule: kcp_path.induct)
  case (path_step w g f k1 op k2)
  show ?case
    using bits_established [OF exec_bits [OF path_inv [OF path_step.hyps(1)] path_step.hyps(4)]] path_step by blast
qed

lemma move_established:
  assumes "conn_inv (x_conn x)" "conn_op_ok op x" "conn_exec wt op x = Some (Inr x')" "established (x_kcp x)"
  shows "established (x_kcp x')"
  using conn_exec_refines [OF assms(1-3)] path_established conn_inv_sel(1) [OF assms(1)] assms(4) unfolding refines_def by blast

text \<open>A step of \<open>run\<close> that fills the write event leaves the connection established.\<close>

lemma run_established: "conn_run P f s w s' \<Longrightarrow> conn_inv s \<Longrightarrow> established (c_kcp s) \<Longrightarrow> established (c_kcp s')"
  using path_established conn_inv_sel(1) unfolding conn_run_def by blast

lemma notify_w_event: "notifyReadEvent s = Inr s' \<Longrightarrow> c_chWriteEvent s' = c_chWriteEvent s"
  "notifyWriteEvent s = Inr s' \<Longrightarrow> c_kcp s' = c_kcp s"
  by (auto simp: notifyReadEvent_def notifyWriteEvent_def bind_res_eq_Inr)

lemma kcp_call_w_event: "kcp_call wt f s = Inr s' \<Longrightarrow> c_chWriteEvent s' = c_chWriteEvent s"
  using kcp_call_w_frame by (auto simp: w_frame_def)

lemma input_greet_w_event:
  assumes inv: "conn_inv s" and g: "input_greet wt now c s = Inr s'"
  shows "c_chWriteEvent s' = c_chWriteEvent s \<or> established (c_kcp s')"
proof (cases "\<not> c \<and> isStateConnected (c_kcp s)")
  case True
  then show ?thesis using run_established [of "{}" 1 s "[]" s'] input_greet_run [OF inv, of wt now c "{}"] g inv
    by (auto simp: established_def)
qed (use g in \<open>auto simp: input_greet_def\<close>)

lemma doKcpInput_w_event:
  assumes inv: "conn_inv s" and d: "doKcpInput wt now1 now2 data s = Inr s'"
  shows "c_chWriteEvent s' = c_chWriteEvent s \<or> established (c_kcp s')"
proof -
  obtain r k s1 s2 where s: "input (currentTickMs now1) data True (c_kcp s) = Inr (r, k)"
    "input_greet wt now2 (isStateConnected (c_kcp s)) (s \<lparr> c_kcp := (if r \<noteq> 0 then count_err_input k else k) \<rparr>) = Inr s1"
    "input_notify s1 = Inr s2" "s' = s2 \<lparr> c_kcp := count_in (int (length data)) (c_kcp s2) \<rparr>"
    using d by (auto simp: doKcpInput_def Let_def bind_res_eq_Inr)
  have "kcp_inv k" using input_kcp_inv [OF conn_inv_sel(1) [OF inv] s(1)] .
  then have inv1: "conn_inv (s \<lparr> c_kcp := (if r \<noteq> 0 then count_err_input k else k) \<rparr>)"
    using inv path_inv [OF path_counters(6)] by (auto simp: conn_inv_kcp)
  have inv2: "conn_inv s1" using input_greet_run [OF inv1, of wt now2 "isStateConnected (c_kcp s)" "{}"] s(2) conn_run_inv by auto
  have "established (c_kcp s1) \<Longrightarrow> established (c_kcp s2)"
    using input_notify_run [OF inv2, of "{}"] s(3) run_established [OF _ inv2] by fastforce
  moreover have "c_chWriteEvent s2 = c_chWriteEvent s1"
    using s(3) by (auto simp: input_notify_def case_prod_unfold Let_def dest: notify_w_event split: if_splits)
  moreover have "established (count_in n q) = established q" for n q by (simp add: established_def count_in_def state_bits)
  ultimately show ?thesis using input_greet_w_event [OF inv1 s(2)] s(4) by auto
qed

lemma run_leave_w_event: "run_leave wt now1 now2 r s = Inr (r', s') \<Longrightarrow> c_chWriteEvent s' = c_chWriteEvent s"
  by (auto simp: run_leave_def Let_def bind_res_eq_Inr dest: kcp_call_w_event split: if_splits)

lemma run_head_w_event:
  "run_head wt now1 now2 r s = Inr (r', s') \<Longrightarrow> c_chWriteEvent s' = c_chWriteEvent s \<or> established (c_kcp s')"
  by (auto simp: run_head_def Let_def bind_res_eq_Inr canKcpSendInternal_def established_def
      dest!: kcp_call_w_event run_leave_w_event notify_w_event(2) split: if_splits)

lemma run_step_w_event:
  assumes inv: "conn_inv s" and r: "run_step wt now1 now2 ev r s = Some (Inr (r', s'))"
  shows "c_chWriteEvent s' = c_chWriteEvent s \<or> established (c_kcp s')"
proof -
  have udp: "c_chWriteEvent q = c_chWriteEvent s \<or> established (c_kcp q)"
    if "try_recv (c_chUdpInput s) = Some (v, c)" "doKcpInput wt now1 now2 (the_data v) (s \<lparr> c_chUdpInput := c \<rparr>) = Inr q" for v c q
  proof -
    have ev: "event_ok (c_chUdpInput s) rxQueueLimit" using inv by (simp add: conn_inv_def)
    have "conn_inv (s \<lparr> c_chUdpInput := c \<rparr>)"
      using event_recv(1,4) [OF ev that(1)] inv by (auto simp: conn_inv_def)
    then show ?thesis using doKcpInput_w_event [OF _ that(2)] by simp
  qed
  show ?thesis
  proof (cases "r_pc r")
    case MainHead
    then show ?thesis using r run_head_w_event by (fastforce simp: run_step_def)
  next
    case MainSelect
    then show ?thesis using r udp
      by (cases ev) (fastforce simp: run_step_def bind_res_eq_Inr dest: run_leave_w_event)+
  next
    case CloseHead
    then show ?thesis using r kcp_call_w_event by (fastforce simp: run_step_def run_close_head_def bind_res_eq_Inr Let_def)
  next
    case CloseSelect
    then show ?thesis using r udp by (cases ev) (fastforce simp: run_step_def bind_res_eq_Inr)+
  qed (use r in \<open>auto simp: run_step_def run_finish_def Let_def\<close>)
qed

definition early_ok :: "csys \<Rightarrow> bool" where
  "early_ok x \<longleftrightarrow> ch_items (c_chWriteEvent (x_conn x)) = [] \<or> established (x_kcp x)"

lemma own_op_early:
  assumes inv: "conn_inv (x_conn x)" and ok: "conn_op_ok op x" and e: "conn_exec wt op x = Some (Inr x')"
    and early: "early_ok x" and op: "own_op op \<or> op = CConnect now"
  shows "early_ok x'"
proof -
  have "c_chWriteEvent (x_conn x') = c_chWriteEvent (x_conn x) \<or> established (x_kcp x')"
  proof (cases op)
    case (CUdp r u)
    then show ?thesis using e
      by (cases r) (auto simp: client_recv_def bind_res_eq_Inr split: if_splits sum.splits)
  next
    case (CRun now1 now2 ev)
    then obtain r s where "run_step wt now1 now2 ev (x_run x) (x_conn x) = Some (Inr (r, s))" "x' = (with_conn s x) \<lparr> x_run := r \<rparr>"
      using e by (auto simp: bind_res_eq_Inr)
    then show ?thesis using run_step_w_event [OF inv] by simp
  next
    case (CConnect now)
    then show ?thesis using e kcp_call_w_event by (auto simp: connect_flush_def bind_res_eq_Inr split: if_splits)
  qed (use op in simp_all)
  then show ?thesis using early move_established [OF inv ok e] by (auto simp: early_ok_def)
qed

section \<open>What the caller gets\<close>

fun dial_pc_ok :: "dial_pc \<Rightarrow> dial \<Rightarrow> bool" where
  "dial_pc_ok DialResolve d \<longleftrightarrow> d_sys d = None"
| "dial_pc_ok (DialSocket a) d \<longleftrightarrow> d_sys d = None"
| "dial_pc_ok DialConnect d \<longleftrightarrow> d_err d = None \<and> (\<exists>x. d_sys d = Some x \<and> early_ok x)"
| "dial_pc_ok DialWait d \<longleftrightarrow> d_err d = None \<and> (\<exists>x. d_sys d = Some x \<and> early_ok x)"
| "dial_pc_ok (DialSend True) d \<longleftrightarrow> d_err d = None \<and> (\<exists>x. d_sys d = Some x \<and> established (x_kcp x))"
| "dial_pc_ok (DialSend False) d \<longleftrightarrow> d_err d \<noteq> None \<and> d_sys d = None"
| "dial_pc_ok DialEnd d \<longleftrightarrow> d_ret d \<noteq> None"

definition dial_ret_ok :: "dial \<Rightarrow> bool" where
  "dial_ret_ok d \<longleftrightarrow> d_ret d = None \<or>
     d_ret d = Some (True, None) \<and> d_pc d = DialEnd \<and> (\<exists>x. d_sys d = Some x \<and> established (x_kcp x)) \<or>
     d_ret d = Some (False, Some DialTimedOut) \<and> d_timeout d \<noteq> 0 \<and> d_pc d \<noteq> DialEnd \<or>
     (\<exists>e. d_ret d = Some (False, Some (NetError e)) \<and> d_pc d = DialEnd \<and> d_sys d = None)"

definition dial_inv :: "link \<Rightarrow> dial \<Rightarrow> bool" where
  "dial_inv wt d \<longleftrightarrow> (\<forall>x. d_sys d = Some x \<longrightarrow> reachable sys_init (conn_step wt) x) \<and> dial_pc_ok (d_pc d) d \<and> dial_ret_ok d"

lemma dial_conn_step:
  assumes inv: "dial_inv wt d" and ok: "\<forall>x. d_sys d = Some x \<longrightarrow> conn_op_ok op x" and e: "dial_conn wt op pc d = Some (Inr d')"
  shows "\<exists>x x'. d_sys d = Some x \<and> conn_inv (x_conn x) \<and> conn_op_ok op x \<and> conn_exec wt op x = Some (Inr x') \<and>
    d' = d \<lparr> d_sys := Some x', d_pc := pc \<rparr> \<and> reachable sys_init (conn_step wt) x' \<and> (established (x_kcp x) \<longrightarrow> established (x_kcp x'))"
proof -
  obtain x x' where x: "d_sys d = Some x" "conn_exec wt op x = Some (Inr x')" "d' = d \<lparr> d_sys := Some x', d_pc := pc \<rparr>"
    using e by (auto simp: dial_conn_def bind_res_eq_Inr split: option.splits)
  have r: "reachable sys_init (conn_step wt) x" using inv x(1) by (simp add: dial_inv_def)
  have i: "conn_inv (x_conn x)" using conn.reachable_inv [OF r] by (simp add: sys_inv_def)
  have k: "conn_op_ok op x" using ok x(1) by simp
  show ?thesis using x i k reach_step [OF r conn_step.intros [OF k x(2)]] move_established [OF i k x(2)] by blast
qed

lemma dial_step_inv:
  assumes inv: "dial_inv wt d" and ok: "dial_op_ok op d" and e: "dial_exec wt op d = Some (Inr d')"
  shows "dial_inv wt d'"
proof (cases op)
  case (DResolved r)
  then show ?thesis using inv e by (cases r) (auto simp: dial_inv_def dial_ret_ok_def split: if_splits)
next
  case (DSocket r cv)
  then obtain a where a: "d_pc d = DialSocket a" using e by (auto split: dial_pc.splits)
  have i: "sys_init (client_conn cv a)" by (auto simp: sys_init_def)
  have "early_ok (client_conn cv a)"
    by (simp add: early_ok_def client_conn_def csys0_def run_start_def connect_open_def newKCPConn_def Let_def make_chan_def)
  then show ?thesis using inv e DSocket a reach_init [of sys_init, OF i] by (cases r) (auto simp: dial_inv_def dial_ret_ok_def)
next
  case (DHandshake now)
  then have pc: "d_pc d = DialConnect" and c: "dial_conn wt (CConnect now) DialWait d = Some (Inr d')" using e by (auto split: if_splits)
  obtain x x' where x: "d_sys d = Some x" "conn_inv (x_conn x)" "conn_op_ok (CConnect now) x" "conn_exec wt (CConnect now) x = Some (Inr x')"
    "d' = d \<lparr> d_sys := Some x', d_pc := DialWait \<rparr>" "reachable sys_init (conn_step wt) x'"
    using dial_conn_step [OF inv _ c] by auto
  have "early_ok x'" using own_op_early [OF x(2-4)] inv pc x(1) by (auto simp: dial_inv_def)
  then show ?thesis using inv x pc by (auto simp: dial_inv_def dial_ret_ok_def)
next
  case DConnected
  then have pc: "d_pc d = DialWait" and c: "dial_conn wt CConnectWait (DialSend True) d = Some (Inr d')" using e by (auto split: if_splits)
  obtain x x' where x: "d_sys d = Some x" "conn_inv (x_conn x)" "conn_exec wt CConnectWait x = Some (Inr x')"
    "d' = d \<lparr> d_sys := Some x', d_pc := DialSend True \<rparr>" "reachable sys_init (conn_step wt) x'" "established (x_kcp x) \<longrightarrow> established (x_kcp x')"
    using dial_conn_step [OF inv _ c] by auto
  have "ch_items (c_chWriteEvent (x_conn x)) \<noteq> []"
    using x(2,3) by (auto simp: connect_wait_def try_recv_def conn_inv_def event_ok_def split: if_splits list.splits)
  then have "established (x_kcp x)" using inv pc x(1) by (auto simp: dial_inv_def early_ok_def)
  then show ?thesis using inv x pc by (auto simp: dial_inv_def dial_ret_ok_def)
next
  case DHandOver
  then obtain b where "d_pc d = DialSend b" "d_ret d = None" "d' = d \<lparr> d_pc := DialEnd, d_ret := Some (b, map_option NetError (d_err d)) \<rparr>"
    using e by (auto split: dial_pc.splits if_splits)
  then show ?thesis using inv by (cases b) (auto simp: dial_inv_def dial_ret_ok_def)
next
  case DDeadline
  then have d': "d_timeout d \<noteq> 0" "d_ret d = None" "d' = d \<lparr> d_ret := Some (False, Some DialTimedOut) \<rparr>" using e by (auto split: if_splits)
  have "dial_pc_ok (d_pc d) d' = dial_pc_ok (d_pc d) d \<or> d_pc d = DialEnd"
    using d'(3) by (cases "(d_pc d, d)" rule: dial_pc_ok.cases) simp_all
  then show ?thesis using inv d' by (auto simp: dial_inv_def dial_ret_ok_def)
next
  case (DConn cop)
  then have c: "dial_conn wt cop (d_pc d) d = Some (Inr d')" and u: "own_op cop \<or> (\<exists>e. d_ret d = Some (True, e))" using e by (auto split: if_splits option.splits bool.splits)
  obtain x x' where x: "d_sys d = Some x" "conn_inv (x_conn x)" "conn_op_ok cop x" "conn_exec wt cop x = Some (Inr x')"
    "d' = d \<lparr> d_sys := Some x', d_pc := d_pc d \<rparr>" "reachable sys_init (conn_step wt) x'" "established (x_kcp x) \<longrightarrow> established (x_kcp x')"
    using dial_conn_step [OF inv _ c] ok DConn by (auto split: option.splits)
  have "early_ok x'" if "early_ok x" "d_pc d \<noteq> DialEnd"
  proof -
    have "own_op cop" using u that(2) inv by (auto simp: dial_inv_def dial_ret_ok_def)
    then show ?thesis using own_op_early [OF x(2-4) that(1)] by blast
  qed
  then have "dial_pc_ok (d_pc d) d'"
    using inv x(1,5,7) by (cases "(d_pc d, d)" rule: dial_pc_ok.cases) (auto simp: dial_inv_def)
  then show ?thesis using inv x by (auto simp: dial_inv_def dial_ret_ok_def)
qed

interpretation dial: invariant_system dial_init "dial_step wt" "dial_inv wt" for wt
proof
  show "dial_inv wt d" if "dial_init d" for d
    using that by (auto simp: dial_init_def dial0_def dial_inv_def dial_ret_ok_def)
  show "dial_inv wt d'" if "dial_inv wt d" "dial_step wt d d'" for d d'
    using that(2,1) by cases (rule dial_step_inv)
qed

section \<open>What is left behind\<close>

text \<open>Once the timer has fired, the goroutine never ends and nobody gets the connection.\<close>

definition abandoned :: "dial \<Rightarrow> bool" where
  "abandoned d \<longleftrightarrow> d_ret d = Some (False, Some DialTimedOut) \<and> d_pc d \<noteq> DialEnd"

lemma dial_conn_fields:
  "dial_conn wt op pc d = Some (Inr d') \<Longrightarrow> d_ret d' = d_ret d \<and> d_pc d' = pc \<and> d_timeout d' = d_timeout d"
  by (auto simp: dial_conn_def bind_res_eq_Inr split: option.splits)

lemma abandoned_step: "abandoned d \<Longrightarrow> dial_step wt d d' \<Longrightarrow> abandoned d'"
proof -
  assume a: "abandoned d" and "dial_step wt d d'"
  then obtain op where "dial_exec wt op d = Some (Inr d')" by (auto elim: dial_step.cases)
  then show ?thesis using a
    by (cases op) (auto simp: abandoned_def dest: dial_conn_fields split: if_splits dial_pc.splits sum.splits option.splits)
qed

text \<open>
  The goroutine waits in \<open>connect\<close> for an event, and \<open>run\<close>, which alone could send it, has returned.
\<close>

definition dial_stuck :: "dial \<Rightarrow> bool" where
  "dial_stuck d \<longleftrightarrow> d_pc d = DialWait \<and> d_ret d = None \<and> d_timeout d = 0 \<and>
     (\<exists>x. d_sys d = Some x \<and> r_pc (x_run x) = Returned \<and> ch_items (c_chWriteEvent (x_conn x)) = [] \<and> \<not> ch_closed (c_chWriteEvent (x_conn x)))"

lemma dial_stuck_step: "dial_stuck d \<Longrightarrow> dial_step wt d d' \<Longrightarrow> dial_stuck d'"
proof -
  assume s: "dial_stuck d" and "dial_step wt d d'"
  then obtain op where e: "dial_exec wt op d = Some (Inr d')" by (auto elim: dial_step.cases)
  obtain x where x: "d_sys d = Some x" "r_pc (x_run x) = Returned" "ch_items (c_chWriteEvent (x_conn x)) = []" "\<not> ch_closed (c_chWriteEvent (x_conn x))"
    using s by (auto simp: dial_stuck_def)
  have none: "connect_wait (x_conn x) = None" "run_step wt now1 now2 ev (x_run x) (x_conn x) = None" for now1 now2 ev
    using x by (simp_all add: connect_wait_def try_recv_def run_step_def)
  show ?thesis
  proof (cases op)
    case (DConn cop)
    then have c: "dial_conn wt cop (d_pc d) d = Some (Inr d')" and u: "own_op cop" using e s by (auto simp: dial_stuck_def split: if_splits)
    then obtain x' where x': "conn_exec wt cop x = Some (Inr x')" "d' = d \<lparr> d_sys := Some x', d_pc := d_pc d \<rparr>"
      using x(1) by (auto simp: dial_conn_def bind_res_eq_Inr)
    then obtain r ud where r: "cop = CUdp r ud" using u none(2) by (cases cop) auto
    then have "x_run x' = x_run x" "c_chWriteEvent (x_conn x') = c_chWriteEvent (x_conn x)"
      using x'(1) by (cases r; auto simp: client_recv_def bind_res_eq_Inr split: if_splits sum.splits)+
    then show ?thesis using s x x' by (auto simp: dial_stuck_def)
  qed (use s e x none in \<open>auto simp: dial_stuck_def dial_conn_def split: if_splits\<close>)
qed

section \<open>Runs\<close>

fun dial_run :: "link \<Rightarrow> dial_op list \<Rightarrow> dial \<Rightarrow> dial option" where
  "dial_run wt [] d = Some d"
| "dial_run wt (op # ops) d =
     (if dial_op_ok op d then (case dial_exec wt op d of Some (Inr d') \<Rightarrow> dial_run wt ops d' | _ \<Rightarrow> None) else None)"

lemma dial_run_reachable:
  "reachable dial_init (dial_step wt) d \<Longrightarrow> dial_run wt ops d = Some d' \<Longrightarrow> reachable dial_init (dial_step wt) d'"
proof (induction ops arbitrary: d)
  case (Cons op ops)
  then obtain d1 where d1: "dial_op_ok op d" "dial_exec wt op d = Some (Inr d1)" "dial_run wt ops d1 = Some d'"
    by (auto split: if_splits option.splits sum.splits)
  from reach_step [OF Cons.prems(1) dial_step.intros [OF d1(1,2)]] Cons.IH d1(3) show ?case by blast
qed simp

lemma dial_run_start: "dial_run wt ops (dial0 timeout) = Some d \<Longrightarrow> reachable dial_init (dial_step wt) d"
  by (rule dial_run_reachable [OF reach_init]) (auto simp: dial_init_def)

text \<open>The peer answers the handshake and the connection is handed over.\<close>

definition dial_ops :: "dial_op list" where
  "dial_ops = [DResolved (Inr ''b''), DSocket None 7, DHandshake 0, DConn (CUdp (RecvOk handshake) False), DConn (CRun 0 0 EvTimer),
     DConn (CRun 0 0 EvUdp), DConnected, DHandOver]"

lemma demo_dial_run:
  "map_option (\<lambda>d. (d_ret d, map_option (\<lambda>x. isStateConnected (x_kcp x)) (d_sys d))) (dial_run link_up dial_ops (dial0 0))
   = Some (Some (True, None), Some True)"
  by code_simp

text \<open>The peer sends one empty \<open>PUSH\<close> instead.\<close>

definition hang_ops :: "dial_op list" where
  "hang_ops = [DResolved (Inr ''b''), DSocket None 7, DHandshake 0, DConn (CUdp (RecvOk lone_push) False), DConn (CRun 0 0 EvTimer),
     DConn (CRun 0 0 EvUdp), DConn (CRun 0 0 EvTimer), DConn (CRun 0 6000000000 EvTimer), DConn (CRun 0 0 EvTimer)]"

lemma demo_hang_run:
  "map_option (\<lambda>d. (d_pc d, d_ret d, d_timeout d, map_option (\<lambda>x. (r_pc (x_run x), ch_items (c_chWriteEvent (x_conn x)),
       ch_closed (c_chWriteEvent (x_conn x)))) (d_sys d))) (dial_run link_up hang_ops (dial0 0))
   = Some (DialWait, None, 0, Some (Returned, [], False))"
  by code_simp

end
