(* ===== verification/Lossy.thy ===== *)
theory Lossy
  imports Kcp_State Go_Chan "HOL-Library.Multiset"
begin

text \<open>
  The network emulation of \<open>go/kcp/lossychan.go\<close> and \<open>go/kcp/lossyconn.go\<close>: a channel that
  delays, loses and rate-limits what passes through it, and packet connections built on it.

  The source takes its decisions from a random number, the clock and a \<open>LossyTrick\<close> supplied
  by the user; an event carries what they returned. Times are integers in nanoseconds
  (\<open>speedLimit\<close>) or milliseconds (the tick), as in the source.
\<close>

section \<open>Operations of the channel\<close>

datatype lossy_item = ItemBytes bytes | ItemPacket bytes string

fun item_size :: "lossy_item \<Rightarrow> int" where
  "item_size (ItemBytes b) = int (length b)"
| "item_size (ItemPacket b a) = 1"

definition ring_size :: nat where "ring_size = 5000"

record lossy =
  l_q :: "lossy_item list list"
  l_n :: int
  curMs :: int
  curIdx :: int
  speedLimit :: "int option"   \<comment> \<open>\<open>None\<close> is the zero time\<close>
  ch_open :: bool              \<comment> \<open>\<open>ch != nil\<close>\<close>
  l_total :: int
  l_loss :: int
  dropSpeed :: int
  dropOut :: int
  l_out :: "lossy_item list"     \<comment> \<open>sent to \<open>out\<close> so far, oldest first\<close>

definition lossy0 :: "int \<Rightarrow> lossy" where
  "lossy0 now = \<lparr> l_q = replicate ring_size [], l_n = 0, curMs = now, curIdx = 0, speedLimit = None, ch_open = True,
     l_total = 0, l_loss = 0, dropSpeed = 0, dropOut = 0, l_out = [] \<rparr>"

text \<open>
  Lines 39 to 75, for an item received: whether the random number was below the loss ratio,
  the limit per second, the time, and the delay.
\<close>

definition speed_check :: "int \<Rightarrow> int \<Rightarrow> lossy_item \<Rightarrow> lossy \<Rightarrow> bool \<times> lossy" where
  "speed_check limitPerSec now v s =
     (if limitPerSec \<noteq> 0
      then let lim = (case speedLimit s of None \<Rightarrow> now | Some t \<Rightarrow> t); s = s \<lparr> speedLimit := Some lim \<rparr>
           in if now < lim then (False, s \<lparr> dropSpeed := dropSpeed s + 1 \<rparr>)
              else (True, s \<lparr> speedLimit := Some (lim + go_div (item_size v * 1000000000) limitPerSec) \<rparr>)
      else (True, s))"

definition lossy_item_in :: "bool \<Rightarrow> int \<Rightarrow> int \<Rightarrow> int \<Rightarrow> lossy_item \<Rightarrow> lossy \<Rightarrow> lossy res" where
  "lossy_item_in lose limitPerSec now delay v s =
     (let s = s \<lparr> l_total := l_total s + 1 \<rparr>
      in if lose then Inr (s \<lparr> l_loss := l_loss s + 1 \<rparr>)
         else let (ok, s) = speed_check limitPerSec now v s
              in if \<not> ok then Inr s
                 else let idx = go_mod (curIdx s + delay) (int (length (l_q s)))
                      in if 0 \<le> idx \<and> idx < int (length (l_q s))
                         then Inr (s \<lparr> l_q := (l_q s) [nat idx := l_q s ! nat idx @ [v]], l_n := l_n s + 1 \<rparr>)
                         else Inl SliceBounds)"

text \<open>
  Lines 80 to 97: empty the slots from \<open>curIdx + i\<close> on; \<open>acc i\<close> says how many items of slot
  \<open>curIdx + i\<close> the receiver takes before a send times out, \<open>todo\<close> how many slots are left.
\<close>

fun lossy_drain :: "(nat \<Rightarrow> nat) \<Rightarrow> nat \<Rightarrow> nat \<Rightarrow> lossy \<Rightarrow> lossy res" where
  "lossy_drain acc i 0 s = Inr s"
| "lossy_drain acc i (Suc todo) s =
     (let idx = go_mod (curIdx s + int i) (int (length (l_q s)))
      in if 0 \<le> idx \<and> idx < int (length (l_q s))
         then let slot = l_q s ! nat idx; k = min (acc i) (length slot); r = int (length slot) - int k
              in lossy_drain acc (Suc i) todo
                   (s \<lparr> l_out := l_out s @ take k slot, l_n := l_n s - int k - r, dropOut := dropOut s + r,
                        l_q := (l_q s) [nat idx := []] \<rparr>)
         else Inl SliceBounds)"

definition lossy_tick :: "int \<Rightarrow> (nat \<Rightarrow> nat) \<Rightarrow> lossy \<Rightarrow> lossy res" where
  "lossy_tick nowMs acc s =
     (let d = nowMs - curMs s
      in bind_res (lossy_drain acc 0 (nat (d + 1)) s) (\<lambda>s.
           Inr (s \<lparr> curIdx := curIdx s + d, curMs := nowMs \<rparr>)))"

datatype lossy_ev =
    EvItem bool int int int lossy_item   \<comment> \<open>a receive from \<open>ch\<close>\<close>
  | EvNil                                \<comment> \<open>\<open>ch\<close> was closed\<close>
  | EvTick int "nat \<Rightarrow> nat"

fun lossy_step :: "lossy_ev \<Rightarrow> lossy \<Rightarrow> lossy res" where
  "lossy_step (EvItem lose limitPerSec now delay v) s = lossy_item_in lose limitPerSec now delay v s"
| "lossy_step EvNil s = Inr (s \<lparr> ch_open := False \<rparr>)"
| "lossy_step (EvTick nowMs acc) s = lossy_tick nowMs acc s"

fun is_tick :: "lossy_ev \<Rightarrow> bool" where
  "is_tick (EvTick nowMs acc) = True"
| "is_tick _ = False"

text \<open>The loop runs while \<open>ch != nil || n != 0\<close>; a nil channel offers nothing more.\<close>

fun lossy_run :: "lossy_ev list \<Rightarrow> lossy \<Rightarrow> lossy res" where
  "lossy_run [] s = Inr s"
| "lossy_run (ev # evs) s =
     (if \<not> ch_open s \<and> l_n s = 0 then Inr s
      else if \<not> ch_open s \<and> \<not> is_tick ev then lossy_run evs s
      else bind_res (lossy_step ev s) (\<lambda>s. lossy_run evs s))"

section \<open>Conservation\<close>

fun offered :: "lossy_ev list \<Rightarrow> lossy_item list" where
  "offered [] = []"
| "offered (EvItem lose limitPerSec now delay v # evs) = v # offered evs"
| "offered (_ # evs) = offered evs"

definition queued :: "lossy \<Rightarrow> nat" where
  "queued s = sum_list (map length (l_q s))"

definition lossy_inv :: "lossy_item multiset \<Rightarrow> lossy \<Rightarrow> bool" where
  "lossy_inv given s \<longleftrightarrow>
     length (l_q s) = ring_size \<and> l_n s = int (queued s) \<and>
     l_total s = l_loss s + dropSpeed s + dropOut s + int (length (l_out s)) + l_n s \<and>
     mset (l_out s) + mset (concat (l_q s)) \<subseteq># given"

lemma queued_update:
  "i < length (l_q s) \<Longrightarrow> int (sum_list (map length ((l_q s)[i := x]))) = int (queued s) - int (length (l_q s ! i)) + int (length x)"
proof -
  assume i: "i < length (l_q s)"
  have "sum_list (map length (l_q s)) = sum_list (map length (take i (l_q s))) + length (l_q s ! i) + sum_list (map length (drop (Suc i) (l_q s)))"
    using arg_cong [OF id_take_nth_drop [OF i], of "\<lambda>z. sum_list (map length z)"] by simp
  then show ?thesis using i by (simp add: queued_def upd_conv_take_nth_drop)
qed

lemma mset_update:
  "i < length qs \<Longrightarrow> mset (concat (qs[i := x])) + mset (qs ! i) = mset (concat qs) + mset x"
proof -
  assume i: "i < length qs"
  have "mset (concat qs) = mset (concat (take i qs)) + mset (qs ! i) + mset (concat (drop (Suc i) qs))"
    using arg_cong [OF id_take_nth_drop [OF i], of "\<lambda>z. mset (concat z)"] by simp
  then show ?thesis using i by (simp add: upd_conv_take_nth_drop)
qed

lemma lossy_item_in_inv:
  assumes inv: "lossy_inv given s" and e: "lossy_item_in lose lim now delay v s = Inr s'"
  shows "lossy_inv (add_mset v given) s'"
proof -
  have more: "A \<subseteq># add_mset v given" if "A \<subseteq># given" for A
    using that by (metis add_mset_add_single mset_subset_eq_add_left subset_mset.order_trans)
  define s1 where "s1 = s \<lparr> l_total := l_total s + 1 \<rparr>"
  obtain ok s2 where c: "speed_check lim now v s1 = (ok, s2)" by (cases "speed_check lim now v s1")
  have s2: "l_q s2 = l_q s" "l_n s2 = l_n s" "l_out s2 = l_out s" "dropOut s2 = dropOut s" "l_loss s2 = l_loss s"
    "l_total s2 = l_total s + 1" "dropSpeed s2 = dropSpeed s + (if ok then 0 else 1)"
    using c by (auto simp: speed_check_def s1_def Let_def split: if_splits)
  define i where "i = nat (go_mod (curIdx s2 + delay) (int (length (l_q s))))"
  consider (lost) "lose" "s' = s1 \<lparr> l_loss := l_loss s + 1 \<rparr>"
    | (slow) "\<not> lose" "\<not> ok" "s' = s2"
    | (kept) "\<not> lose" "ok" "i < length (l_q s)"
        "s' = s2 \<lparr> l_q := (l_q s) [i := l_q s ! i @ [v]], l_n := l_n s + 1 \<rparr>"
    using e c s2(1,2) unfolding lossy_item_in_def s1_def [symmetric] Let_def
    by (auto simp: s1_def i_def split: if_splits)
  then show ?thesis
  proof cases
    case lost
    then show ?thesis using inv more by (simp add: lossy_inv_def queued_def s1_def)
  next
    case slow
    then show ?thesis using inv s2 more by (simp add: lossy_inv_def queued_def)
  next
    case kept
    have "mset (concat ((l_q s) [i := l_q s ! i @ [v]])) = add_mset v (mset (concat (l_q s)))"
      using mset_update [OF kept(3), of "l_q s ! i @ [v]"] by simp
    then show ?thesis
      using inv kept s2 queued_update [OF kept(3), of "l_q s ! i @ [v]"]
      by (simp add: lossy_inv_def queued_def)
  qed
qed

lemma go_mod_nonneg: "0 \<le> a \<Longrightarrow> 0 < b \<Longrightarrow> go_mod a b = a mod b"
  by (cases "a = 0") (simp_all add: go_mod_def go_div_def minus_mult_div_eq_mod)

lemma lossy_drain_inv:
  "lossy_inv given s \<Longrightarrow> lossy_drain acc i todo s = Inr s' \<Longrightarrow>
   lossy_inv given s' \<and> curIdx s' = curIdx s \<and> curMs s' = curMs s \<and> ch_open s' = ch_open s"
proof (induction todo arbitrary: i s)
  case (Suc todo)
  define idx where "idx = go_mod (curIdx s + int i) (int (length (l_q s)))"
  have ix: "0 \<le> idx" "nat idx < length (l_q s)"
    using Suc.prems(2) by (auto simp: idx_def Let_def split: if_splits)
  let ?slot = "l_q s ! nat idx" and ?i = "nat idx"
  define k where "k = min (acc i) (length ?slot)"
  define r where "r = int (length ?slot) - int k"
  let ?s = "s \<lparr> l_out := l_out s @ take k ?slot, l_n := l_n s - int k - r, dropOut := dropOut s + r,
    l_q := (l_q s) [?i := []] \<rparr>"
  have step: "lossy_drain acc (Suc i) todo ?s = Inr s'"
    using Suc.prems(2) ix by (simp add: Let_def k_def r_def idx_def [symmetric] split: if_splits)
  have m: "mset (concat (l_q s)) = mset (concat ((l_q s) [?i := []])) + mset ?slot"
    using mset_update [OF ix(2), of "[]"] by simp
  have "mset (take k ?slot) \<subseteq># mset ?slot" by (metis append_take_drop_id mset_append mset_subset_eq_add_left)
  then have "mset (l_out s @ take k ?slot) + mset (concat ((l_q s) [?i := []])) \<subseteq># mset (l_out s) + mset (concat (l_q s))"
    unfolding m by (simp add: ac_simps subset_mset.add_left_mono)
  also have "\<dots> \<subseteq># given" using Suc.prems(1) by (simp add: lossy_inv_def)
  finally have "mset (l_out ?s) + mset (concat (l_q ?s)) \<subseteq># given" by simp
  moreover have "int (length (take k ?slot)) = int k" by (simp add: k_def)
  ultimately have "lossy_inv given ?s"
    using Suc.prems(1) queued_update [OF ix(2), of "[]"]
    by (simp add: lossy_inv_def queued_def r_def)
  from Suc.IH [OF this step] show ?case by simp
qed simp

lemma lossy_inv_frame:
  "lossy_inv given (s \<lparr> ch_open := b \<rparr>) = lossy_inv given s"
  "lossy_inv given (s \<lparr> curIdx := c, curMs := m \<rparr>) = lossy_inv given s"
  by (simp_all add: lossy_inv_def queued_def)

lemma lossy_step_inv:
  assumes inv: "lossy_inv given s" and e: "lossy_step ev s = Inr s'"
  shows "lossy_inv (given + mset (offered [ev])) s'"
proof (cases ev)
  case (EvItem a b c d v)
  then show ?thesis using lossy_item_in_inv [OF inv] e by simp
next
  case EvNil
  then show ?thesis using inv e by (auto simp: lossy_inv_frame)
next
  case (EvTick t acc)
  then obtain s1 where "lossy_drain acc 0 (nat (t - curMs s + 1)) s = Inr s1"
    "s' = s1 \<lparr> curIdx := curIdx s1 + (t - curMs s), curMs := t \<rparr>"
    using e by (auto simp: lossy_tick_def bind_res_eq_Inr Let_def)
  then show ?thesis using lossy_drain_inv [OF inv] EvTick by (simp add: lossy_inv_frame)
qed

lemma lossy_run_inv:
  "lossy_inv given s \<Longrightarrow> lossy_run evs s = Inr s' \<Longrightarrow> lossy_inv (given + mset (offered evs)) s'"
proof (induction evs arbitrary: given s)
  case (Cons ev evs)
  have weaken: "lossy_inv (g + x) t" if "lossy_inv g t" for g x t
    using that mset_subset_eq_add_left [of g x] subset_mset.order_trans unfolding lossy_inv_def by blast
  have o: "mset (offered (ev # evs)) = mset (offered [ev]) + mset (offered evs)" by (cases ev) simp_all
  consider "s' = s" | "lossy_run evs s = Inr s'" | s1 where "lossy_step ev s = Inr s1" "lossy_run evs s1 = Inr s'"
  proof (cases "\<not> ch_open s \<and> l_n s = 0")
    case True
    then show ?thesis using Cons.prems(2) that(1) by simp
  next
    case False
    then show ?thesis using Cons.prems(2) that(2,3)
      by (cases "\<not> ch_open s \<and> \<not> is_tick ev") (auto simp: bind_res_eq_Inr)
  qed
  then show ?case
  proof cases
    case 1
    then show ?thesis using weaken [OF Cons.prems(1)] by simp
  next
    case 2
    from weaken [OF Cons.IH [OF Cons.prems(1) this], of "mset (offered [ev])"] show ?thesis
      unfolding o by (simp add: ac_simps)
  next
    case (3 s1)
    from Cons.IH [OF lossy_step_inv [OF Cons.prems(1) 3(1)] 3(2)] show ?thesis
      unfolding o by (simp add: ac_simps)
  qed
qed simp

lemma lossy0_inv: "lossy_inv {#} (lossy0 now)"
proof -
  have "concat (replicate m []) = ([] :: lossy_item list)" for m by (induction m) simp_all
  then show ?thesis by (simp add: lossy_inv_def lossy0_def queued_def sum_list_replicate)
qed

section \<open>No panic while the clock does not go back\<close>

fun forward :: "lossy_ev \<Rightarrow> lossy \<Rightarrow> bool" where
  "forward (EvItem lose limitPerSec now delay v) s \<longleftrightarrow> 0 \<le> delay"
| "forward EvNil s \<longleftrightarrow> True"
| "forward (EvTick nowMs acc) s \<longleftrightarrow> curMs s \<le> nowMs"

lemma ring_index: "0 \<le> a \<Longrightarrow> length qs = ring_size \<Longrightarrow> go_mod a (int (length qs)) \<in> {0..<int (length qs)}"
  by (simp add: go_mod_nonneg ring_size_def)

lemma lossy_drain_total:
  "lossy_inv given s \<Longrightarrow> 0 \<le> curIdx s \<Longrightarrow> \<exists>s'. lossy_drain acc i todo s = Inr s'"
proof (induction todo arbitrary: i s)
  case (Suc todo)
  have len: "length (l_q s) = ring_size" using Suc.prems(1) by (simp add: lossy_inv_def)
  have ix: "go_mod (curIdx s + int i) (int (length (l_q s))) \<in> {0..<int (length (l_q s))}"
    using Suc.prems(2) len by (intro ring_index) simp_all
  obtain s1 where 1: "lossy_drain acc i 1 s = Inr s1"
    "lossy_drain acc i (Suc todo) s = lossy_drain acc (Suc i) todo s1"
    using ix by (auto simp: Let_def)
  then show ?case using Suc.IH [of s1 "Suc i"] lossy_drain_inv [OF Suc.prems(1) 1(1)] Suc.prems(2) by auto
qed simp

lemma lossy_step_total:
  assumes inv: "lossy_inv given s" and c: "0 \<le> curIdx s" and f: "forward ev s"
  shows "\<exists>s'. lossy_step ev s = Inr s' \<and> 0 \<le> curIdx s'"
proof (cases ev)
  case (EvItem lose lim now delay v)
  have len: "length (l_q s) = ring_size" using inv by (simp add: lossy_inv_def)
  obtain ok s2 where c2: "speed_check lim now v (s \<lparr> l_total := l_total s + 1 \<rparr>) = (ok, s2)"
    by (cases "speed_check lim now v (s \<lparr> l_total := l_total s + 1 \<rparr>)")
  then have s2: "l_q s2 = l_q s" "curIdx s2 = curIdx s" by (auto simp: speed_check_def Let_def split: if_splits)
  have "go_mod (curIdx s + delay) (int (length (l_q s))) \<in> {0..<int (length (l_q s))}"
    using f c len EvItem by (intro ring_index) simp_all
  then show ?thesis using EvItem c2 s2 c by (auto simp: lossy_item_in_def Let_def)
next
  case (EvTick t acc)
  obtain s1 where 1: "lossy_drain acc 0 (nat (t - curMs s + 1)) s = Inr s1"
    using lossy_drain_total [OF inv c] by blast
  then show ?thesis using EvTick f c lossy_drain_inv [OF inv 1] by (simp add: lossy_tick_def Let_def)
qed (use c in simp)

section \<open>Packet connections over lossy channels\<close>

text \<open>
  \<open>lossyPairConn\<close>: its two ends are channels of byte slices. \<open>WriteTo\<close> drops what does not fit;
  \<open>ReadFrom\<close> gets the value \<open>v\<close> it received from its channel, \<open>None\<close> for nil, and the
  caller's slice.
\<close>

definition pair_WriteTo :: "bytes \<Rightarrow> bytes chan \<Rightarrow> (int \<times> conn_err option \<times> bytes chan) res" where
  "pair_WriteTo b chWrite =
     bind_res (try_send (go_copy (replicate (length b) 0) b) chWrite) (\<lambda>(fits, c).
       if fits then Inr (int (length b), None, c) else Inr (0, Some ErrShortWrite, c))"

definition pair_ReadFrom :: "bytes option \<Rightarrow> bytes \<Rightarrow> (int \<times> conn_err option \<times> bytes) res" where
  "pair_ReadFrom v b =
     (case v of
        None \<Rightarrow> Inr (0, Some ErrEOF, b)
      | Some p \<Rightarrow> if length b < length p then Inl (Explicit ''buffer too small'')
                  else Inr (int (length p), None, go_copy b p))"

text \<open>The deadlines of a pair are ignored.\<close>

definition pair_SetDeadline :: "int option \<Rightarrow> 'c \<Rightarrow> conn_err option \<times> 'c" where
  "pair_SetDeadline t c = (None, c)"

definition pair_Close :: "bytes chan \<Rightarrow> bytes chan res" where
  "pair_Close chWrite = close_chan chWrite"

text \<open>
  \<open>lossyPacketConn\<close>: a packet socket with a lossy channel in each direction. The channels
  \<open>chReadTricked\<close> and \<open>chWriteTricked\<close> are the outputs of those; \<open>chWrite\<close> is nil (\<open>None\<close>) after
  \<open>Close\<close>.
\<close>

record lossyPacketConn =
  lp_chRead :: "lossy_item chan"
  lp_chReadTricked :: "lossy_item chan"
  lp_chWrite :: "lossy_item chan option"
  lp_chWriteTricked :: "lossy_item chan"
  lp_deadlineRead :: "int option"
  lp_deadlineWrite :: "int option"
  lp_die :: "unit chan"

definition NewLossyConn :: "nat \<Rightarrow> lossyPacketConn" where
  "NewLossyConn channelSize = \<lparr> lp_chRead = make_chan channelSize, lp_chReadTricked = make_chan channelSize,
     lp_chWrite = Some (make_chan channelSize), lp_chWriteTricked = make_chan channelSize,
     lp_deadlineRead = None, lp_deadlineWrite = None, lp_die = make_chan 1 \<rparr>"

text \<open>
  A round of the reading goroutine, lines 48 to 68. The socket is a parameter: what its \<open>ReadFrom\<close>
  does with a slice (the count, the address, the error and the slice afterwards). \<open>use_die\<close> selects
  the second case of the \<open>select\<close>. The result says whether the goroutine goes on; \<open>None\<close> when it blocks.
\<close>

datatype sock_err = SockTimeout | SockOther

definition reader_stop :: "lossyPacketConn \<Rightarrow> (bool \<times> lossyPacketConn) res" where
  "reader_stop c = bind_res (close_chan (lp_chRead c)) (\<lambda>r. Inr (False, c \<lparr> lp_chRead := r \<rparr>))"

definition packet_reader ::
  "(bytes \<Rightarrow> int \<times> string \<times> sock_err option \<times> bytes) \<Rightarrow> bool \<Rightarrow> lossyPacketConn \<Rightarrow> (bool \<times> lossyPacketConn) res option" where
  "packet_reader conn_recv use_die c =
     (if lp_chWrite c = None then Some (reader_stop c)
      else let (n, addr, err, b) = conn_recv (replicate (4 * 1024) 0)
           in if err = Some SockTimeout then Some (Inr (True, c))
              else if n = 0 \<or> err \<noteq> None then Some (reader_stop c)
              else if use_die then map_option (\<lambda>(_, d). reader_stop (c \<lparr> lp_die := d \<rparr>)) (try_recv (lp_die c))
              else (case try_send (ItemPacket b addr) (lp_chRead c) of
                      Inl e \<Rightarrow> Some (Inl e)
                    | Inr (done, r) \<Rightarrow> if done then Some (Inr (True, c \<lparr> lp_chRead := r \<rparr>)) else None))"

text \<open>The first case of the \<open>select\<close> of \<open>ReadFrom\<close>, with the value received.\<close>

definition packet_ReadFrom :: "lossy_item option \<Rightarrow> bytes \<Rightarrow> (int \<times> conn_err option \<times> bytes) res" where
  "packet_ReadFrom v b =
     (case v of
        Some (ItemPacket p addr) \<Rightarrow>
          if length b < length p then Inl (Explicit ''buffer too small'')
          else Inr (int (length p), None, go_copy b p)
      | Some (ItemBytes p) \<Rightarrow> Inl (Explicit ''interface conversion'')
      | None \<Rightarrow> Inr (0, Some ErrEOF, b))"

text \<open>\<open>timer_case\<close> selects the case of the timer, which is never ready without a deadline.\<close>

definition packetConn_ReadFrom ::
  "int \<Rightarrow> bool \<Rightarrow> bytes \<Rightarrow> lossyPacketConn \<Rightarrow> (int \<times> conn_err option \<times> bytes \<times> lossyPacketConn) res option" where
  "packetConn_ReadFrom now timer_case b c =
     (let select =
        (if timer_case then (if lp_deadlineRead c = None then None else Some (Inr (0, Some ErrTimeout, b, c)))
         else map_option (\<lambda>(v, r). bind_res (packet_ReadFrom v b) (\<lambda>(n, err, b). Inr (n, err, b, c \<lparr> lp_chReadTricked := r \<rparr>)))
                (try_recv (lp_chReadTricked c)))
      in case lp_deadlineRead c of
           Some d \<Rightarrow> if d - now \<le> 0 then Some (Inr (0, Some ErrTimeout, b, c)) else select
         | None \<Rightarrow> select)"

text \<open>A send on the nil channel of a closed connection blocks.\<close>

definition packetConn_WriteTo ::
  "int \<Rightarrow> bool \<Rightarrow> bytes \<Rightarrow> string \<Rightarrow> lossyPacketConn \<Rightarrow> (int \<times> conn_err option \<times> lossyPacketConn) res option" where
  "packetConn_WriteTo now timer_case b addr c =
     (let select =
        (if timer_case then (if lp_deadlineWrite c = None then None else Some (Inr (0, Some ErrTimeout, c)))
         else (case lp_chWrite c of
                 None \<Rightarrow> None
               | Some w \<Rightarrow>
                   (case try_send (ItemPacket (go_copy (replicate (length b) 0) b) addr) w of
                      Inl e \<Rightarrow> Some (Inl e)
                    | Inr (done, w) \<Rightarrow> if done then Some (Inr (int (length b), None, c \<lparr> lp_chWrite := Some w \<rparr>)) else None)))
      in case lp_deadlineWrite c of
           Some d \<Rightarrow> if d - now \<le> 0 then Some (Inr (0, Some ErrTimeout, c)) else select
         | None \<Rightarrow> select)"

text \<open>\<open>Close\<close>, up to the close of the socket.\<close>

definition packetConn_Close :: "lossyPacketConn \<Rightarrow> lossyPacketConn res" where
  "packetConn_Close c =
     bind_res (close_chan (lp_die c)) (\<lambda>d.
       let c = c \<lparr> lp_die := d \<rparr>
       in case lp_chWrite c of
            Some w \<Rightarrow> bind_res (close_chan w) (\<lambda>_. Inr (c \<lparr> lp_chWrite := None \<rparr>))
          | None \<Rightarrow> Inr c)"

text \<open>The deadlines, which are also passed on to the socket.\<close>

definition packetConn_SetReadDeadline :: "int option \<Rightarrow> lossyPacketConn \<Rightarrow> lossyPacketConn" where
  "packetConn_SetReadDeadline t c = c \<lparr> lp_deadlineRead := t \<rparr>"

definition packetConn_SetWriteDeadline :: "int option \<Rightarrow> lossyPacketConn \<Rightarrow> lossyPacketConn" where
  "packetConn_SetWriteDeadline t c = c \<lparr> lp_deadlineWrite := t \<rparr>"

definition packetConn_SetDeadline :: "int option \<Rightarrow> lossyPacketConn \<Rightarrow> lossyPacketConn" where
  "packetConn_SetDeadline t c = c \<lparr> lp_deadlineRead := t, lp_deadlineWrite := t \<rparr>"

text \<open>
  A round of the writing goroutine: the packet it hands to the socket's \<open>WriteTo\<close>; \<open>Inr (None, c)\<close>
  when the channel is closed and the loop ends.
\<close>

definition packet_writer :: "lossyPacketConn \<Rightarrow> ((bytes \<times> string) option \<times> lossyPacketConn) res option" where
  "packet_writer c =
     map_option (\<lambda>(v, w).
       case v of
         None \<Rightarrow> Inr (None, c)
       | Some (ItemPacket p addr) \<Rightarrow> Inr (Some (p, addr), c \<lparr> lp_chWriteTricked := w \<rparr>)
       | Some (ItemBytes p) \<Rightarrow> Inl (Explicit ''interface conversion''))
     (try_recv (lp_chWriteTricked c))"

lemma pair_write_read:
  assumes "\<not> ch_closed c" "ch_items c = []" "0 < ch_cap c" "length p \<le> length b"
  shows "\<exists>c' c''. pair_WriteTo p c = Inr (int (length p), None, c') \<and> try_recv c' = Some (Some p, c'') \<and>
    pair_ReadFrom (Some p) b = Inr (int (length p), None, p @ drop (length p) b)"
  using assms by (simp add: pair_WriteTo_def try_send_def try_recv_def pair_ReadFrom_def go_copy_short)

text \<open>A datagram of the socket comes out as the whole slice of 4 KiB.\<close>

lemma packet_reader_whole_slice:
  assumes "lp_chWrite c \<noteq> None" "\<not> ch_closed (lp_chRead c)" "length (ch_items (lp_chRead c)) < ch_cap (lp_chRead c)"
    and "conn_recv (replicate (4 * 1024) 0) = (n, addr, None, p)" "n \<noteq> 0"
  shows "\<exists>c'. packet_reader conn_recv False c = Some (Inr (True, c')) \<and>
    ch_items (lp_chRead c') = ch_items (lp_chRead c) @ [ItemPacket p addr]"
  using assms by (auto simp: packet_reader_def try_send_def)

lemma packet_ReadFrom_small:
  "length b < length p \<Longrightarrow> packet_ReadFrom (Some (ItemPacket p addr)) b = Inl (Explicit ''buffer too small'')"
  by (simp add: packet_ReadFrom_def)

end
