(* ===== verification/Lossy_Net.thy ===== *)
theory Lossy_Net
  imports Conn_Demo Lossy
begin

text \<open>
  Two connections over \<open>NewLossyPairConn\<close> (\<open>go/kcp/lossyconn.go\<close>), as the performance test of the
  repository sets them up: each end has its socket for itself, what it writes goes through a lossy
  channel, and the goroutine of \<open>goRunClientRecv\<close> at the other end reads what comes out. The state
  holds both connections with their goroutines, both channels with theirs, and how far each
  connection has come in handing its packets to the socket. Every interleaving is covered.
\<close>

section \<open>One direction\<close>

text \<open>
  The channel a \<open>lossyPairConn\<close> writes to, the goroutine of \<open>LossyChannel\<close> that reads from it, and how
  many items the other end has received from its channel \<open>out\<close>. While the goroutine empties its slots
  the reader may take items, so a tick is not bounded by the capacity of \<open>out\<close>. With \<open>sz = 0\<close> every send
  is refused: the rendezvous that an unbuffered channel allows when the goroutine waits is not covered.
\<close>

record lane =
  ln_ch :: "bytes chan"
  ln_lossy :: lossy
  ln_taken :: nat

definition lane0 :: "nat \<Rightarrow> int \<Rightarrow> lane" where
  "lane0 sz now = \<lparr> ln_ch = make_chan sz, ln_lossy = lossy0 now, ln_taken = 0 \<rparr>"

text \<open>The loop of the goroutine has ended and \<open>out\<close> is closed.\<close>

definition lossy_ended :: "lossy \<Rightarrow> bool" where
  "lossy_ended s \<longleftrightarrow> \<not> ch_open s \<and> l_n s = 0"

definition lane_receive :: "bool \<Rightarrow> int \<Rightarrow> int \<Rightarrow> int \<Rightarrow> lane \<Rightarrow> lane res option" where
  "lane_receive lose limitPerSec now delay ln =
     (if \<not> ch_open (ln_lossy ln) then None
      else map_option (\<lambda>(v, c).
             bind_res (lossy_step (case v of Some b \<Rightarrow> EvItem lose limitPerSec now delay (ItemBytes b) | None \<Rightarrow> EvNil) (ln_lossy ln))
               (\<lambda>s. Inr (ln \<lparr> ln_ch := c, ln_lossy := s \<rparr>)))
           (try_recv (ln_ch ln)))"

definition lane_tick :: "int \<Rightarrow> (nat \<Rightarrow> nat) \<Rightarrow> lane \<Rightarrow> lane res option" where
  "lane_tick nowMs acc ln =
     (if lossy_ended (ln_lossy ln) then None
      else Some (bind_res (lossy_step (EvTick nowMs acc) (ln_lossy ln)) (\<lambda>s. Inr (ln \<lparr> ln_lossy := s \<rparr>))))"

text \<open>The two ends of the lane: \<open>WriteTo\<close> of one connection, \<open>ReadFrom\<close> of the other.\<close>

definition lane_WriteTo :: "bytes \<Rightarrow> lane \<Rightarrow> (conn_err option \<times> lane) res" where
  "lane_WriteTo b ln = bind_res (pair_WriteTo b (ln_ch ln)) (\<lambda>(n, err, c). Inr (err, ln \<lparr> ln_ch := c \<rparr>))"

definition lane_ReadFrom :: "bytes \<Rightarrow> lane \<Rightarrow> (int \<times> conn_err option \<times> bytes \<times> lane) res option" where
  "lane_ReadFrom b ln =
     (let out = l_out (ln_lossy ln)
      in if ln_taken ln < length out
         then Some (case out ! ln_taken ln of
                ItemBytes p \<Rightarrow> bind_res (pair_ReadFrom (Some p) b) (\<lambda>(n, err, b). Inr (n, err, b, ln \<lparr> ln_taken := ln_taken ln + 1 \<rparr>))
              | ItemPacket p a \<Rightarrow> Inl (Explicit ''interface conversion''))
         else if lossy_ended (ln_lossy ln)
         then Some (bind_res (pair_ReadFrom None b) (\<lambda>(n, err, b). Inr (n, err, b, ln)))
         else None)"

definition lane_Close :: "lane \<Rightarrow> lane res" where
  "lane_Close ln = bind_res (pair_Close (ln_ch ln)) (\<lambda>c. Inr (ln \<lparr> ln_ch := c \<rparr>))"

section \<open>The system\<close>

text \<open>
  A connection, whether its receiving goroutine still runs, how many of the packets of its control
  object have been handed to \<open>WriteTo\<close>, and the lane it writes to.
\<close>

record peer =
  e_sys :: csys
  e_recv :: bool
  e_sent :: nat
  e_lane :: lane

record lnet =
  n_1 :: peer
  n_2 :: peer

abbreviation e_outs :: "peer \<Rightarrow> bytes list" where "e_outs e \<equiv> outputs (x_kcp (e_sys e))"

definition NewLossyPairConn :: "nat \<Rightarrow> int \<Rightarrow> int \<Rightarrow> csys \<Rightarrow> csys \<Rightarrow> lnet" where
  "NewLossyPairConn sz now1 now2 c1 c2 =
     \<lparr> n_1 = \<lparr> e_sys = c1, e_recv = True, e_sent = 0, e_lane = lane0 sz now1 \<rparr>,
       n_2 = \<lparr> e_sys = c2, e_recv = True, e_sent = 0, e_lane = lane0 sz now2 \<rparr> \<rparr>"

datatype peer_op =
    PConn conn_op                   \<comment> \<open>a step of the connection, its users or \<open>run\<close>\<close>
  | PFinish                         \<comment> \<open>the end of \<open>run\<close>, which closes the socket\<close>
  | POutput                         \<comment> \<open>\<open>kcpOutput\<close> hands the next packet to the socket\<close>
  | PRecv bytes bool                \<comment> \<open>a round of the receiving goroutine\<close>
  | PItem bool int int int          \<comment> \<open>the goroutine of the lane receives\<close>
  | PTick int "nat \<Rightarrow> nat"          \<comment> \<open>its ticker fires\<close>

fun is_udp :: "conn_op \<Rightarrow> bool" where
  "is_udp (CUdp r u) \<longleftrightarrow> True"
| "is_udp _ \<longleftrightarrow> False"

text \<open>The link of the connection is what \<open>WriteTo\<close> of the lane answers.\<close>

fun peer_exec :: "link \<Rightarrow> peer_op \<Rightarrow> peer \<Rightarrow> lane \<Rightarrow> (peer \<times> lane) res option" where
  "peer_exec wt (PConn op) e l =
     (if is_udp op \<or> finishes op (e_sys e) then None
      else map_option (\<lambda>m. bind_res m (\<lambda>x. Inr (e \<lparr> e_sys := x \<rparr>, l))) (conn_exec wt op (e_sys e)))"
| "peer_exec wt PFinish e l =
     (if r_pc (x_run (e_sys e)) \<noteq> Finishing then None
      else Some (bind_res (lane_Close (e_lane e)) (\<lambda>ln.
             case run_finish (x_run (e_sys e)) (x_conn (e_sys e)) of
               (r, s) \<Rightarrow> Inr (e \<lparr> e_sys := (with_conn s (e_sys e)) \<lparr> x_run := r \<rparr>, e_lane := ln \<rparr>, l))))"
| "peer_exec wt POutput e l =
     (if e_sent e < length (e_outs e)
      then let p = e_outs e ! e_sent e
           in case lane_WriteTo p (e_lane e) of
                Inl err \<Rightarrow> Some (Inl err)
              | Inr (err, ln) \<Rightarrow>
                  if wt (e_sent e) p = (err = None) then Some (Inr (e \<lparr> e_sent := e_sent e + 1, e_lane := ln \<rparr>, l)) else None
      else None)"
| "peer_exec wt (PRecv b use_die) e l =
     (if \<not> e_recv e then None
      else case lane_ReadFrom b l of
             None \<Rightarrow> None
           | Some (Inl err) \<Rightarrow> Some (Inl err)
           | Some (Inr (n, err, b, l)) \<Rightarrow>
               map_option (\<lambda>m. bind_res m (\<lambda>(more, s). Inr (e \<lparr> e_sys := with_conn s (e_sys e), e_recv := more \<rparr>, l)))
                 (client_recv (if err = None then RecvOk (take (nat n) b) else RecvErr) use_die (x_conn (e_sys e))))"
| "peer_exec wt (PItem lose limitPerSec now delay) e l =
     map_option (\<lambda>m. bind_res m (\<lambda>ln. Inr (e \<lparr> e_lane := ln \<rparr>, l))) (lane_receive lose limitPerSec now delay (e_lane e))"
| "peer_exec wt (PTick nowMs acc) e l =
     map_option (\<lambda>m. bind_res m (\<lambda>ln. Inr (e \<lparr> e_lane := ln \<rparr>, l))) (lane_tick nowMs acc (e_lane e))"

text \<open>A datagram is read into a slice of \<open>udpPacketSizeLimit\<close> bytes, with anything in it.\<close>

fun peer_op_ok :: "peer_op \<Rightarrow> peer \<Rightarrow> bool" where
  "peer_op_ok (PConn op) e \<longleftrightarrow> conn_op_ok op (e_sys e)"
| "peer_op_ok (PRecv b u) e \<longleftrightarrow> length b = udpPacketSizeLimit"
| "peer_op_ok _ e \<longleftrightarrow> True"

definition socket_conn :: "csys \<Rightarrow> bool" where
  "socket_conn x \<longleftrightarrow> (\<exists>cv remote. x = client_conn cv remote \<or> x = direct_conn cv remote)"

definition lnet_init :: "lnet \<Rightarrow> bool" where
  "lnet_init s \<longleftrightarrow> (\<exists>sz now1 now2 c1 c2. socket_conn c1 \<and> socket_conn c2 \<and> s = NewLossyPairConn sz now1 now2 c1 c2)"

inductive lnet_step :: "link \<Rightarrow> link \<Rightarrow> lnet \<Rightarrow> lnet \<Rightarrow> bool" for wt1 wt2 where
  one: "peer_op_ok op (n_1 s) \<Longrightarrow> peer_exec wt1 op (n_1 s) (e_lane (n_2 s)) = Some (Inr (e, l)) \<Longrightarrow>
    lnet_step wt1 wt2 s \<lparr> n_1 = e, n_2 = (n_2 s) \<lparr> e_lane := l \<rparr> \<rparr>"
| two: "peer_op_ok op (n_2 s) \<Longrightarrow> peer_exec wt2 op (n_2 s) (e_lane (n_1 s)) = Some (Inr (e, l)) \<Longrightarrow>
    lnet_step wt1 wt2 s \<lparr> n_1 = (n_1 s) \<lparr> e_lane := l \<rparr>, n_2 = e \<rparr>"

section \<open>A lane carries only what was written to it, and no packet twice\<close>

definition lane_inv :: "bytes list \<Rightarrow> lane \<Rightarrow> bool" where
  "lane_inv ps ln \<longleftrightarrow> (\<exists>given. lossy_inv given (ln_lossy ln) \<and>
     given + image_mset ItemBytes (mset (ch_items (ln_ch ln))) \<subseteq># image_mset ItemBytes (mset ps))"

lemma lane_inv_out: "lane_inv ps ln \<Longrightarrow> mset (l_out (ln_lossy ln)) \<subseteq># image_mset ItemBytes (mset ps)"
  unfolding lane_inv_def lossy_inv_def
  by (meson mset_subset_eq_add_left subset_mset.order_trans)

lemma lane_inv_item: "lane_inv ps ln \<Longrightarrow> i < length (l_out (ln_lossy ln)) \<Longrightarrow> \<exists>p \<in> set ps. l_out (ln_lossy ln) ! i = ItemBytes p"
proof -
  assume "lane_inv ps ln" "i < length (l_out (ln_lossy ln))"
  then have "l_out (ln_lossy ln) ! i \<in> ItemBytes ` set ps" using set_mset_mono [OF lane_inv_out, of ps ln] nth_mem by fastforce
  then show ?thesis by auto
qed

lemma lane0_inv: "lane_inv [] (lane0 sz now)"
  using lossy0_inv by (auto simp: lane_inv_def lane0_def make_chan_def)

lemma lane_inv_taken [simp]: "lane_inv ps (ln \<lparr> ln_taken := n \<rparr>) = lane_inv ps ln"
  by (simp add: lane_inv_def)

lemma lane_receive_inv:
  assumes inv: "lane_inv ps ln" and r: "lane_receive lose lim now delay ln = Some (Inr ln')"
  shows "lane_inv ps ln'"
proof -
  obtain given where g: "lossy_inv given (ln_lossy ln)" "given + image_mset ItemBytes (mset (ch_items (ln_ch ln))) \<subseteq># image_mset ItemBytes (mset ps)"
    using inv by (auto simp: lane_inv_def)
  obtain v c s where v: "try_recv (ln_ch ln) = Some (v, c)" "ln' = ln \<lparr> ln_ch := c, ln_lossy := s \<rparr>"
    "lossy_step (case v of Some b \<Rightarrow> EvItem lose lim now delay (ItemBytes b) | None \<Rightarrow> EvNil) (ln_lossy ln) = Inr s"
    using r by (auto simp: lane_receive_def bind_res_eq_Inr split: if_splits)
  have "mset (offered [case v of Some b \<Rightarrow> EvItem lose lim now delay (ItemBytes b) | None \<Rightarrow> EvNil]) + image_mset ItemBytes (mset (ch_items c))
      = image_mset ItemBytes (mset (ch_items (ln_ch ln)))"
    using v(1) by (cases v) (auto simp: try_recv_def split: list.splits if_splits)
  then show ?thesis using lossy_step_inv [OF g(1) v(3)] g(2) v(2)
    by (auto simp: lane_inv_def add.assoc)
qed

lemma lane_tick_inv: "lane_inv ps ln \<Longrightarrow> lane_tick nowMs acc ln = Some (Inr ln') \<Longrightarrow> lane_inv ps ln'"
  using lossy_step_inv [of _ "ln_lossy ln" "EvTick nowMs acc"]
  by (fastforce simp: lane_inv_def lane_tick_def bind_res_eq_Inr split: if_splits)

lemma lane_write_inv:
  assumes inv: "lane_inv ps ln" and w: "lane_WriteTo p ln = Inr (err, ln')"
  shows "lane_inv (ps @ [p]) ln'"
proof -
  obtain given where g: "lossy_inv given (ln_lossy ln)" "given + image_mset ItemBytes (mset (ch_items (ln_ch ln))) \<subseteq># image_mset ItemBytes (mset ps)"
    using inv by (auto simp: lane_inv_def)
  obtain c where c: "ln' = ln \<lparr> ln_ch := c \<rparr>" "ch_items c = ch_items (ln_ch ln) \<or> ch_items c = ch_items (ln_ch ln) @ [p]"
    using w by (auto simp: lane_WriteTo_def pair_WriteTo_def try_send_def bind_res_eq_Inr go_copy_short split: if_splits)
  have "given + image_mset ItemBytes (mset (ch_items c)) \<subseteq># image_mset ItemBytes (mset (ps @ [p]))"
    using c(2) g(2) by (elim disjE) (auto intro: subset_mset.order_trans)
  then show ?thesis using g(1) c(1) by (auto simp: lane_inv_def)
qed

lemma lane_close_inv: "lane_inv ps ln \<Longrightarrow> lane_Close ln = Inr ln' \<Longrightarrow> lane_inv ps ln'"
  by (auto simp: lane_inv_def lane_Close_def pair_Close_def close_chan_def bind_res_eq_Inr split: if_splits)

text \<open>What \<open>ReadFrom\<close> gives the receiving goroutine was written by the other end.\<close>

lemma lane_read_inv:
  assumes inv: "lane_inv ps l" and b: "length b = udpPacketSizeLimit" and r: "lane_ReadFrom b l = Some (Inr (n, err, b', l'))"
  shows "lane_inv ps l'" "err = None \<Longrightarrow> take (nat n) b' \<in> set ps \<and> length (take (nat n) b') \<le> udpPacketSizeLimit"
proof -
  consider (item) p where "ln_taken l < length (l_out (ln_lossy l))" "p \<in> set ps" "l_out (ln_lossy l) ! ln_taken l = ItemBytes p"
      "length p \<le> length b" "n = int (length p)" "b' = go_copy b p" "l' = l \<lparr> ln_taken := ln_taken l + 1 \<rparr>"
    | (eof) "err = Some ErrEOF" "l' = l"
  proof (cases "ln_taken l < length (l_out (ln_lossy l))")
    case True
    then obtain p where p: "p \<in> set ps" "l_out (ln_lossy l) ! ln_taken l = ItemBytes p" using lane_inv_item [OF inv] by blast
    then show ?thesis using that(1) [OF True p] r True
      by (auto simp: lane_ReadFrom_def pair_ReadFrom_def Let_def bind_res_eq_Inr split: if_splits)
  next
    case False
    then show ?thesis using that(2) r by (auto simp: lane_ReadFrom_def pair_ReadFrom_def Let_def bind_res_eq_Inr split: if_splits)
  qed
  then show "lane_inv ps l'" "err = None \<Longrightarrow> take (nat n) b' \<in> set ps \<and> length (take (nat n) b') \<le> udpPacketSizeLimit"
    using inv b by (cases; simp add: go_copy_short)+
qed

section \<open>The connections run as over a network\<close>

definition peer_inv :: "peer \<Rightarrow> bool" where
  "peer_inv e \<longleftrightarrow> sys_inv (e_sys e) \<and> e_sent e \<le> length (e_outs e) \<and> lane_inv (take (e_sent e) (e_outs e)) (e_lane e)"

lemma peer_inv_out: "peer_inv e \<Longrightarrow> mset (l_out (ln_lossy (e_lane e))) \<subseteq># image_mset ItemBytes (mset (e_outs e))"
proof -
  assume "peer_inv e"
  then have "mset (l_out (ln_lossy (e_lane e))) \<subseteq># image_mset ItemBytes (mset (take (e_sent e) (e_outs e)))"
    using lane_inv_out by (simp add: peer_inv_def)
  moreover have "mset (take (e_sent e) (e_outs e)) \<subseteq># mset (e_outs e)"
    by (metis append_take_drop_id mset_append mset_subset_eq_add_left)
  ultimately show ?thesis using image_mset_subseteq_mono subset_mset.order_trans by blast
qed

text \<open>What a step of an end does to its connection: nothing, or a step in which only \<open>ps\<close> arrive.\<close>

definition sys_move :: "link \<Rightarrow> bytes set \<Rightarrow> csys \<Rightarrow> csys \<Rightarrow> bool" where
  "sys_move wt ps x x' \<longleftrightarrow> x' = x \<or> (\<exists>op. conn_op_ok op x \<and> arrives op \<subseteq> ps \<and> conn_exec wt op x = Some (Inr x'))"

lemma sys_move_outs:
  assumes "sys_move wt ps x x'" "sys_inv x"
  shows "sys_inv x'" "prefix (outputs (x_kcp x)) (outputs (x_kcp x'))"
proof -
  have "sys_inv x' \<and> prefix (outputs (x_kcp x)) (outputs (x_kcp x'))"
  proof (cases "x' = x")
    case False
    then obtain op where "conn_op_ok op x" "conn_exec wt op x = Some (Inr x')" using assms(1) by (auto simp: sys_move_def)
    then have r: "refines (arrives op) x x'" using conn_exec_refines assms(2) by (simp add: sys_inv_def)
    then show ?thesis using path_outputs conn_inv_sel(1) assms(2) unfolding refines_def sys_inv_def by blast
  qed (use assms in simp)
  then show "sys_inv x'" "prefix (outputs (x_kcp x)) (outputs (x_kcp x'))" by simp_all
qed

lemma peer_inv_move:
  assumes inv: "peer_inv e" and m: "sys_move wt ps (e_sys e) x" and ln: "lane_inv (take (e_sent e) (e_outs e)) ln"
  shows "peer_inv (e \<lparr> e_sys := x, e_lane := ln \<rparr>)"
proof -
  have p: "sys_inv x" "prefix (e_outs e) (outputs (x_kcp x))" using sys_move_outs [OF m] inv by (simp_all add: peer_inv_def)
  have "take (e_sent e) (outputs (x_kcp x)) = take (e_sent e) (e_outs e)"
    using p(2) inv by (auto simp: prefix_def peer_inv_def)
  then show ?thesis using p inv ln prefix_length_le [OF p(2)] by (simp add: peer_inv_def)
qed

lemma peer_exec_inv:
  assumes inv: "peer_inv e" and l: "lane_inv ps l" and ok: "peer_op_ok op e" and e: "peer_exec wt op e l = Some (Inr (e', l'))"
  shows "sys_move wt (set ps) (e_sys e) (e_sys e') \<and> peer_inv e' \<and> lane_inv ps l'"
proof -
  note ln = inv [unfolded peer_inv_def]
  have same: "sys_move wt (set ps) x x" for x by (simp add: sys_move_def)
  show ?thesis
  proof (cases op)
    case (PConn cop)
    then obtain x where x: "conn_exec wt cop (e_sys e) = Some (Inr x)" "e' = e \<lparr> e_sys := x \<rparr>" "l' = l" "\<not> is_udp cop"
      using e by (auto simp: bind_res_eq_Inr split: if_splits)
    have "sys_move wt (set ps) (e_sys e) x"
      using x(1,4) ok PConn by (cases cop) (auto simp: sys_move_def intro!: exI [of _ cop])
    then show ?thesis using peer_inv_move [OF inv, of wt "set ps" x "e_lane e"] x l ln by simp
  next
    case PFinish
    obtain r s where rs: "run_finish (x_run (e_sys e)) (x_conn (e_sys e)) = (r, s)" by (cases "run_finish (x_run (e_sys e)) (x_conn (e_sys e))")
    then obtain c where x: "lane_Close (e_lane e) = Inr c" "run_finish (x_run (e_sys e)) (x_conn (e_sys e)) = (r, s)" "l' = l"
      "e' = e \<lparr> e_sys := (with_conn s (e_sys e)) \<lparr> x_run := r \<rparr>, e_lane := c \<rparr>" "r_pc (x_run (e_sys e)) = Finishing"
      using e PFinish by (auto simp: bind_res_eq_Inr split: if_splits)
    have "conn_exec wt (CRun 0 0 EvUdp) (e_sys e) = Some (Inr ((with_conn s (e_sys e)) \<lparr> x_run := r \<rparr>))"
      using x(2,5) by (simp add: run_step_def)
    then have m: "sys_move wt (set ps) (e_sys e) (e_sys e')" using x(4) by (auto simp: sys_move_def intro!: exI [of _ "CRun 0 0 EvUdp"])
    then show ?thesis using peer_inv_move [OF inv, of wt "set ps" _ c] x(3,4) l lane_close_inv [OF _ x(1)] ln by simp
  next
    case POutput
    then obtain err c where x: "e_sent e < length (e_outs e)" "lane_WriteTo (e_outs e ! e_sent e) (e_lane e) = Inr (err, c)"
      "e' = e \<lparr> e_sent := e_sent e + 1, e_lane := c \<rparr>" "l' = l"
      using e by (auto simp: Let_def split: if_splits sum.splits)
    then have "lane_inv (take (e_sent e + 1) (e_outs e)) c"
      using lane_write_inv [OF _ x(2)] ln by (simp add: take_Suc_conv_app_nth)
    then show ?thesis using x l ln same by (simp add: peer_inv_def)
  next
    case (PRecv b u)
    then obtain n err b' more s where x: "lane_ReadFrom b l = Some (Inr (n, err, b', l'))"
      "client_recv (if err = None then RecvOk (take (nat n) b') else RecvErr) u (x_conn (e_sys e)) = Some (Inr (more, s))"
      "e' = e \<lparr> e_sys := with_conn s (e_sys e), e_recv := more \<rparr>"
      using e by (auto simp: bind_res_eq_Inr split: if_splits option.splits sum.splits prod.splits)
    have b: "length b = udpPacketSizeLimit" using ok PRecv by simp
    note r = lane_read_inv [OF l b x(1)]
    have "conn_exec wt (CUdp (if err = None then RecvOk (take (nat n) b') else RecvErr) u) (e_sys e) = Some (Inr (with_conn s (e_sys e)))"
      using x(2) by simp
    then have "sys_move wt (set ps) (e_sys e) (with_conn s (e_sys e))"
      using r(2) unfolding sys_move_def
      by (intro disjI2 exI [of _ "CUdp (if err = None then RecvOk (take (nat n) b') else RecvErr) u"] conjI) (auto split: if_splits)
    then show ?thesis using peer_inv_move [OF inv, of wt "set ps" "with_conn s (e_sys e)" "e_lane e"] x(3) r(1) ln
      by (simp add: peer_inv_def)
  next
    case (PItem a b c d)
    then show ?thesis using e l ln same lane_receive_inv by (auto simp: bind_res_eq_Inr peer_inv_def)
  next
    case (PTick t acc)
    then show ?thesis using e l ln same lane_tick_inv by (auto simp: bind_res_eq_Inr peer_inv_def)
  qed
qed

lemma socket_conn_init: "socket_conn x \<Longrightarrow> sys_init x"
  by (auto simp: socket_conn_def sys_init_def)

text \<open>Both directions: what one end has received was handed out by the other.\<close>

definition lnet_inv :: "link \<Rightarrow> link \<Rightarrow> lnet \<Rightarrow> bool" where
  "lnet_inv wt1 wt2 s \<longleftrightarrow> peer_inv (n_1 s) \<and> peer_inv (n_2 s) \<and>
     reachable pair_init (pair_step wt1 wt2) \<lparr> p_a = e_sys (n_1 s), p_b = e_sys (n_2 s) \<rparr> \<and>
     reachable pair_init (pair_step wt2 wt1) \<lparr> p_a = e_sys (n_2 s), p_b = e_sys (n_1 s) \<rparr>"

lemma pair_move:
  assumes "reachable pair_init (pair_step wta wtb) \<lparr> p_a = x, p_b = y \<rparr>"
  shows "sys_move wta ps x x' \<Longrightarrow> reachable pair_init (pair_step wta wtb) \<lparr> p_a = x', p_b = y \<rparr>"
    "sys_move wtb ps y y' \<Longrightarrow> ps \<subseteq> set (outputs (x_kcp x)) \<Longrightarrow> reachable pair_init (pair_step wta wtb) \<lparr> p_a = x, p_b = y' \<rparr>"
proof -
  show "reachable pair_init (pair_step wta wtb) \<lparr> p_a = x', p_b = y \<rparr>" if "sys_move wta ps x x'"
    using that assms reach_step [OF assms pair_step.first] unfolding sys_move_def by fastforce
  show "reachable pair_init (pair_step wta wtb) \<lparr> p_a = x, p_b = y' \<rparr>" if "sys_move wtb ps y y'" "ps \<subseteq> set (outputs (x_kcp x))"
    using that assms reach_step [OF assms pair_step.second] unfolding sys_move_def by fastforce
qed

interpretation lnet: invariant_system lnet_init "lnet_step wt1 wt2" "lnet_inv wt1 wt2" for wt1 wt2
proof
  show "lnet_inv wt1 wt2 s" if i: "lnet_init s" for s
  proof -
    obtain sz now1 now2 c1 c2 where s: "sys_init c1" "sys_init c2" "s = NewLossyPairConn sz now1 now2 c1 c2"
      using i socket_conn_init unfolding lnet_init_def by blast
    then show ?thesis using conn.init_inv lane0_inv
      by (auto simp: lnet_inv_def NewLossyPairConn_def peer_inv_def pair_init_def intro!: reach_init)
  qed
  show "lnet_inv wt1 wt2 s'" if inv: "lnet_inv wt1 wt2 s" and st: "lnet_step wt1 wt2 s s'" for s s'
    using st
  proof cases
    case (one op e l)
    have m: "sys_move wt1 (set (take (e_sent (n_2 s)) (e_outs (n_2 s)))) (e_sys (n_1 s)) (e_sys e)" "peer_inv e"
      "lane_inv (take (e_sent (n_2 s)) (e_outs (n_2 s))) l"
      using peer_exec_inv [OF _ _ one(2,3)] inv by (auto simp: lnet_inv_def peer_inv_def)
    then show ?thesis using one(1) inv pair_move(1) [OF _ m(1)] pair_move(2) [OF _ m(1) set_take_subset]
      by (simp add: lnet_inv_def peer_inv_def)
  next
    case (two op e l)
    have m: "sys_move wt2 (set (take (e_sent (n_1 s)) (e_outs (n_1 s)))) (e_sys (n_2 s)) (e_sys e)" "peer_inv e"
      "lane_inv (take (e_sent (n_1 s)) (e_outs (n_1 s))) l"
      using peer_exec_inv [OF _ _ two(2,3)] inv by (auto simp: lnet_inv_def peer_inv_def)
    then show ?thesis using two(1) inv pair_move(1) [OF _ m(1)] pair_move(2) [OF _ m(1) set_take_subset]
      by (simp add: lnet_inv_def peer_inv_def)
  qed
qed


section \<open>A run\<close>

text \<open>A fresh lane without loss, delay or limit hands its first packet over.\<close>

lemma lane_carries:
  assumes "0 < sz" "length p \<le> length b"
  shows "\<exists>l1 l2 l3 l4. lane_WriteTo p (lane0 sz now) = Inr (None, l1) \<and> lane_receive False 0 t 0 l1 = Some (Inr l2) \<and>
    lane_tick now (\<lambda>_. 1) l2 = Some (Inr l3) \<and> lane_ReadFrom b l3 = Some (Inr (int (length p), None, p @ drop (length p) b, l4))"
  using assms
  by (simp add: lane_WriteTo_def lane0_def pair_WriteTo_def try_send_def make_chan_def go_copy_short lane_receive_def try_recv_def
      lossy_item_in_def lossy0_def speed_check_def go_mod_nonneg ring_size_def lane_tick_def lossy_ended_def lossy_tick_def
      lane_ReadFrom_def pair_ReadFrom_def Let_def)

fun conn_moves :: "link \<Rightarrow> conn_op list \<Rightarrow> csys \<Rightarrow> csys option" where
  "conn_moves wt [] x = Some x"
| "conn_moves wt (op # ops) x =
     (if conn_op_ok op x \<and> \<not> is_udp op \<and> \<not> finishes op x
      then (case conn_exec wt op x of Some (Inr x') \<Rightarrow> conn_moves wt ops x' | _ \<Rightarrow> None) else None)"

lemma lnet_moves:
  shows "reachable lnet_init (lnet_step wt1 wt2) \<lparr> n_1 = a, n_2 = b \<rparr> \<Longrightarrow> conn_moves wt1 ops (e_sys a) = Some x \<Longrightarrow>
      reachable lnet_init (lnet_step wt1 wt2) \<lparr> n_1 = a \<lparr> e_sys := x \<rparr>, n_2 = b \<rparr>"
    "reachable lnet_init (lnet_step wt1 wt2) \<lparr> n_1 = a, n_2 = b \<rparr> \<Longrightarrow> conn_moves wt2 ops (e_sys b) = Some x \<Longrightarrow>
      reachable lnet_init (lnet_step wt1 wt2) \<lparr> n_1 = a, n_2 = b \<lparr> e_sys := x \<rparr> \<rparr>"
proof -
  show "reachable lnet_init (lnet_step wt1 wt2) \<lparr> n_1 = a, n_2 = b \<rparr> \<Longrightarrow> conn_moves wt1 ops (e_sys a) = Some x \<Longrightarrow>
      reachable lnet_init (lnet_step wt1 wt2) \<lparr> n_1 = a \<lparr> e_sys := x \<rparr>, n_2 = b \<rparr>"
  proof (induction ops arbitrary: a)
    case Nil
    then show ?case by (cases a) simp
  next
    case (Cons op ops)
    then obtain y where y: "conn_op_ok op (e_sys a)" "\<not> is_udp op" "\<not> finishes op (e_sys a)" "conn_exec wt1 op (e_sys a) = Some (Inr y)"
      "conn_moves wt1 ops y = Some x" by (auto split: if_splits option.splits sum.splits)
    then show ?case using reach_step [OF Cons.prems(1) lnet_step.one [of "PConn op" _ wt1 "a \<lparr> e_sys := y \<rparr>" "e_lane b"]]
        Cons.IH [of "a \<lparr> e_sys := y \<rparr>"] by simp
  qed
  show "reachable lnet_init (lnet_step wt1 wt2) \<lparr> n_1 = a, n_2 = b \<rparr> \<Longrightarrow> conn_moves wt2 ops (e_sys b) = Some x \<Longrightarrow>
      reachable lnet_init (lnet_step wt1 wt2) \<lparr> n_1 = a, n_2 = b \<lparr> e_sys := x \<rparr> \<rparr>"
  proof (induction ops arbitrary: b)
    case Nil
    then show ?case by (cases b) simp
  next
    case (Cons op ops)
    then obtain y where y: "conn_op_ok op (e_sys b)" "\<not> is_udp op" "\<not> finishes op (e_sys b)" "conn_exec wt2 op (e_sys b) = Some (Inr y)"
      "conn_moves wt2 ops y = Some x" by (auto split: if_splits option.splits sum.splits)
    then show ?case using reach_step [OF Cons.prems(1) lnet_step.two [of "PConn op" _ wt2 "b \<lparr> e_sys := y \<rparr>" "e_lane a"]]
        Cons.IH [of "b \<lparr> e_sys := y \<rparr>"] by simp
  qed
qed

text \<open>A packet goes from the first end to the second.\<close>

lemma lnet_carries:
  assumes r: "reachable lnet_init (lnet_step wt1 wt2) \<lparr> n_1 = \<lparr> e_sys = x, e_recv = ra, e_sent = 0, e_lane = lane0 sz now \<rparr>,
      n_2 = \<lparr> e_sys = y, e_recv = True, e_sent = sb, e_lane = lb \<rparr> \<rparr>"
    and p: "outputs (x_kcp x) = p # ps" "wt1 0 p" "length p \<le> udpPacketSizeLimit" "0 < sz"
    and u: "conn_exec wt2 (CUdp (RecvOk p) False) y = Some (Inr y')"
  shows "\<exists>l rb. reachable lnet_init (lnet_step wt1 wt2) \<lparr> n_1 = \<lparr> e_sys = x, e_recv = ra, e_sent = 1, e_lane = l \<rparr>,
      n_2 = \<lparr> e_sys = y', e_recv = rb, e_sent = sb, e_lane = lb \<rparr> \<rparr>"
proof -
  obtain b :: bytes where b: "length b = udpPacketSizeLimit" using length_replicate [of udpPacketSizeLimit "0 :: u8"] by (rule that)
  then have "length p \<le> length b" using p(3) by simp
  from lane_carries [OF p(4) this] obtain l1 l2 l3 l4 where l: "lane_WriteTo p (lane0 sz now) = Inr (None, l1)"
    "lane_receive False 0 0 0 l1 = Some (Inr l2)" "lane_tick now (\<lambda>_. 1) l2 = Some (Inr l3)"
    "lane_ReadFrom b l3 = Some (Inr (int (length p), None, p @ drop (length p) b, l4))" by meson
  obtain rb s where u': "client_recv (RecvOk p) False (x_conn y) = Some (Inr (rb, s))" "y' = with_conn s y"
    using u by (auto simp: bind_res_eq_Inr)
  let ?n = "\<lambda>k la y rb. \<lparr> n_1 = \<lparr> e_sys = x, e_recv = ra, e_sent = k, e_lane = la \<rparr>, n_2 = \<lparr> e_sys = y, e_recv = rb, e_sent = sb, e_lane = lb \<rparr> \<rparr>"
  have s1: "lnet_step wt1 wt2 (?n 0 (lane0 sz now) y True) (?n 1 l1 y True)"
    using lnet_step.one [of POutput "?n 0 (lane0 sz now) y True" wt1 _ lb wt2] p(1,2) l(1) by simp
  have s2: "lnet_step wt1 wt2 (?n 1 l1 y True) (?n 1 l2 y True)"
    using lnet_step.one [of "PItem False 0 0 0" "?n 1 l1 y True" wt1 _ lb wt2] l(2) by simp
  have s3: "lnet_step wt1 wt2 (?n 1 l2 y True) (?n 1 l3 y True)"
    using lnet_step.one [of "PTick now (\<lambda>_. 1)" "?n 1 l2 y True" wt1 _ lb wt2] l(3) by simp
  have "peer_exec wt2 (PRecv b False) \<lparr> e_sys = y, e_recv = True, e_sent = sb, e_lane = lb \<rparr> l3
      = Some (Inr (\<lparr> e_sys = with_conn s y, e_recv = rb, e_sent = sb, e_lane = lb \<rparr>, l4))"
    using l(4) u'(1) by simp
  then have s4: "lnet_step wt1 wt2 (?n 1 l3 y True) (?n 1 l4 (with_conn s y) rb)"
    using lnet_step.two [of "PRecv b False" "?n 1 l3 y True" wt2 _ l4 wt1] b by simp
  from reach_step [OF reach_step [OF reach_step [OF reach_step [OF r s1] s2] s3] s4] show ?thesis unfolding u'(2) by blast
qed

text \<open>
  The client's handshake goes through its lane and opens the other connection, which then writes
  three bytes.
\<close>

lemma demo_client_run:
  "map_option (\<lambda>x. (outputs (x_kcp x), x_used x)) (conn_moves link_up [CConnect 0, CRun 0 0 EvTimer] (client_conn 7 ''a''))
   = Some ([handshake], 1)"
  by code_simp

lemma demo_direct_run:
  "map_option (\<lambda>x. (x_written x, x_used x))
     (case conn_exec link_up (CUdp (RecvOk handshake) False) (direct_conn 7 ''b'') of
        Some (Inr x) \<Rightarrow> conn_moves link_up [CRun 0 0 EvUdp, CRun 0 0 EvUdp, CWriteCall [1, 2, 3], CWriteRound 0] x
      | _ \<Rightarrow> None) = Some ([1, 2, 3], 1)"
  by code_simp

lemma demo_lnet:
  "\<exists>s :: lnet. reachable lnet_init (lnet_step link_up link_up) s \<and> x_written (e_sys (n_2 s)) = [1, 2, 3] \<and> x_used (e_sys (n_2 s)) = 1 \<and>
     e_sent (n_1 s) = 1"
proof -
  let ?a = "\<lparr> e_sys = client_conn 7 ''a'', e_recv = True, e_sent = 0, e_lane = lane0 16 0 \<rparr>"
  let ?b = "\<lparr> e_sys = direct_conn 7 ''b'', e_recv = True, e_sent = 0, e_lane = lane0 16 0 \<rparr>"
  obtain x where x: "conn_moves link_up [CConnect 0, CRun 0 0 EvTimer] (client_conn 7 ''a'') = Some x" "outputs (x_kcp x) = [handshake]"
    using demo_client_run unfolding map_option_eq_Some by auto
  obtain y where y: "conn_exec link_up (CUdp (RecvOk handshake) False) (direct_conn 7 ''b'') = Some (Inr y)"
    "map_option (\<lambda>x. (x_written x, x_used x)) (conn_moves link_up [CRun 0 0 EvUdp, CRun 0 0 EvUdp, CWriteCall [1, 2, 3], CWriteRound 0] y)
       = Some ([1, 2, 3], 1)"
    using demo_direct_run by (auto split: option.splits sum.splits)
  then obtain z where z: "conn_moves link_up [CRun 0 0 EvUdp, CRun 0 0 EvUdp, CWriteCall [1, 2, 3], CWriteRound 0] y = Some z"
    "x_written z = [1, 2, 3]" "x_used z = 1" unfolding map_option_eq_Some by blast
  have "lnet_init \<lparr> n_1 = ?a, n_2 = ?b \<rparr>"
    unfolding lnet_init_def socket_conn_def NewLossyPairConn_def by blast
  note r = reach_init [of lnet_init, OF this]
  have r1: "reachable lnet_init (lnet_step link_up link_up) \<lparr> n_1 = ?a \<lparr> e_sys := x \<rparr>, n_2 = ?b \<rparr>"
    by (rule lnet_moves(1) [OF r, where ops = "[CConnect 0, CRun 0 0 EvTimer]"]) (simp only: peer.simps x(1))
  obtain l rb where r2: "reachable lnet_init (lnet_step link_up link_up) \<lparr> n_1 = \<lparr> e_sys = x, e_recv = True, e_sent = 1, e_lane = l \<rparr>,
      n_2 = \<lparr> e_sys = y, e_recv = rb, e_sent = 0, e_lane = lane0 16 0 \<rparr> \<rparr>"
    using lnet_carries [of link_up link_up x True 16 0 "direct_conn 7 ''b''" 0 "lane0 16 0" handshake "[]" y, OF _ x(2) _ _ _ y(1)] r1
    by (auto simp: link_up_def handshake_def udpPacketSizeLimit_def)
  have "reachable lnet_init (lnet_step link_up link_up) \<lparr> n_1 = \<lparr> e_sys = x, e_recv = True, e_sent = 1, e_lane = l \<rparr>,
      n_2 = \<lparr> e_sys = y, e_recv = rb, e_sent = 0, e_lane = lane0 16 0 \<rparr> \<lparr> e_sys := z \<rparr> \<rparr>"
    by (rule lnet_moves(2) [OF r2, where ops = "[CRun 0 0 EvUdp, CRun 0 0 EvUdp, CWriteCall [1, 2, 3], CWriteRound 0]"])
      (simp only: peer.simps z(1))
  then show ?thesis using z(2,3) by (intro exI conjI) (assumption, simp_all)
qed

end
