(* ===== verification/Kcp_Progress.thy ===== *)
theory Kcp_Progress
  imports Kcp_Delivery
begin

text \<open>
  Progress of the protocol: a segment that is due leaves with the next flush, and the packet that
  carries it, once it arrives, takes the receiver past the segment it was waiting for. Together with
  the schedule of flushes this is why a lost packet only delays the stream. The last section is about a
  segment that is next but stays in the reorder buffer until a \<open>PUSH\<close> arrives.
\<close>

section \<open>Frames can be told apart\<close>

definition frame_of :: "segment \<Rightarrow> header \<times> bytes" where
  "frame_of s = (seg_header s, s_data s)"

lemma wire_split:
  assumes "wire s @ x = wire t @ y" "length (s_data s) < 2 ^ 32" "length (s_data t) < 2 ^ 32"
  shows "frame_of s = frame_of t" "x = y"
proof -
  have "decode_header (wire s @ x) = Inr (seg_header s, s_data s @ x)" for s x
    using decode_header_bytes [of "seg_header s" "s_data s @ x"] by (simp add: wire_def)
  then have h: "seg_header s = seg_header t" "s_data s @ x = s_data t @ y" using assms(1) by (metis Inr_inject prod.inject)+
  then have "(of_nat (length (s_data s)) :: u32) = of_nat (length (s_data t))" by (simp add: seg_header_def)
  then have "length (s_data s) = length (s_data t)" using of_nat_u32_inj assms(2,3) by blast
  then show "frame_of s = frame_of t" "x = y" using h by (simp_all add: frame_of_def)
qed

lemma wire_ne [simp]: "wire s \<noteq> []"
proof
  assume "wire s = []"
  then have "length (wire s) = 0" by simp
  then show False unfolding length_wire by (simp add: IKCP_OVERHEAD_def)
qed

lemma wires_unique:
  assumes "concat (map wire ss) = concat (map wire ts)" "\<forall>s \<in> set ss \<union> set ts. length (s_data s) < 2 ^ 32"
  shows "map frame_of ss = map frame_of ts"
  using assms
proof (induction ss arbitrary: ts)
  case Nil
  then show ?case using Nil.prems(1) by (cases ts) auto
next
  case (Cons s ss)
  show ?case
  proof (cases ts)
    case Nil
    then show ?thesis using Cons.prems(1) by simp
  next
    case (Cons t ts')
    note w = wire_split [of s "concat (map wire ss)" t "concat (map wire ts')"]
    show ?thesis using w Cons.IH [of ts'] Cons.prems Cons by simp
  qed
qed

lemma frames_pkts:
  assumes "\<forall>p \<in> set pkts. frames P p"
  shows "\<exists>sss. pkts = map (\<lambda>ss. concat (map wire ss)) sss \<and> (\<forall>ss \<in> set sss. \<forall>s \<in> set ss. P s)"
  using assms
proof (induction pkts)
  case (Cons p pkts)
  then obtain ss sss where "p = concat (map wire ss)" "\<forall>s \<in> set ss. P s"
    "pkts = map (\<lambda>ss. concat (map wire ss)) sss" "\<forall>ss \<in> set sss. \<forall>s \<in> set ss. P s"
    by (auto simp: frames_def)
  then show ?case by (intro exI [of _ "ss # sss"]) simp
qed simp

lemma concat_frames: "concat (map wire (concat sss)) = concat (map (\<lambda>ss. concat (map wire ss)) sss)"
  by (induction sss) simp_all

section \<open>A segment that is due is in a packet\<close>

lemma inflight_size:
  assumes inv: "kcp_inv k" and i: "i \<in> set (flush_idents k)"
  shows "length (idata i) < 2 ^ 32"
proof -
  have "idata i \<in> set (map idata (flush_idents k))" using i by simp
  also have "map idata (flush_idents k) = map s_data (snd_buf k) @ map s_data (take (flush_count k) (snd_queue k))"
    by (simp add: flush_idents_def comp_def idata_stamps)
  finally have "\<exists>s \<in> set (snd_buf k) \<union> set (snd_queue k). s_data s = idata i"
    by (fastforce dest: in_set_takeD)
  moreover have "int (IKCP_OVERHEAD + length (s_data s)) \<le> mtu k \<and> mtu k \<le> int (IKCP_OVERHEAD + udpPacketSizeLimit)"
    if "s \<in> set (snd_buf k) \<union> set (snd_queue k)" for s
    using inv that by (auto simp: kcp_inv_def flush_pre_def cfg_inv_def)
  ultimately have "int (length (idata i)) \<le> int udpPacketSizeLimit" by fastforce
  then show ?thesis by (simp add: udpPacketSizeLimit_def)
qed

lemma flush_carries:
  assumes inv: "kcp_inv k" and fl: "flush current k = Inr k'" and s: "s \<in> set (snd_buf k)" "due_now current s"
  shows "\<exists>pkts p ss x. outputs k' = outputs k @ pkts \<and> p \<in> set pkts \<and> p = concat (map wire ss) \<and>
    (\<forall>t \<in> set ss. ctl (conv k) t \<or> ident t \<in> set (flush_idents k)) \<and>
    x \<in> set ss \<and> s_sn x = s_sn s \<and> h_cmd (seg_header x) = h_cmd (seg_header s) \<and> s_data x = s_data s"
proof -
  let ?P = "\<lambda>t. ctl (conv k) t \<or> ident t \<in> set (flush_idents k)"
  obtain pkts where o: "outputs k' = outputs k @ pkts" "\<forall>p \<in> set pkts. pkt_ok ?P (mtu k) p"
    using flush_ok [of k current] inv fl by (auto simp: kcp_inv_def flush_idents_def)
  then obtain sss where sss: "pkts = map (\<lambda>ss. concat (map wire ss)) sss" "\<forall>ss \<in> set sss. \<forall>t \<in> set ss. ?P t"
    using frames_pkts [of pkts ?P] by (auto simp: pkt_ok_def)
  let ?acks = "map (ack_seg (flush_template k)) (ack_sel (rcv_nxt k) (acklist k))"
  have "snd_inv k" "\<forall>s \<in> set (snd_queue k). s_xmit s = 0" using inv by (simp_all add: kcp_inv_def queued_ok_def)
  from flush_log [OF this fl] obtain ws where ws: "concat (outputs k') = concat (outputs k) @ concat (map wire (?acks @ ws))"
    "ident ` {s \<in> set (snd_buf k). due_now current s} \<subseteq> ident ` set ws"
    "\<forall>w \<in> set ws. s_data w = [] \<or> ident w \<in> set (flush_idents k)" by blast
  have ctl: "\<forall>w \<in> set ?acks. s_data w = []" by (simp add: ack_seg_def flush_template_def segment0_def)
  have small: "length (s_data w) < 2 ^ 32" if "ident w \<in> set (flush_idents k)" for w
    using inflight_size [OF inv that] by simp
  have "concat (map wire (?acks @ ws)) = concat (map wire (concat sss))"
    using ws(1) o(1) sss(1) by (simp add: concat_frames del: map_concat)
  then have "map frame_of (?acks @ ws) = map frame_of (concat sss)"
    using ws(3) ctl sss(2) small by (intro wires_unique) (fastforce simp: ctl_def)+
  then have same: "frame_of ` set ws \<subseteq> frame_of ` set (concat sss)" by (metis Un_upper2 image_Un list.set_map set_append)
  obtain w where w: "w \<in> set ws" "ident w = ident s" using ws(2) s by fastforce
  then obtain ss x where x: "ss \<in> set sss" "x \<in> set ss" "frame_of x = frame_of w" using same by fastforce
  then have "s_sn x = s_sn s" "h_cmd (seg_header x) = h_cmd (seg_header s)" "s_data x = s_data s"
    using w(2) by (auto simp: frame_of_def seg_header_def ident_def)
  then show ?thesis using o(1) sss x(1,2)
    by (intro exI [of _ pkts] exI [of _ "concat (map wire ss)"] exI [of _ ss] exI [of _ x]) simp
qed

section \<open>The segment the receiver waits for\<close>

lemma filed_head:
  assumes inv: "rcv_inv k" and clean: "\<forall>s \<in> set (rcv_buf k). s_sn s = 0 \<longrightarrow> rcv_nxt k \<noteq> 1"
    and s: "rcv_nxt k \<in> s_sn ` set (rcv_buf k)"
  shows "rcv_buf k \<noteq> []" "s_sn (hd (rcv_buf k)) = rcv_nxt k"
proof -
  show ne: "rcv_buf k \<noteq> []" using s by auto
  obtain t where t: "t \<in> set (rcv_buf k)" "s_sn t = rcv_nxt k" using s by auto
  then have rt: "roff k t = 1" by (simp add: roff_def soff_def)
  have "roff k (hd (rcv_buf k)) \<le> roff k t"
  proof -
    obtain j where "j < length (rcv_buf k)" "t = rcv_buf k ! j" using t(1) by (auto simp: in_set_conv_nth)
    then show ?thesis
      using inv sorted_wrt_nth_less [of "(<)" "map (roff k) (rcv_buf k)" 0 j] ne
      by (cases "j = 0") (auto simp: rcv_inv_def hd_conv_nth)
  qed
  moreover have "roff k (hd (rcv_buf k)) \<noteq> 0"
  proof
    assume z: "roff k (hd (rcv_buf k)) = 0"
    then have "rcv_nxt k = 1" using inv hd_in_set [OF ne] by (auto simp: rcv_inv_def)
    moreover have "s_sn (hd (rcv_buf k)) = rcv_nxt k - 1" using z by (auto simp: roff_def soff_eq_0)
    ultimately show False using clean ne by auto
  qed
  ultimately have "roff k (hd (rcv_buf k)) = roff k t" using rt by simp
  then show "s_sn (hd (rcv_buf k)) = rcv_nxt k" using t(2) by (simp add: roff_def soff_inject)
qed

text \<open>
  \<open>past n hist k k'\<close>: the receiver has gone on from segment \<open>n\<close> of the history to one not before it;
  as long as it stays at \<open>n\<close> its receive queue is as it was.
\<close>

definition past :: "nat \<Rightarrow> ident list \<Rightarrow> KCP \<Rightarrow> nat \<Rightarrow> KCP \<Rightarrow> bool" where
  "past n hist k n' k' \<longleftrightarrow> n \<le> n' \<and> n' \<le> length hist \<and> rcv_nxt k' = of_nat n' \<and> rcv_wnd k' = rcv_wnd k \<and>
     (n' = n \<longrightarrow> rcv_queue k' = rcv_queue k)"

lemma parse_data_past:
  assumes h: "length hist < 2 ^ 32" and r: "rcv_hist hist k g" and inv: "rcv_inv k"
    and s: "i < length hist" "s_sn s = of_nat i" "s_data s = idata (hist ! i)" "icmd (hist ! i) \<noteq> IKCP_CMD_CONNECT"
    and n: "rcv_nxt k = of_nat n" "n \<le> length hist"
  shows "\<exists>n'. past n hist k n' (parse_data s k) \<and>
    (i = n \<and> length (rcv_queue k) < unat (rcv_wnd k) \<longrightarrow> n < n')"
proof (cases "soff (rcv_nxt k) (s_sn s) < unat (rcv_wnd k)")
  case win: True
  have w: "unat (rcv_wnd k) < 2 ^ 31" using inv by (simp add: rcv_inv_def)
  define q where "q = rcv_filed s k"
  note f = rcv_filed_fields [OF inv win, folded q_def]
  have rq: "rcv_hist hist q g" "rcv_inv q"
    using rcv_hist_filed [OF h r inv s win] rcv_filed_inv [OF inv win] by (simp_all add: q_def)
  define c where "c = ready_count (rcv_buf q) (rcv_nxt q) (length (rcv_queue q) < unat (rcv_wnd q))"
  have "n + c \<le> length hist"
    using ready_bytes [OF h n(2), of "rcv_buf q"] rq(1) f n(1) unfolding c_def rcv_hist_def by simp
  moreover have p: "parse_data s k = move_ready q" using win parse_data_eq [OF w, of s] by (simp add: q_def)
  have "rcv_nxt (move_ready q) = of_nat (n + c)" "rcv_queue (move_ready q) = rcv_queue k @ take c (rcv_buf q)"
    "rcv_wnd (move_ready q) = rcv_wnd k"
    using f n(1) by (simp_all add: move_ready_def Let_def c_def)
  moreover have "0 < c" if "i = n" "length (rcv_queue k) < unat (rcv_wnd k)"
  proof -
    have "rcv_nxt q \<in> s_sn ` set (rcv_buf q)" using f that(1) s(2) n(1) by (auto split: if_splits)
    moreover have "\<forall>s \<in> set (rcv_buf q). s_sn s = 0 \<longrightarrow> rcv_nxt q \<noteq> 1" using rq(1) by (simp add: rcv_hist_def)
    ultimately have "rcv_buf q \<noteq> []" "s_sn (hd (rcv_buf q)) = rcv_nxt q" using filed_head [OF rq(2)] by blast+
    then show ?thesis using that(2) f by (cases "rcv_buf q") (auto simp: c_def)
  qed
  ultimately show ?thesis unfolding p past_def by (intro exI [of _ "n + c"]) simp
next
  case False
  have "i \<noteq> n \<or> \<not> 0 < unat (rcv_wnd k)" using False s(2) n(1) by auto
  moreover have "parse_data s k = k" using False inv parse_data_eq [of k s] by (simp add: rcv_inv_def)
  ultimately show ?thesis using n by (intro exI [of _ n]) (auto simp: past_def)
qed


lemma past_refl: "rcv_nxt k = of_nat n \<Longrightarrow> n \<le> length hist \<Longrightarrow> rcv_view k' = rcv_view k \<Longrightarrow> rcv_wnd k' = rcv_wnd k \<Longrightarrow> past n hist k n k'"
  by (simp add: past_def rcv_view_def)

lemma push_past:
  assumes h: "hist_ok cv hist" and r: "rcv_hist hist k g" and inv: "rcv_inv k"
    and s: "i < length hist" "s_sn s = of_nat i" "s_data s = idata (hist ! i)" "length (s_data s) < 2 ^ 32"
      "icmd (hist ! i) \<noteq> IKCP_CMD_CONNECT"
    and p: "input_push (seg_header s) (s_data s @ rest) k = Inr k'" and n: "rcv_nxt k = of_nat n" "n \<le> length hist"
  shows "\<exists>n'. past n hist k n' k' \<and> (i = n \<and> length (rcv_queue k) < unat (rcv_wnd k) \<longrightarrow> n < n')"
proof -
  let ?q = "ack_push (h_sn (seg_header s)) (h_ts (seg_header s)) k"
  have len: "unat (h_len (seg_header s)) = length (s_data s)"
    using s(4) by (simp add: seg_header_def unat_of_nat)
  have win: "itimediff (s_sn s) (rcv_nxt k + rcv_wnd k) < 0 \<and> itimediff (s_sn s) (rcv_nxt k) \<ge> 0"
    if "i = n" "length (rcv_queue k) < unat (rcv_wnd k)"
  proof -
    have "unat (rcv_wnd k) < 2 ^ 31" "soff (rcv_nxt k) (s_sn s) < unat (rcv_wnd k)"
      using inv that s(2) n(1) by (simp_all add: rcv_inv_def)
    then show ?thesis using parse_data_window [of k "s_sn s"] by auto
  qed
  consider "k' \<in> {seg_repeat k, seg_repeat ?q}" "\<not> (i = n \<and> length (rcv_queue k) < unat (rcv_wnd k))"
    | seg where "k' = parse_data seg ?q" "s_sn seg = s_sn s" "s_data seg = s_data s"
    using p len win unfolding input_push_def Let_def
    by (auto simp: bind_res_eq_Inr newSegment_def seg_header_sn ack_push_def split: if_splits)
  then show ?thesis
  proof cases
    case 1
    then have "past n hist k n k'" using n by (intro past_refl) (auto simp: seg_repeat_def ack_push_def rcv_view_def)
    with 1(2) show ?thesis by blast
  next
    case 2
    have "length hist < 2 ^ 32" using h by (simp add: hist_ok_def)
    moreover have "rcv_hist hist ?q g" using r rcv_hist_view [of ?q k] by simp
    ultimately have "\<exists>n'. past n hist ?q n' k' \<and> (i = n \<and> length (rcv_queue ?q) < unat (rcv_wnd ?q) \<longrightarrow> n < n')"
      using 2 s inv n parse_data_past [of hist ?q g i seg n] by (simp add: ack_push_def)
    then show ?thesis by (simp add: past_def ack_push_def)
  qed
qed

lemma seg_past:
  assumes h: "hist_ok cv hist" and r: "rcv_hist hist k g" and inv: "rcv_inv k" and s: "genuine cv hist s"
    and seg: "input_seg (seg_header s) (s_data s @ rest) v k = Inr (v', k')" and n: "rcv_nxt k = of_nat n" "n \<le> length hist"
  shows "\<exists>n'. past n hist k n' k' \<and>
    (\<not> ctl cv s \<and> s_sn s = of_nat n \<and> length (rcv_queue k) < unat (rcv_wnd k) \<longrightarrow> n < n')"
proof -
  let ?h = "seg_header s"
  define q where "q = shrink_buf (parse_una (h_una ?h) (k \<lparr> rmt_wnd := ucast (h_wnd ?h) \<rparr>))"
  have q: "rcv_view q = rcv_view k" "rcv_wnd q = rcv_wnd k"
    by (simp_all add: q_def) (simp add: shrink_buf_def parse_una_def split: list.split)
  have q': "rcv_hist hist q g" "rcv_inv q" "rcv_nxt q = of_nat n" "rcv_queue q = rcv_queue k"
    using r inv n(1) rcv_hist_view [OF q(1)] q(1) by (simp, simp add: q_def, simp_all add: rcv_view_def)
  show ?thesis
  proof (cases "ctl cv s")
    case True
    then have c: "s_cmd s \<in> {IKCP_CMD_ACK, IKCP_CMD_WASK, IKCP_CMD_WINS}" by (simp add: ctl_def)
    then have "ucast (h_cmd ?h) = s_cmd s" by (intro cmd_ucast) auto
    then have "rcv_view k' = rcv_view k"
      using seg c q(1) unfolding input_seg_def q_def [symmetric] Let_def
      by (auto simp: const_defs input_ack_def Let_def)
    moreover have "rcv_wnd k' = rcv_wnd k" using input_frame_seg [OF seg] by (simp add: input_frame_def)
    ultimately show ?thesis using past_refl [OF n] True by blast
  next
    case False
    then have "ident s \<in> set hist" using s by (simp add: genuine_def)
    from genuine_ident [OF h this] obtain i where i: "i < length hist" "s_sn s = of_nat i"
      "s_data s = idata (hist ! i)" "length (s_data s) < 2 ^ 32" "icmd (hist ! i) = s_cmd s"
      "s_cmd s = IKCP_CMD_PUSH \<or> s_cmd s = IKCP_CMD_CONNECT \<and> i = 0 \<and> idata (hist ! i) = []"
      by (elim exE conjE) (rule that)
    have ni: "i = n" if "s_sn s = of_nat n"
      using that i(1,2) n(2) of_nat_u32_inj [of i n] h by (simp add: hist_ok_def)
    from i(6) have c: "ucast (h_cmd ?h) = s_cmd s" by (intro cmd_ucast) auto
    from i(6) show ?thesis
    proof
      assume p: "s_cmd s = IKCP_CMD_PUSH"
      then have "input_push ?h (s_data s @ rest) q = Inr k'"
        using seg c unfolding input_seg_def q_def [symmetric] Let_def
        by (auto simp: const_defs bind_res_eq_Inr)
      from push_past [OF h q'(1,2) i(1-4) _ this q'(3) n(2)] i(5) p ni q q'(4)
      show ?thesis by (auto simp: past_def const_defs)
    next
      assume p: "s_cmd s = IKCP_CMD_CONNECT \<and> i = 0 \<and> idata (hist ! i) = []"
      then have k': "k' = input_connect ?h q"
        using seg c unfolding input_seg_def q_def [symmetric] Let_def by (auto simp: const_defs)
      show ?thesis
      proof (cases "rcv_nxt q = 0")
        case True
        then have "n = 0" using q'(3) n(2) of_nat_u32_inj [of n 0] h by (simp add: hist_ok_def)
        then show ?thesis using k' True i(1) q'(3) q
          by (intro exI [of _ 1]) (auto simp: past_def input_connect_def ack_push_def Let_def Suc_le_eq)
      next
        case False
        have "n \<noteq> i"
        proof
          assume "n = i"
          then show False using False q'(3) p by simp
        qed
        moreover have "past n hist k n k'" using k' False q past_refl [OF n, of k'] by (simp add: input_connect_def)
        ultimately show ?thesis using ni by blast
      qed
    qed
  qed
qed


lemma genuine_accepted:
  assumes "hist_ok cv hist" "genuine cv hist s"
  shows "h_conv (seg_header s) = cv" "known_cmd (h_cmd (seg_header s))"
proof -
  have "s_conv s = cv" "s_cmd s \<in> {IKCP_CMD_CONNECT, IKCP_CMD_PUSH, IKCP_CMD_ACK, IKCP_CMD_WASK, IKCP_CMD_WINS}"
  proof -
    have "s_conv s = cv \<and> s_cmd s \<in> {IKCP_CMD_CONNECT, IKCP_CMD_PUSH}" if m: "ident s \<in> set hist"
    proof -
      obtain i where "i < length hist" "hist ! i = ident s" using m by (auto simp: in_set_conv_nth)
      then have "fst (ident s) = cv" using assms(1) unfolding hist_ok_def by metis
      then show ?thesis using genuine_ident [OF assms(1) m] by (auto simp: ident_def)
    qed
    then show "s_conv s = cv" "s_cmd s \<in> {IKCP_CMD_CONNECT, IKCP_CMD_PUSH, IKCP_CMD_ACK, IKCP_CMD_WASK, IKCP_CMD_WINS}"
      using assms(2) by (auto simp: genuine_def ctl_def)
  qed
  then show "h_conv (seg_header s) = cv" "known_cmd (h_cmd (seg_header s))"
    using cmd_ucast [of s] by (auto simp: known_cmd_def seg_header_def)
qed

lemma past_trans:
  assumes "past n hist k n1 k1" "past n1 hist k1 n2 k2"
  shows "past n hist k n2 k2"
  using assms by (auto simp: past_def)

lemma loop_past:
  assumes h: "hist_ok cv hist"
  shows "\<forall>s \<in> set segs. genuine cv hist s \<Longrightarrow> conv k = cv \<Longrightarrow> rcv_hist hist k g \<Longrightarrow> rcv_inv k \<Longrightarrow>
    rcv_nxt k = of_nat n \<Longrightarrow> n \<le> length hist \<Longrightarrow>
    input_loop (concat (map wire segs)) v k = Inr (ex, k') \<Longrightarrow>
    \<exists>n'. past n hist k n' k' \<and>
      ((\<exists>s \<in> set segs. \<not> ctl cv s \<and> s_sn s = of_nat n) \<and> length (rcv_queue k) < unat (rcv_wnd k) \<longrightarrow> n < n')"
proof (induction segs arbitrary: v k n)
  case Nil
  then have "k' = k" by (subst (asm) input_loop.simps) (auto simp: IKCP_OVERHEAD_def)
  then show ?case using past_refl [OF Nil.prems(5,6)] by auto
next
  case (Cons s segs)
  let ?rest = "concat (map wire segs)"
  have g: "genuine cv hist s" "\<forall>s \<in> set segs. genuine cv hist s" using Cons.prems(1) by simp_all
  have len: "unat (h_len (seg_header s)) = length (s_data s)"
    using genuine_len [OF h g(1)] by (simp add: seg_header_def unat_of_nat)
  have d: "decode_header (wire s @ ?rest) = Inr (seg_header s, s_data s @ ?rest)"
    by (simp add: wire_def decode_header_bytes)
  have acc: "h_conv (seg_header s) = conv k" "known_cmd (h_cmd (seg_header s))"
    using genuine_accepted [OF h g(1)] Cons.prems(2) by simp_all
  obtain v1 k1 where 1: "input_seg (seg_header s) (s_data s @ ?rest) v k = Inr (v1, k1)"
      "input_loop ?rest v1 k1 = Inr (ex, k')"
    using Cons.prems(7) len d acc
    by (subst (asm) input_loop.simps) (auto split: if_splits sum.splits)
  obtain n1 where n1: "past n hist k n1 k1"
    "\<not> ctl cv s \<and> s_sn s = of_nat n \<and> length (rcv_queue k) < unat (rcv_wnd k) \<longrightarrow> n < n1"
    using seg_past [OF h Cons.prems(3,4) g(1) 1(1) Cons.prems(5,6)] by blast
  have k1: "rcv_hist hist k1 g" "rcv_inv k1" "conv k1 = cv"
    using rcv_hist_seg [OF h Cons.prems(3,4) g(1) 1(1)] input_seg_inv(1) [OF 1(1)] Cons.prems(2,4) input_frame_seg [OF 1(1)]
    by (simp_all add: input_frame_def)
  have "rcv_nxt k1 = of_nat n1" "n1 \<le> length hist" using n1(1) by (simp_all add: past_def)
  from Cons.IH [OF g(2) k1(3,1,2) this 1(2)] obtain n2 where n2: "past n1 hist k1 n2 k'"
    "(\<exists>s \<in> set segs. \<not> ctl cv s \<and> s_sn s = of_nat n1) \<and> length (rcv_queue k1) < unat (rcv_wnd k1) \<longrightarrow> n1 < n2" by blast
  have "past n hist k n2 k'" using past_trans [OF n1(1) n2(1)] .
  moreover have "n < n2" if "\<exists>t \<in> set (s # segs). \<not> ctl cv t \<and> s_sn t = of_nat n" "length (rcv_queue k) < unat (rcv_wnd k)"
  proof (cases "n < n1")
    case True
    then show ?thesis using n2(1) by (simp add: past_def)
  next
    case False
    then have "n1 = n" "rcv_queue k1 = rcv_queue k" "rcv_wnd k1 = rcv_wnd k" using n1(1) by (auto simp: past_def)
    then show ?thesis using n1(2) n2(2) that by auto
  qed
  ultimately show ?case by blast
qed


lemma input_past:
  assumes h: "hist_ok cv hist" and r: "rcv_hist hist k g" and inv: "rcv_inv k" and c: "conv k = cv"
    and n: "rcv_nxt k = of_nat n" "n \<le> length hist"
    and p: "p = concat (map wire segs)" "\<forall>s \<in> set segs. genuine cv hist s"
    and s: "s \<in> set segs" "\<not> ctl cv s" "s_sn s = of_nat n" and room: "length (rcv_queue k) < unat (rcv_wnd k)"
    and i: "input current p upd k = Inr (res, k')"
  shows "\<exists>n'. n < n' \<and> n' \<le> length hist \<and> rcv_nxt k' = of_nat n'"
proof -
  have go: "\<exists>n'. n < n' \<and> n' \<le> length hist \<and> rcv_nxt q = of_nat n'"
    if "input_loop p ackvars0 k = Inr (ex, q)" for ex q
    using loop_past [OF h p(2) c r inv n, of ackvars0 ex q] that p(1) s room unfolding past_def by blast
  from i show ?thesis
  proof (cases rule: input_cases)
    case short
    have "length (wire s) \<le> length p" using s(1) p(1) by (induction segs arbitrary: p) (auto simp: le_add1 trans_le_add2)
    then show ?thesis using short by simp
  next
    case rejected
    then show ?thesis using go by blast
  next
    case (accepted v q a b)
    then have "rcv_nxt k' = rcv_nxt q" using rcv_view_rtt [of current upd v q] by (auto simp: rcv_view_def)
    then show ?thesis using go [OF accepted(1)] by simp
  qed
qed

text \<open>
  In a network of a sender and a receiver of the same conversation: the segment the receiver waits
  for is in flight and due; then the next flush puts it into a packet that takes the receiver on.
\<close>

lemma resend_advances:
  assumes net: "reachable net_init net_step s" "used s < 2 ^ 32"
    and seg: "x \<in> set (snd_buf (sndr s))" "s_sn x = rcv_nxt (rcvr s)" "due_now current x"
    and r: "conv (rcvr s) = conv (sndr s)" "length (rcv_queue (rcvr s)) < unat (rcv_wnd (rcvr s))"
    and fl: "flush current (sndr s) = Inr k'" "used s + soff (snd_nxt (sndr s)) (snd_nxt k') < 2 ^ 32"
  shows "\<exists>pkts p. outputs k' = outputs (sndr s) @ pkts \<and> p \<in> set pkts \<and>
    (\<forall>now upd res r'. input now p upd (rcvr s) = Inr (res, r') \<longrightarrow>
       (\<exists>n n'. n < n' \<and> n' < 2 ^ 32 \<and> rcv_nxt (rcvr s) = of_nat n \<and> rcv_nxt r' = of_nat n'))"
proof -
  have ni: "net_inv s" using net.reachable_inv [OF net(1)] .
  obtain hist where hist: "length hist = used s" "snd_hist hist (sndr s) (sent s)" "rcv_hist hist (rcvr s) (got s)"
    using ni net(2) by (auto simp: net_inv_def)
  have inv: "kcp_inv (sndr s)" "rcv_inv (rcvr s)" using ni by (simp_all add: net_inv_def kcp_inv_def)
  obtain n where n: "n \<le> length hist" "rcv_nxt (rcvr s) = of_nat n" using hist(3) by (auto simp: rcv_hist_def)
  obtain new where new: "snd_hist (hist @ new) k' (sent s)"
    using snd_hist_flush [OF inv(1) hist(2) fl(1)] fl(2) hist(1) by auto
  have k': "conv k' = conv (sndr s)" "map ident (snd_buf k') = flush_idents (sndr s)"
    using flush_ok [of "sndr s" current] inv(1) fl(1) by (auto simp: kcp_inv_def flush_frame_def)
  have h: "hist_ok (conv (sndr s)) (hist @ new)" using new k'(1) by (simp add: snd_hist_def)
  have fi: "set (flush_idents (sndr s)) \<subseteq> set (hist @ new)"
    using new k'(2) by (metis idents_def list.set_map snd_hist_def)
  obtain pkts p ss y where y: "outputs k' = outputs (sndr s) @ pkts" "p \<in> set pkts" "p = concat (map wire ss)"
    "\<forall>t \<in> set ss. ctl (conv (sndr s)) t \<or> ident t \<in> set (flush_idents (sndr s))"
    "y \<in> set ss" "s_sn y = s_sn x" "h_cmd (seg_header y) = h_cmd (seg_header x)"
    using flush_carries [OF inv(1) fl(1) seg(1,3)] by blast
  have "s_cmd x \<in> {IKCP_CMD_PUSH, IKCP_CMD_CONNECT}"
  proof -
    have "ident x \<in> set hist" using hist(2) seg(1) by (auto simp: snd_hist_def idents_def)
    then show ?thesis using genuine_ident hist(2) by (fastforce simp: snd_hist_def)
  qed
  then have nctl: "\<not> ctl (conv (sndr s)) y" using y(7) by (auto simp: ctl_def seg_header_def const_defs)
  have gen: "\<forall>t \<in> set ss. genuine (conv (sndr s)) (hist @ new) t" using y(4) fi by (auto simp: genuine_def)
  have len: "n \<le> length (hist @ new)" "length (hist @ new) < 2 ^ 32" using n(1) h by (simp_all add: hist_ok_def)
  have sn: "s_sn y = of_nat n" using seg(2) y(6) n(2) by simp
  have "\<exists>n'. n < n' \<and> n' < 2 ^ 32 \<and> rcv_nxt r' = of_nat n'" if i: "input now p upd (rcvr s) = Inr (res, r')" for now upd res r'
  proof -
    from input_past [OF h rcv_hist_extend [OF hist(3)] inv(2) r(1) n(2) len(1) y(3) gen y(5) nctl sn r(2) i]
    obtain n' where "n < n'" "n' \<le> length (hist @ new)" "rcv_nxt r' = of_nat n'" by blast
    then have "n < n' \<and> n' < 2 ^ 32 \<and> rcv_nxt r' = of_nat n'" using len(2) by simp
    then show ?thesis by (rule exI)
  qed
  then have "\<forall>now upd res r'. input now p upd (rcvr s) = Inr (res, r') \<longrightarrow>
       (\<exists>n n'. n < n' \<and> n' < 2 ^ 32 \<and> rcv_nxt (rcvr s) = of_nat n \<and> rcv_nxt r' = of_nat n')"
    unfolding n(2) by metis
  then show ?thesis using y(1,2) by (intro exI conjI)
qed

lemma flush_used:
  assumes "kcp_inv k" "flush current k = Inr k'"
  shows "soff (snd_nxt k) (snd_nxt k') \<le> WND_MAX"
proof -
  have si: "snd_inv k" "flush_pre k" using assms(1) by (simp_all add: kcp_inv_def)
  have "flush_count k \<le> WND_MAX"
    using flush_count_span [OF si(1)] calc_cwnd_le [OF si(1)] by (cases "flush_count k = 0") auto
  moreover have "snd_nxt k' = snd_nxt k + of_nat (flush_count k)" using flush_ok [OF si(2,1), of current] assms(2) by auto
  ultimately show ?thesis by (simp add: soff_of_nat WND_MAX_def)
qed

text \<open>A run in which the only packet is lost, so that the receiver waits for segment 0.\<close>

definition lost_evs :: "net_ev list" where
  "lost_evs = [Snd (OpSend [1, 2, 3]), Snd (OpFlush 0), Snd (OpFlush 10)]"

lemma demo_lost_run:
  "map_option (\<lambda>s. (used s, map (\<lambda>x. (s_sn x, due_now 1000 x)) (snd_buf (sndr s)), rcv_nxt (rcvr s), conv (sndr s), conv (rcvr s),
       rcv_queue (rcvr s), rcv_wnd (rcvr s), mtu (sndr s))) (net_run lost_evs net0)
   = Some (1, [(0, True)], 0, 0, 0, [], 32, 1400)"
  by code_simp

lemma demo_lost:
  "\<exists>s x. reachable net_init net_step s \<and> used s = 1 \<and> x \<in> set (snd_buf (sndr s)) \<and> s_sn x = rcv_nxt (rcvr s) \<and> due_now 1000 x \<and>
     conv (rcvr s) = conv (sndr s) \<and> length (rcv_queue (rcvr s)) < unat (rcv_wnd (rcvr s)) \<and> mtu (sndr s) = 1400"
proof -
  obtain s where s: "net_run lost_evs net0 = Some s"
    "(used s, map (\<lambda>x. (s_sn x, due_now 1000 x)) (snd_buf (sndr s)), rcv_nxt (rcvr s), conv (sndr s), conv (rcvr s),
       rcv_queue (rcvr s), rcv_wnd (rcvr s), mtu (sndr s)) = (1, [(0, True)], 0, 0, 0, [], 32, 1400)"
    using demo_lost_run unfolding map_option_eq_Some by (elim exE conjE) (rule that)
  then obtain x where "snd_buf (sndr s) = [x]" "s_sn x = 0" "due_now 1000 x" by auto
  then show ?thesis using net_run_from_start [OF s(1)] s(2) by (intro exI [of _ s] exI [of _ x]) simp
qed

section \<open>A segment that waits for the next one\<close>

text \<open>
  Only \<open>parse_data\<close> and \<open>recv\<close> move segments from the reorder buffer on. \<open>pushless\<close>: no \<open>PUSH\<close> is
  among the well-formed segments at the start of a datagram.
\<close>

definition pushless :: "u32 \<Rightarrow> bytes \<Rightarrow> bool" where
  "pushless cv data \<longleftrightarrow> (\<forall>fs rest. data = concat (map seg_bytes fs) @ rest \<and> list_all (seg_valid cv) fs \<longrightarrow>
     list_all (\<lambda>f. ucast (h_cmd (fst f)) \<noteq> IKCP_CMD_PUSH) fs)"

text \<open>What may happen until a \<open>PUSH\<close> arrives: \<open>recv\<close> is called when \<open>recvSize\<close> announces something.\<close>

fun awaits_push :: "kcp_op \<Rightarrow> KCP \<Rightarrow> bool" where
  "awaits_push (OpInput current data upd) k \<longleftrightarrow> pushless (conv k) data"
| "awaits_push (OpRecv buf) k \<longleftrightarrow> 0 < fst (recvSize k)"
| "awaits_push _ k \<longleftrightarrow> True"

inductive push_wait :: "KCP \<Rightarrow> KCP \<Rightarrow> bool" where
  "op_ok op k \<Longrightarrow> awaits_push op k \<Longrightarrow> exec op k = Inr k' \<Longrightarrow> push_wait k k'"

lemma input_seg_view:
  assumes "input_seg h d v k = Inr (v', k')" "ucast (h_cmd h) \<noteq> IKCP_CMD_PUSH"
  shows "rcv_view k' = (if ucast (h_cmd h) = IKCP_CMD_CONNECT \<and> rcv_nxt k = 0 then (1, rcv_buf k, rcv_queue k) else rcv_view k)"
proof -
  define q where "q = shrink_buf (parse_una (h_una h) (k \<lparr> rmt_wnd := ucast (h_wnd h) \<rparr>))"
  have q: "rcv_view q = rcv_view k" by (simp add: q_def)
  consider "ucast (h_cmd h) = IKCP_CMD_CONNECT" "k' = input_connect h q"
    | "ucast (h_cmd h) \<noteq> IKCP_CMD_CONNECT" "k' = snd (input_ack h v q) \<or> k' = q \<lparr> probe := probe q OR IKCP_ASK_TELL \<rparr> \<or> k' = q"
    using assms unfolding input_seg_def q_def [symmetric] Let_def by (auto split: if_splits)
  then show ?thesis
  proof cases
    case 1
    then show ?thesis using q rcv_view_snd_ops(5) [of "h_sn h" "h_ts h" q] by (auto simp: input_connect_def rcv_view_def Let_def)
  next
    case 2
    have "rcv_view (snd (input_ack h v q)) = rcv_view q" by (simp add: input_ack_def Let_def)
    then show ?thesis using 2 q by auto
  qed
qed

lemma input_segs_view:
  "input_segs fs v k = Inr (v', k') \<Longrightarrow> list_all (\<lambda>f. ucast (h_cmd (fst f)) \<noteq> IKCP_CMD_PUSH) fs \<Longrightarrow> rcv_nxt k \<noteq> 0 \<Longrightarrow>
   rcv_view k' = rcv_view k"
proof (induction fs arbitrary: v k)
  case (Cons f fs)
  obtain h d where f: "f = (h, d)" by (cases f)
  obtain v1 k1 where s: "input_seg h d v k = Inr (v1, k1)" "input_segs fs v1 k1 = Inr (v', k')"
    using Cons.prems(1) f by (auto simp: bind_res_eq_Inr)
  have "rcv_view k1 = rcv_view k" using input_seg_view [OF s(1)] Cons.prems(2,3) f by simp
  then show ?case using Cons.IH [OF s(2)] Cons.prems(2,3) by (simp add: rcv_view_def)
qed simp

lemma input_pushless:
  assumes i: "input current data upd k = Inr (r, k')" and p: "pushless (conv k) data" "rcv_nxt k \<noteq> 0"
  shows "rcv_view k' = rcv_view k"
proof -
  have loop: "rcv_view q = rcv_view k" if l: "input_loop data ackvars0 k = Inr (ex, q)" for ex q
  proof -
    obtain fs rest v' where fs: "data = concat (map seg_bytes fs) @ rest" "list_all (seg_valid (conv k)) fs"
      "input_segs fs ackvars0 k = Inr (v', q)" using input_loop_exits [OF l] by blast
    then show ?thesis using input_segs_view [OF fs(3)] p unfolding pushless_def by blast
  qed
  from i show ?thesis
  proof (cases rule: input_cases)
    case (accepted v q a b)
    then have "rcv_view k' = rcv_view q" using rcv_view_rtt [of current upd v q] by (auto simp: rcv_view_def)
    then show ?thesis using loop accepted(1) by simp
  qed (use loop in auto)
qed

lemma push_wait_stuck:
  assumes "push_wait k k'" "kcp_inv k" "rcv_nxt k \<noteq> 0" "rcv_queue k = []"
  shows "kcp_inv k' \<and> rcv_view k' = rcv_view k"
  using assms(1)
proof cases
  case (1 op)
  have inv: "kcp_inv k'" using kcp.step_inv [OF assms(2)] kcp_step.intros [OF 1(1,3)] by blast
  have "rcv_view k' = rcv_view k"
  proof (cases "(\<exists>c p u. op = OpInput c p u) \<or> (\<exists>buf. op = OpRecv buf)")
    case True
    then show ?thesis using 1(2,3) input_pushless assms(3,4) by (auto simp: bind_res_eq_Inr recvSize_def)
  next
    case False
    then show ?thesis using exec_rcv_view [OF assms(2) 1(3)] by blast
  qed
  then show ?thesis using inv by blast
qed

lemma push_wait_forever:
  "push_wait\<^sup>*\<^sup>* k k' \<Longrightarrow> kcp_inv k \<Longrightarrow> rcv_nxt k \<noteq> 0 \<Longrightarrow> rcv_queue k = [] \<Longrightarrow> kcp_inv k' \<and> rcv_view k' = rcv_view k"
proof (induction rule: rtranclp_induct)
  case (step y z)
  have y: "kcp_inv y" "rcv_view y = rcv_view k" using step.IH step.prems by simp_all
  then have "rcv_nxt y \<noteq> 0" "rcv_queue y = []" using step.prems by (simp_all add: rcv_view_def)
  from push_wait_stuck [OF step.hyps(2) y(1) this] show ?case using y by simp
qed simp

text \<open>A \<open>CONNECT\<close> alone in its datagram.\<close>

lemma input_first_connect:
  assumes inv: "kcp_inv k" and c: "rcv_nxt k = 0" "seg_valid (conv k) f" "ucast (h_cmd (fst f)) = IKCP_CMD_CONNECT"
    "length (seg_bytes f) \<le> udpPacketSizeLimit"
  shows "\<exists>k'. input current (seg_bytes f) upd k = Inr (0, k') \<and> kcp_inv k' \<and> rcv_view k' = (1, rcv_buf k, rcv_queue k)"
proof -
  obtain h d where f: "f = (h, d)" by (cases f)
  obtain r k' where i: "input current (seg_bytes f) upd k = Inr (r, k')" "kcp_inv k'" using input_kcp_total [OF inv c(4)] by blast
  have "\<not> length (seg_bytes f) < IKCP_OVERHEAD" by (simp add: seg_bytes_def)
  moreover have "input_loop [] v q = Inr (Break v, q)" for v q by (subst input_loop.simps) (simp add: IKCP_OVERHEAD_def)
  then have l: "input_loop (seg_bytes f) ackvars0 k = bind_res (input_seg h d ackvars0 k) (\<lambda>(v, k). Inr (Break v, k))"
    using input_loop_split [of k "[f]" "[]" ackvars0] c(2) f by (cases "input_seg h d ackvars0 k") auto
  ultimately obtain v q where q: "input_seg h d ackvars0 k = Inr (v, q)"
    using i(1) by (auto simp: input_def Let_def bind_res_eq_Inr)
  have view: "rcv_view q = (1, rcv_buf k, rcv_queue k)" using input_seg_view [OF q] c(1,3) f by (simp add: const_defs)
  from i(1) have "r = 0 \<and> rcv_view k' = rcv_view q"
  proof (cases rule: input_cases)
    case (accepted v1 q1 a b)
    then have "q1 = q" using l q by simp
    then show ?thesis using accepted rcv_view_rtt [of current upd v1 q] by (auto simp: rcv_view_def)
  qed (use l q \<open>\<not> length (seg_bytes f) < IKCP_OVERHEAD\<close> in auto)
  then show ?thesis using i view by simp
qed

end
