(* ===== verification/Buffered_Conn.thy ===== *)
theory Buffered_Conn
  imports Byte_Buffer
begin

text \<open>
  \<open>BufferConn\<close> of \<open>go/kcp/bufconn.go\<close>: a connection with a buffer in front, so that bytes can be read
  ahead and still be read again later. The connection behind it, a \<open>net.Conn\<close>, is a parameter: a
  record of the methods that are called, on a state of any type.
\<close>

section \<open>Operations\<close>

text \<open>
  \<open>nc_Read\<close> gets the slice to read into and returns the count, whether there was an error, and the
  slice after the call.
\<close>

type_synonym 'c conn_read = "bytes \<Rightarrow> 'c \<Rightarrow> int \<times> bool \<times> bytes \<times> 'c"

record 'c net_conn =
  nc_Read :: "'c conn_read"
  nc_Write :: "bytes \<Rightarrow> 'c \<Rightarrow> int \<times> bool \<times> 'c"
  nc_Close :: "'c \<Rightarrow> bool \<times> 'c"
  nc_LocalAddr :: "'c \<Rightarrow> string"
  nc_RemoteAddr :: "'c \<Rightarrow> string"
  nc_SetDeadline :: "int option \<Rightarrow> 'c \<Rightarrow> bool \<times> 'c"
  nc_SetReadDeadline :: "int option \<Rightarrow> 'c \<Rightarrow> bool \<times> 'c"
  nc_SetWriteDeadline :: "int option \<Rightarrow> 'c \<Rightarrow> bool \<times> 'c"

record 'c BufferConn =
  bc_buf :: Buffer
  bc_conn :: 'c

definition NewBufferConn :: "'c \<Rightarrow> 'c BufferConn" where
  "NewBufferConn c = \<lparr> bc_buf = Buffer0, bc_conn = c \<rparr>"

definition BufferBytes :: "'c BufferConn \<Rightarrow> bytes" where
  "BufferBytes c = contents (bc_buf c)"

definition BufferLen :: "'c BufferConn \<Rightarrow> int" where
  "BufferLen c = Len (bc_buf c)"

definition ReadToBuffer :: "'c conn_read \<Rightarrow> int \<Rightarrow> 'c BufferConn \<Rightarrow> (int \<times> bool \<times> 'c BufferConn) res" where
  "ReadToBuffer rd sz c =
     bind_res (Extend sz (bc_buf c)) (\<lambda>(m, b).
       let (n, err, p, conn) = rd (tail_slice m b) (bc_conn c); b = fill m p b
       in bind_res (if \<not> err then Truncate (Len b - (sz - n)) b else Truncate (Len b - sz) b)
            (\<lambda>b. Inr (n, err, c \<lparr> bc_buf := b, bc_conn := conn \<rparr>)))"

text \<open>The result is the count, whether there was an error, and the caller's slice.\<close>

definition BufferConn_Read :: "'c conn_read \<Rightarrow> bytes \<Rightarrow> 'c BufferConn \<Rightarrow> (int \<times> bool \<times> bytes \<times> 'c BufferConn) res" where
  "BufferConn_Read rd p c =
     (if Len (bc_buf c) > 0
      then bind_res (Read p (bc_buf c)) (\<lambda>(p, n, eof, b). Inr (int n, eof, p, c \<lparr> bc_buf := b \<rparr>))
      else let (n, err, p, conn) = rd p (bc_conn c) in Inr (n, err, p, c \<lparr> bc_conn := conn \<rparr>))"

text \<open>The other methods go through to the connection.\<close>

definition through :: "('c \<Rightarrow> 'r \<times> 'c) \<Rightarrow> 'c BufferConn \<Rightarrow> 'r \<times> 'c BufferConn" where
  "through f c = (case f (bc_conn c) of (r, conn) \<Rightarrow> (r, c \<lparr> bc_conn := conn \<rparr>))"

definition BufferConn_Write :: "'c net_conn \<Rightarrow> bytes \<Rightarrow> 'c BufferConn \<Rightarrow> int \<times> bool \<times> 'c BufferConn" where
  "BufferConn_Write nc b c = (case nc_Write nc b (bc_conn c) of (n, err, conn) \<Rightarrow> (n, err, c \<lparr> bc_conn := conn \<rparr>))"

definition BufferConn_Close :: "'c net_conn \<Rightarrow> 'c BufferConn \<Rightarrow> bool \<times> 'c BufferConn" where
  "BufferConn_Close nc = through (nc_Close nc)"

definition BufferConn_LocalAddr :: "'c net_conn \<Rightarrow> 'c BufferConn \<Rightarrow> string" where
  "BufferConn_LocalAddr nc c = nc_LocalAddr nc (bc_conn c)"

definition BufferConn_RemoteAddr :: "'c net_conn \<Rightarrow> 'c BufferConn \<Rightarrow> string" where
  "BufferConn_RemoteAddr nc c = nc_RemoteAddr nc (bc_conn c)"

definition BufferConn_SetDeadline :: "'c net_conn \<Rightarrow> int option \<Rightarrow> 'c BufferConn \<Rightarrow> bool \<times> 'c BufferConn" where
  "BufferConn_SetDeadline nc t = through (nc_SetDeadline nc t)"

definition BufferConn_SetReadDeadline :: "'c net_conn \<Rightarrow> int option \<Rightarrow> 'c BufferConn \<Rightarrow> bool \<times> 'c BufferConn" where
  "BufferConn_SetReadDeadline nc t = through (nc_SetReadDeadline nc t)"

definition BufferConn_SetWriteDeadline :: "'c net_conn \<Rightarrow> int option \<Rightarrow> 'c BufferConn \<Rightarrow> bool \<times> 'c BufferConn" where
  "BufferConn_SetWriteDeadline nc t = through (nc_SetWriteDeadline nc t)"

section \<open>What \<open>ReadToBuffer\<close> does\<close>

text \<open>What \<open>io.Reader\<close> documents of the count and the slice.\<close>

definition reader_ok :: "'c conn_read \<Rightarrow> bool" where
  "reader_ok rd \<longleftrightarrow> (\<forall>p c. case rd p c of (n, err, p', c') \<Rightarrow> 0 \<le> n \<and> n \<le> int (length p) \<and> length p' = length p)"

lemma ReadToBuffer_ok:
  assumes inv: "buf_inv (bc_buf c)" and sz: "0 \<le> sz"
    and rd: "\<And>p. case rd p (bc_conn c) of (n, err, p', c') \<Rightarrow> 0 \<le> n \<and> n \<le> int (length p) \<and> length p' = length p"
  shows "\<exists>n err b' p q conn. ReadToBuffer rd sz c = Inr (n, err, c \<lparr> bc_buf := b', bc_conn := conn \<rparr>) \<and> buf_inv b' \<and>
    int (length q) = sz \<and> rd q (bc_conn c) = (n, err, p, conn) \<and>
    contents b' = contents (bc_buf c) @ (if err then [] else take (nat n) p)"
proof -
  obtain m b1 where e: "Extend sz (bc_buf c) = Inr (m, b1)" "length (tail_slice m b1) = nat sz"
    and f: "\<forall>p. length p = nat sz \<longrightarrow> buf_inv (fill m p b1) \<and> contents (fill m p b1) = contents (bc_buf c) @ p"
    using Extend_fill [OF inv sz] by blast
  obtain n err p conn where r: "rd (tail_slice m b1) (bc_conn c) = (n, err, p, conn)" by (cases "rd (tail_slice m b1) (bc_conn c)")
  then have n: "0 \<le> n" "n \<le> sz" "length p = nat sz" using rd [of "tail_slice m b1"] e(2) sz by simp_all
  let ?b = "fill m p b1"
  have b: "buf_inv ?b" "contents ?b = contents (bc_buf c) @ p" using f n(3) by auto
  have L: "Len ?b = int (length (contents (bc_buf c))) + sz" using length_contents [OF b(1)] b(2) n(3) sz by simp
  define k where "k = (if err then Len ?b - sz else Len ?b - (sz - n))"
  have k: "0 \<le> k" "k \<le> Len ?b" "nat k = length (contents (bc_buf c)) + (if err then 0 else nat n)"
    using L n by (auto simp: k_def nat_add_distrib)
  obtain b' where t: "Truncate k ?b = Inr b'" "buf_inv b'" "contents b' = take (nat k) (contents ?b)"
    using Truncate_ok [OF b(1) k(1,2)] by blast
  have "ReadToBuffer rd sz c = Inr (n, err, c \<lparr> bc_buf := b', bc_conn := conn \<rparr>)"
    using e r t(1) by (cases err) (simp_all add: ReadToBuffer_def k_def Let_def)
  moreover have "contents b' = contents (bc_buf c) @ (if err then [] else take (nat n) p)" using t(3) b(2) k(3) by simp
  moreover have "int (length (tail_slice m b1)) = sz" using e(2) sz by simp
  ultimately show ?thesis using t(2) r by blast
qed

lemma BufferConn_Read_buffered:
  assumes "buf_inv (bc_buf c)" "contents (bc_buf c) \<noteq> []"
  shows "\<exists>b'. BufferConn_Read rd p c =
      Inr (int (min (length p) (length (contents (bc_buf c)))), False, go_copy p (contents (bc_buf c)), c \<lparr> bc_buf := b' \<rparr>) \<and>
    buf_inv b' \<and> contents b' = drop (length p) (contents (bc_buf c))"
proof -
  have "0 < Len (bc_buf c)" using length_contents [OF assms(1)] assms(2) by (metis length_greater_0_conv of_nat_0_less_iff)
  then show ?thesis using Read_ok [OF assms(1), of p] assms(2) by (auto simp: BufferConn_Read_def)
qed

section \<open>The stream seen through the buffer\<close>

text \<open>
  A connection that is a stream: \<open>pending\<close> is what it will still deliver, and a read takes from its
  front the bytes it counts, also when it returns an error with them.
\<close>

locale stream_conn =
  fixes inv :: "'c \<Rightarrow> bool" and pending :: "'c \<Rightarrow> bytes" and rd :: "'c conn_read"
  assumes read_count: "inv c \<Longrightarrow> rd p c = (n, err, p', c') \<Longrightarrow> 0 \<le> n \<and> n \<le> int (length p) \<and> length p' = length p"
    and read_front: "inv c \<Longrightarrow> rd p c = (n, err, p', c') \<Longrightarrow> inv c' \<and> pending c = take (nat n) p' @ pending c'"

text \<open>
  Calls on a \<open>BufferConn\<close>: read into a slice, or read ahead. The result is what the caller got, and
  for each read of the connection behind it whether its bytes were kept (a failed \<open>ReadToBuffer\<close>
  does not keep them) and how many there were.
\<close>

datatype bc_op = BRead bytes | BAhead int

fun bc_exec :: "'c conn_read \<Rightarrow> bc_op \<Rightarrow> 'c BufferConn \<Rightarrow> (bytes \<times> (bool \<times> nat) list \<times> 'c BufferConn) res" where
  "bc_exec rd (BRead p) c = bind_res (BufferConn_Read rd p c)
     (\<lambda>(n, err, p, c'). Inr (take (nat n) p, if 0 < BufferLen c then [] else [(True, nat n)], c'))"
| "bc_exec rd (BAhead sz) c = bind_res (ReadToBuffer rd sz c) (\<lambda>(n, err, c). Inr ([], [(\<not> err, nat n)], c))"

fun bc_run :: "'c conn_read \<Rightarrow> bc_op list \<Rightarrow> 'c BufferConn \<Rightarrow> (bytes \<times> (bool \<times> nat) list \<times> 'c BufferConn) res" where
  "bc_run rd [] c = Inr ([], [], c)"
| "bc_run rd (op # ops) c =
     bind_res (bc_exec rd op c) (\<lambda>(out, t, c).
     bind_res (bc_run rd ops c) (\<lambda>(outs, ts, c). Inr (out @ outs, t @ ts, c)))"

fun bc_ok :: "bc_op \<Rightarrow> bool" where
  "bc_ok (BRead p) \<longleftrightarrow> True"
| "bc_ok (BAhead sz) \<longleftrightarrow> 0 \<le> sz"

text \<open>The part of a stream that reads keep, and how much they take of it.\<close>

fun kept_of :: "(bool \<times> nat) list \<Rightarrow> bytes \<Rightarrow> bytes" where
  "kept_of [] bs = []"
| "kept_of ((kept, n) # t) bs = (if kept then take n bs else []) @ kept_of t (drop n bs)"

definition taken_of :: "(bool \<times> nat) list \<Rightarrow> nat" where
  "taken_of t = sum_list (map snd t)"

lemma taken_of_simps [simp]:
  "taken_of [] = 0" "taken_of ((kept, n) # t) = n + taken_of t" "taken_of (t @ t') = taken_of t + taken_of t'"
  by (simp_all add: taken_of_def)

lemma kept_of_append: "kept_of (t @ t') bs = kept_of t bs @ kept_of t' (drop (taken_of t) bs)"
  by (induction t arbitrary: bs) (auto simp: add.commute)

lemma kept_of_all: "list_all (\<lambda>(kept, n). kept \<or> n = 0) t \<Longrightarrow> kept_of t bs @ drop (taken_of t) bs = bs"
proof (induction t arbitrary: bs)
  case (Cons p t)
  obtain kept n where p: "p = (kept, n)" by (cases p)
  from Cons.prems have "list_all (\<lambda>(kept, n). kept \<or> n = 0) t" by simp
  from Cons.IH [OF this, of "drop n bs"] have "kept_of t (drop n bs) @ drop (n + taken_of t) bs = drop n bs"
    by (simp add: add.commute)
  then show ?case using Cons.prems p by (cases kept) simp_all
qed simp

context stream_conn
begin

lemma read_takes:
  assumes "inv c" "rd p c = (n, err, p', c')"
  shows "take (nat n) (pending c) = take (nat n) p'" "drop (nat n) (pending c) = pending c'" "nat n \<le> length (pending c)"
proof -
  have "nat n \<le> length p'" using read_count [OF assms] by (simp add: nat_le_iff)
  then have "length (take (nat n) p') = nat n" by simp
  then show "take (nat n) (pending c) = take (nat n) p'" "drop (nat n) (pending c) = pending c'" "nat n \<le> length (pending c)"
    using read_front [OF assms] by (metis append_eq_conv_conj, metis append_eq_conv_conj, metis length_append le_add1)
qed

text \<open>What a call or a run does: the bytes out, those buffered, and those taken of the connection.\<close>

definition streams :: "'c BufferConn \<Rightarrow> bytes \<Rightarrow> (bool \<times> nat) list \<Rightarrow> 'c BufferConn \<Rightarrow> bool" where
  "streams c out t c' \<longleftrightarrow> out @ contents (bc_buf c') = contents (bc_buf c) @ kept_of t (pending (bc_conn c)) \<and>
     taken_of t \<le> length (pending (bc_conn c)) \<and> pending (bc_conn c') = drop (taken_of t) (pending (bc_conn c))"

lemma streams_trans: "streams c o1 t1 c1 \<Longrightarrow> streams c1 o2 t2 c2 \<Longrightarrow> streams c (o1 @ o2) (t1 @ t2) c2"
  by (auto simp: streams_def kept_of_append add.commute)

lemma step_stream:
  assumes i: "buf_inv (bc_buf c)" "inv (bc_conn c)" and op: "bc_ok op"
  shows "\<exists>out t c'. bc_exec rd op c = Inr (out, t, c') \<and> buf_inv (bc_buf c') \<and> inv (bc_conn c') \<and> streams c out t c'"
proof (cases op)
  case (BAhead sz)
  have "case rd p (bc_conn c) of (n, err, p', c') \<Rightarrow> 0 \<le> n \<and> n \<le> int (length p) \<and> length p' = length p" for p
    using read_count [OF i(2), of p] by (auto split: prod.splits)
  from ReadToBuffer_ok [where rd = rd and c = c and sz = sz, OF i(1) _ this] op BAhead obtain n err b' p q conn where
    r: "ReadToBuffer rd sz c = Inr (n, err, c \<lparr> bc_buf := b', bc_conn := conn \<rparr>)" "buf_inv b'" "rd q (bc_conn c) = (n, err, p, conn)"
    "contents b' = contents (bc_buf c) @ (if err then [] else take (nat n) p)" by auto
  have "streams c [] [(\<not> err, nat n)] (c \<lparr> bc_buf := b', bc_conn := conn \<rparr>)"
    using r(4) read_takes [OF i(2) r(3)] by (simp add: streams_def)
  then show ?thesis using BAhead r(1,2) read_front [OF i(2) r(3)] by auto
next
  case (BRead p)
  show ?thesis
  proof (cases "contents (bc_buf c) = []")
    case True
    obtain n err p' conn where r: "rd p (bc_conn c) = (n, err, p', conn)" by (cases "rd p (bc_conn c)")
    have L: "\<not> 0 < Len (bc_buf c)" using length_contents [OF i(1)] True by simp
    have "streams c (take (nat n) p') [(True, nat n)] (c \<lparr> bc_conn := conn \<rparr>)"
      using True read_takes [OF i(2) r] by (simp add: streams_def)
    then show ?thesis using BRead L r read_front [OF i(2) r] i(1) by (simp add: BufferConn_Read_def BufferLen_def)
  next
    case False
    have L: "0 < BufferLen c"
      using length_contents [OF i(1)] False unfolding BufferLen_def by (metis length_greater_0_conv of_nat_0_less_iff)
    from BufferConn_Read_buffered [OF i(1) False, of rd p] show ?thesis
      using BRead i(2) L by (auto simp: streams_def go_copy_def min_def)
  qed
qed

lemma run_stream:
  assumes "buf_inv (bc_buf c)" "inv (bc_conn c)" "list_all bc_ok ops"
  shows "\<exists>out t c'. bc_run rd ops c = Inr (out, t, c') \<and> streams c out t c'"
  using assms
proof (induction ops arbitrary: c)
  case (Cons op ops)
  then obtain o1 t1 c1 where 1: "bc_exec rd op c = Inr (o1, t1, c1)" "buf_inv (bc_buf c1)" "inv (bc_conn c1)" "streams c o1 t1 c1"
    using step_stream [of c op] by auto
  from Cons.IH [OF 1(2,3)] Cons.prems(3) obtain out t c' where "bc_run rd ops c1 = Inr (out, t, c')" "streams c1 out t c'" by auto
  then show ?case using 1(1) streams_trans [OF 1(4)] by simp
qed (simp add: streams_def)

end

text \<open>The buffer of this package is itself such a stream.\<close>

definition buf_read :: "Buffer conn_read" where
  "buf_read p b = (case Read p b of Inr (p, n, eof, b) \<Rightarrow> (int n, eof, p, b) | Inl e \<Rightarrow> (0, True, p, b))"

interpretation buf_stream: stream_conn buf_inv contents buf_read
proof
  fix b b' :: Buffer and p p' :: bytes and n :: int and err
  assume inv: "buf_inv b"
  show "0 \<le> n \<and> n \<le> int (length p) \<and> length p' = length p" "buf_inv b' \<and> contents b = take (nat n) p' @ contents b'"
    if "buf_read p b = (n, err, p', b')"
    using Read_ok [OF inv, of p] that
    by (cases "length p \<le> length (contents b)"; auto simp: buf_read_def go_copy_def)+
qed

end
