(* ===== verification/Spec2Isabelle.thy ===== *)
theory Spec2Isabelle
  imports Kcp_Dial Lossy_Net Kcp_Progress Buffered_Conn
begin

text \<open>
  \<^bold>\<open>kcp-conn\<close>: the KCP reliable-stream protocol over packets, and connections and listeners on it, in Go
  (\<open>src/go/kcp\<close>). This development models the Go implementation and proves what makes it correct.

  \<^bold>\<open>The program.\<close> A control object (\<open>KCP\<close>, \<open>kcp.go\<close>) cuts user data into numbered segments, sends
  and resends them in packets, acknowledges and reassembles those of the peer. A connection
  (\<open>KCPConn\<close>, \<open>kcpconn.go\<close>) owns one control object, serialises access to it with a mutex, and drives it
  from its goroutine \<open>run\<close>; \<open>Read\<close> and \<open>Write\<close> block on event channels. A listener (\<open>Listener\<close>) spreads the
  packets of one socket over connections by remote address. A byte buffer (\<open>buffer.go\<close>) holds what is
  received and not yet read; \<open>BufferConn\<close> (\<open>bufconn.go\<close>) uses it to peek at a stream. \<open>LossyChannel\<close>
  (\<open>lossychan.go\<close>) and the packet connections of \<open>lossyconn.go\<close> emulate a bad network.

  \<^bold>\<open>The theories\<close>, in the order they build on each other:

  \<^item> \<open>Kcp_Prelude\<close>: results that may panic (\<open>'a res\<close>), Go's integer division and conversions, slices, serial
    arithmetic of 32-bit counters (\<open>soff\<close>), the locale \<open>invariant_system\<close> of reachable states and
    their invariants. \<open>Go_Chan\<close>: buffered channels, with sends, receives and closes that may panic or block.
  \<^item> \<open>Kcp_Wire\<close>: constants, field codecs (locale \<open>fixed_codec\<close>) and segment headers, \<open>kcp.go\<close> lines 9 to 131.
    \<open>Kcp_State\<close>: the record \<open>KCP\<close>, the counters of \<open>stats.go\<close>, constructor, setters and queries.
  \<^item> \<open>Kcp_Recv\<close>: \<open>recvSize\<close>, \<open>recv\<close>, \<open>parse_data\<close>. \<open>Kcp_Send\<close>: \<open>send\<close> and the reference it is equal to.
    \<open>Kcp_Ack\<close>: \<open>update_ack\<close>, \<open>parse_ack\<close>, \<open>parse_una\<close>, \<open>parse_fastack\<close>. \<open>Kcp_Input\<close>: \<open>input\<close>.
    \<open>Kcp_Flush\<close>: \<open>flush\<close>, \<open>sendConnectFlush\<close>, \<open>sendCloseFlush\<close>. \<open>Kcp_Timer\<close>: \<open>update\<close>, \<open>check\<close>.
    Each operation of the code is one function with the parts of its body as functions of their own.
  \<^item> \<open>Kcp_Machine\<close>: all operations in any order, with the invariant \<open>kcp_inv\<close>. \<open>Kcp_Delivery\<close>: a sender, a
    receiver and a network that loses, repeats and reorders packets. \<open>Kcp_Progress\<close>: what a lost segment needs
    to get through in the end, and what moves a segment on that overtook the \<open>CONNECT\<close>.
  \<^item> \<open>Byte_Buffer\<close>: \<open>buffer.go\<close>, refined to a queue of bytes (locale \<open>byte_queue\<close>). \<open>Buffered_Conn\<close>:
    \<open>bufconn.go\<close>, over any connection that is a stream (locale \<open>stream_conn\<close>).
  \<^item> \<open>Kcp_Conn\<close>: the record \<open>KCPConn\<close> and every operation on it. \<open>Conn_Refine\<close>: each of them is a path of
    operations of the control object. \<open>Conn_System\<close>: a connection with \<open>run\<close>, a reader, a writer and the
    goroutine that feeds it, interleaved; two connections and a network, simulated by \<open>Kcp_Delivery\<close>.
    \<open>Conn_Safety\<close>: which steps cannot panic. \<open>Conn_Wakeup\<close>: who wakes whom, and how closing ends.
  \<^item> \<open>Kcp_Listener\<close>: the session table (locale \<open>session_table\<close>), \<open>server\<close> as a state machine, the listener with its
    connections. \<open>Kcp_Dial\<close>: \<open>DialTimeout\<close> as a state machine of its goroutine, its caller and the connection,
    and \<open>Listen\<close>. \<open>Conn_Demo\<close>: concrete runs, evaluated.
  \<^item> \<open>Lossy\<close>: \<open>lossychan.go\<close>, the lossy channel, and the packet connections of \<open>lossyconn.go\<close>. \<open>Lossy_Net\<close>: two
    connections over \<open>NewLossyPairConn\<close>, with their goroutines and those of both channels; it is
    shown to be an instance of the two connections and the network of \<open>Conn_System\<close>.

  \<^bold>\<open>How code is modelled.\<close> A struct is a record with the fields of the code, a method a function from the state
  to a result: \<open>Inl\<close> a panic, \<open>Inr\<close> the return values and the new state; every slice and index is
  checked. Integers of fixed width that can wrap are words; \<open>int\<close> and the 64-bit counters are \<open>int\<close>. The
  output callback of the control object is a log of packets. What runs under the mutex is one step, and so are
  the few lines outside it that follow (counters, the flush event in \<open>Write\<close>, \<open>sendCloseFlush\<close> in
  \<open>run\<close>); the data races these can have in Go are not modelled. A call that blocks is cut at its
  \<open>select\<close>: \<open>None\<close> says that the case is not ready, and any ready case may be taken. The clock, random
  numbers, what the socket reads and whether it accepts a packet are arguments, without assumptions
  except that a datagram fits the 2048-byte buffer it was read into.

  \<^bold>\<open>What is shown.\<close> Connections: end-to-end delivery for \<open>Read\<close> and \<open>Write\<close>, over any network and over the
  lossy channels of the repository, refinement of the control object, freedom from panics under a contract, no lost wake-up of readers, well-formedness, termination
  of the fill loop and of closing. Dialing: what \<open>DialTimeout\<close> returns, on every path. The listener: its table, routing on every branch,
  robustness. The control object: end-to-end delivery, recovery from loss, totality of every operation, bounds on
  memory and timeouts, what flush, input, reassembly, acknowledgements, send, recv, update, check and
  close do. The buffer is a queue of bytes, and a buffered connection loses
  only what comes with an error; the lossy channel invents nothing. Behaviour a user would not expect
  (the last section): panics and stalls, each with a run that shows it.

  \<^bold>\<open>Bounds.\<close> End-to-end delivery holds while fewer than \<open>2 ^ 32\<close> sequence numbers are used: after that
  a packet delayed for a whole cycle cannot be told from a new one. Loops are structural or have a
  measure; the only fuel is that of \<open>closing\<close>, where 51 rounds of at least 100 ms cover the five
  seconds of the code.

  \<^bold>\<open>Not modelled.\<close> \<open>dump\<close> and \<open>debug\<close> (printing), the pools of packet buffers, \<open>Listener.Addr\<close> and the
  \<open>LocalAddr\<close> of the lossy connections (calls of the net package), \<open>src/demo/server.go\<close> (an HTTP server over
  \<open>Listen\<close>), the C and C++ ports and the tests. Of a \<open>lossyPacketConn\<close> each operation is modelled, but
  not the composition of its goroutines. That everything written is read in the end is shown one segment at a time:
  a due segment gets through with its next packet that arrives; that packets do arrive in the end would be
  an assumption on the network, and no statement about infinite runs is made.
\<close>

section \<open>Connections\<close>

text \<open>
  C1. End to end, for connections. Two connections with all their goroutines, in any interleaving,
  and a network that loses, duplicates and reorders packets: what \<open>Read\<close> has returned on one side is
  a prefix of what \<open>Write\<close> has accepted on the other; and once the receiver has caught up with the
  sequence numbers of the sender, the bytes written are the bytes read, those in the read buffer, in
  the receive queue and in the send queue, in this order. The first side may be fed any datagrams.
\<close>

theorem conn_end_to_end:
  assumes "reachable pair_init (pair_step wta wtb) s" "x_used (p_a s) < 2 ^ 32"
  shows "prefix (x_read (p_b s)) (x_written (p_a s)) \<and>
    (rcv_nxt (c_kcp (x_conn (p_b s))) = snd_nxt (c_kcp (x_conn (p_a s))) \<longrightarrow>
      x_written (p_a s) = x_read (p_b s) @ contents (c_bufRead (x_conn (p_b s))) @
        concat (map s_data (rcv_queue (c_kcp (x_conn (p_b s))))) @ concat (map s_data (snd_queue (c_kcp (x_conn (p_a s))))))"
  using pair_delivery [OF assms] append_prefixD unfolding qbytes_def by blast

theorem conn_end_to_end_witness:
  "\<exists>s. reachable pair_init (pair_step link_up link_up) s \<and> x_written (p_a s) = [1, 2, 3] \<and> prefix (x_read (p_b s)) [1, 2, 3]"
proof -
  obtain x where x: "reachable sys_init (safe_step link_up) x" "x_written x = [1, 2, 3]" "x_used x = 1" using demo_conn by blast
  let ?s = "\<lparr> p_a = x, p_b = client_conn 7 ''a'' \<rparr>"
  have "sys_init (client_conn 7 ''a'')" by (auto simp: sys_init_def)
  from pair_reachable [OF safe_reachable [OF x(1)] this]
  have r: "reachable pair_init (pair_step link_up link_up) ?s" .
  from conn_end_to_end [OF r] show ?thesis using r x by (intro exI [of _ ?s]) simp
qed

text \<open>
  C2. Connections over the lossy network. Two connections whose sockets are the ends of a
  \<open>NewLossyPairConn\<close>, with all their goroutines and those of the two lossy channels, in any
  interleaving and with any loss, delay and rate limit: at every moment what has been read at either
  end is a prefix of what was written at the other (until 2^32 sequence numbers are used), and a
  channel never lets through a packet more often than the connection handed it out.
\<close>

theorem conn_over_lossy:
  assumes "reachable lnet_init (lnet_step wt1 wt2) s"
  shows "(x_used (e_sys (n_1 s)) < 2 ^ 32 \<longrightarrow> prefix (x_read (e_sys (n_2 s))) (x_written (e_sys (n_1 s)))) \<and>
    (x_used (e_sys (n_2 s)) < 2 ^ 32 \<longrightarrow> prefix (x_read (e_sys (n_1 s))) (x_written (e_sys (n_2 s)))) \<and>
    mset (l_out (ln_lossy (e_lane (n_1 s)))) \<subseteq># image_mset ItemBytes (mset (outputs (c_kcp (x_conn (e_sys (n_1 s)))))) \<and>
    mset (l_out (ln_lossy (e_lane (n_2 s)))) \<subseteq># image_mset ItemBytes (mset (outputs (c_kcp (x_conn (e_sys (n_2 s))))))"
proof -
  note inv = lnet.reachable_inv [OF assms, unfolded lnet_inv_def]
  have "x_used (e_sys (n_1 s)) < 2 ^ 32 \<longrightarrow> prefix (x_read (e_sys (n_2 s))) (x_written (e_sys (n_1 s)))"
    "x_used (e_sys (n_2 s)) < 2 ^ 32 \<longrightarrow> prefix (x_read (e_sys (n_1 s))) (x_written (e_sys (n_2 s)))"
    using pair_delivery(1) inv append_prefixD by fastforce+
  then show ?thesis using peer_inv_out inv by blast
qed

theorem conn_over_lossy_witness:
  "\<exists>s :: lnet. e_sent (n_1 s) = 1 \<and> x_written (e_sys (n_2 s)) = [1, 2, 3] \<and> prefix (x_read (e_sys (n_1 s))) [1, 2, 3]"
proof -
  obtain s :: lnet where s: "reachable lnet_init (lnet_step link_up link_up) s" "x_written (e_sys (n_2 s)) = [1, 2, 3]" "x_used (e_sys (n_2 s)) = 1"
    "e_sent (n_1 s) = 1" using demo_lnet by blast
  then show ?thesis using conn_over_lossy [OF s(1)] by (intro exI [of _ s]) simp
qed

text \<open>
  C3. Refinement. Every step of a connection is a sequence of operations of its control object within
  their contract, with at most one flush: it takes from the user exactly what \<open>Write\<close> accepted, and
  what it delivers goes through the read buffer to \<open>Read\<close> in order; datagrams come from the input
  queue.
\<close>

theorem conn_refines_kcp:
  assumes "reachable sys_init (conn_step wt) x" "conn_op_ok op x" "conn_exec wt op x = Some (Inr x')"
  shows "\<exists>w g f. f \<le> 1 \<and>
     kcp_path (set (ch_items (c_chUdpInput (x_conn x)))) (c_kcp (x_conn x)) w g f (c_kcp (x_conn x')) \<and>
     x_written x' = x_written x @ w \<and>
     x_read x @ contents (c_bufRead (x_conn x)) @ g = x_read x' @ contents (c_bufRead (x_conn x'))"
  using conn_exec_refines [OF _ assms(2,3)] conn.reachable_inv [OF assms(1)]
  unfolding refines_def sys_inv_def by blast

theorem conn_refines_kcp_witness:
  "\<exists>x' w g f. conn_exec link_up (CSetMtu 1450) (server_conn 7 ''peer'') = Some (Inr x') \<and> f \<le> 1 \<and>
     kcp_path {} (c_kcp (x_conn (server_conn 7 ''peer''))) w g f (c_kcp (x_conn x')) \<and> mtu (c_kcp (x_conn x')) = 1450"
proof -
  let ?x = "server_conn 7 ''peer''"
  have i: "sys_init ?x" by (auto simp: sys_init_def)
  have k: "mtu (c_kcp (x_conn ?x)) = 1400" "ch_items (c_chUdpInput (x_conn ?x)) = []"
    by (simp_all add: server_conn_def csys0_def run_start_def accept_def newKCPConn_def Let_def newKCP_def setWndSize_def setMtu_def
        const_defs make_chan_def)
  obtain x' where x': "conn_exec link_up (CSetMtu 1450) ?x = Some (Inr x')" by simp
  have "conn_op_ok (CSetMtu 1450) ?x" using k by (simp add: const_defs udpPacketSizeLimit_def)
  from conn_refines_kcp [OF reach_init [of sys_init, OF i] this x'] obtain w g f where
    "f \<le> 1" "kcp_path {} (c_kcp (x_conn ?x)) w g f (c_kcp (x_conn x'))" using k(2) by auto
  moreover have "mtu (c_kcp (x_conn x')) = 1450" using x' by (auto simp: SetMtu_def setMtu_def const_defs)
  ultimately show ?thesis using x' by blast
qed

text \<open>
  C4. No panic. While \<open>Write\<close> gets non-empty slices (of at most 255 segments in message mode),
  \<open>Close\<close> is not called before the handshake is complete, the setters are used within their contract
  and the peer does not open with a \<open>PUSH\<close> of sequence number 0, no step of any goroutine of a
  connection panics: it is blocked, or it returns.
\<close>

theorem conn_never_panics:
  assumes "reachable sys_init (safe_step wt) x" "safe_op op x"
  shows "conn_exec wt op x = None \<or> (\<exists>x'. conn_exec wt op x = Some (Inr x'))"
  using safe_exec [OF _ assms(2), of wt] safe.reachable_inv [OF assms(1)]
  by (cases "conn_exec wt op x") (auto simp: safe_sys_def)

theorem conn_never_panics_witness:
  "\<exists>x. x_written x = [1, 2, 3] \<and>
     (conn_exec link_up (CRun 5 5 EvTimer) x = None \<or> (\<exists>x'. conn_exec link_up (CRun 5 5 EvTimer) x = Some (Inr x')))"
proof -
  obtain x where x: "reachable sys_init (safe_step link_up) x" "x_written x = [1, 2, 3]" using demo_conn by blast
  from conn_never_panics [OF x(1), of "CRun 5 5 EvTimer"] x(2) show ?thesis by auto
qed



text \<open>
  C6. Well-formedness. In every reachable state of a connection the control object and the read
  buffer satisfy their invariants, the three event channels have capacity 1, hold at most one event
  and are never closed, the input queue holds at most 8192 datagrams of at most 2048 bytes.
\<close>

theorem conn_well_formed:
  assumes "reachable sys_init (conn_step wt) x"
  shows "kcp_inv (c_kcp (x_conn x)) \<and> buf_inv (c_bufRead (x_conn x)) \<and>
    (\<forall>c \<in> {c_chReadEvent (x_conn x), c_chWriteEvent (x_conn x), c_chKcpFlushEvent (x_conn x)}.
       length (ch_items c) \<le> 1 \<and> \<not> ch_closed c) \<and>
    length (ch_items (c_chUdpInput (x_conn x))) \<le> 8192 \<and>
    (\<forall>d \<in> set (ch_items (c_chUdpInput (x_conn x))). length d \<le> 2048)"
  using conn.reachable_inv [OF assms]
  by (auto simp: sys_inv_def conn_inv_def event_ok_def chan_ok_def rxQueueLimit_def udpPacketSizeLimit_def)

theorem conn_well_formed_witness:
  "\<exists>x :: csys. x_written x = [1, 2, 3] \<and> kcp_inv (c_kcp (x_conn x)) \<and> length (ch_items (c_chReadEvent (x_conn x))) \<le> 1"
proof -
  obtain x where x: "reachable sys_init (safe_step link_up) x" "x_written x = [1, 2, 3]" using demo_conn by blast
  from conn_well_formed [OF safe_reachable [OF x(1)]] have "kcp_inv (c_kcp (x_conn x)) \<and> length (ch_items (c_chReadEvent (x_conn x))) \<le> 1"
    by blast
  with x(2) show ?thesis by blast
qed

text \<open>
  C7. The loop of \<open>Read\<close> that empties the control object ends: it panics never, it appends to the
  read buffer exactly the bytes it takes from the front of the received stream, in order, it
  takes something when a message is complete, and none is left.
\<close>

theorem read_drains:
  assumes "kcp_inv k" "buf_inv b"
  shows "\<exists>k' b' g. fill_bufRead k b = Inr (k', b') \<and> kcp_inv k' \<and> buf_inv b' \<and> contents b' = contents b @ g \<and>
    concat (map s_data (rcv_queue k @ rcv_buf k)) = g @ concat (map s_data (rcv_queue k' @ rcv_buf k')) \<and>
    fst (recvSize k') \<le> 0 \<and> (fst (recvSize k) > 0 \<longrightarrow> g \<noteq> [])"
proof -
  obtain k' b' g where f: "fill_bufRead k b = Inr (k', b')" "kcp_path {} k [] g 0 k'" "buf_inv b'"
    "contents b' = contents b @ g" "fst (recvSize k') \<le> 0" "fst (recvSize k) > 0 \<longrightarrow> g \<noteq> []"
    using fill_bufRead_ok [OF assms, of "{}"] by blast
  moreover have "concat (map s_data (rcv_queue k @ rcv_buf k)) = g @ concat (map s_data (rcv_queue k' @ rcv_buf k'))"
    using fill_bufRead_stream [OF f(1) assms(2)] f(4) by (simp add: qbytes_def)
  ultimately show ?thesis using path_inv [OF f(2) assms(1)] by blast
qed

theorem read_drains_witness:
  "\<exists>k' b'. fill_bufRead (newKCP \<lparr> rcv_queue := [segment0 \<lparr> s_data := [4, 5] \<rparr>] \<rparr>) Buffer0 = Inr (k', b') \<and> contents b' \<noteq> []"
proof -
  let ?k = "newKCP \<lparr> rcv_queue := [segment0 \<lparr> s_data := [4, 5] \<rparr>] \<rparr>"
  have "kcp_inv ?k"
    by (simp add: kcp_inv_def rcv_inv_def snd_inv_def una_of_def flush_pre_def cfg_inv_def
        queued_ok_def newKCP_def segment0_def const_defs udpPacketSizeLimit_def WND_MAX_def)
  moreover have "fst (recvSize ?k) > 0" by code_simp
  ultimately show ?thesis using read_drains [OF _ Buffer0_inv(1), of ?k] Buffer0_inv(2) by fastforce
qed

text \<open>
  C8. Closing ends. From any state in which \<open>run\<close> leaves its main loop it does so without a panic,
  and if no more datagrams arrive the closing loop returns: 51 rounds are enough, and
  they take at most six seconds.
\<close>

theorem closing_terminates:
  assumes "reachable sys_init (conn_step wt) x"
  shows "\<exists>r1 s1 r2 s2 t. run_leave wt now1 now2 (x_run x) (x_conn x) = Inr (r1, s1) \<and>
    closing wt 51 now2 r1 s1 = Some (Inr (r2, s2, t)) \<and> r_pc r2 = Returned \<and> t \<le> now2 + 6000000000"
proof -
  have inv: "conn_inv (x_conn x)" using conn.reachable_inv [OF assms] by (simp add: sys_inv_def)
  obtain r1 s1 where l: "run_leave wt now1 now2 (x_run x) (x_conn x) = Inr (r1, s1)" "conn_run {} 1 (x_conn x) [] s1"
    using run_leave_run [OF inv] by blast
  then have "closeWaitStartTime r1 = now2" by (auto simp: run_leave_def Let_def bind_res_eq_Inr)
  with closing_ends [OF conn_run_inv [OF l(2)], of r1 now2 50 wt] l(1) show ?thesis by auto
qed

theorem closing_terminates_witness:
  "\<exists>r1 s1 r2 s2 t. run_leave link_up 5 7 (x_run (client_conn 9 ''a'')) (x_conn (client_conn 9 ''a'')) = Inr (r1, s1) \<and>
    closing link_up 51 7 r1 s1 = Some (Inr (r2, s2, t)) \<and> r_pc r2 = Returned \<and> t \<le> 6000000007"
proof -
  have i: "sys_init (client_conn 9 ''a'')" by (auto simp: sys_init_def)
  from closing_terminates [OF reach_init [of sys_init, OF i], of link_up 5 7] show ?thesis by simp
qed

text \<open>
  C9. What \<open>DialTimeout\<close> returns, whatever the resolver, the socket, the peer and the scheduler do: a
  connection without an error, on which the handshake is complete (or which has been closed since) and
  to which everything shown of reachable connections applies; or no connection and an error, of the net
  package, or a timeout, which needs a timeout other than 0.
\<close>

theorem dial_outcome:
  assumes "reachable dial_init (dial_step wt) d" "d_ret d = Some (connected, err)"
  shows "connected \<and> err = None \<and> (\<exists>x. d_sys d = Some x \<and> reachable sys_init (conn_step wt) x \<and>
      (isStateConnected (c_kcp (x_conn x)) \<or> isStateLocalClosed (c_kcp (x_conn x)))) \<or>
    \<not> connected \<and> err = Some DialTimedOut \<and> d_timeout d \<noteq> 0 \<or>
    \<not> connected \<and> d_sys d = None \<and> (\<exists>e. err = Some (NetError e))"
  using dial.reachable_inv [OF assms(1)] assms(2) by (auto simp: dial_inv_def dial_ret_ok_def established_def)

theorem dial_outcome_witness:
  "\<exists>d :: dial. d_ret d = Some (True, None) \<and> (\<exists>x. d_sys d = Some x \<and> reachable sys_init (conn_step link_up) x)"
proof -
  obtain d where d: "dial_run link_up dial_ops (dial0 0) = Some d" "d_ret d = Some (True, None)"
    using demo_dial_run by auto
  show ?thesis using dial_outcome [OF dial_run_start [OF d(1)] d(2)] d(2) by auto
qed

section \<open>Listener\<close>

text \<open>
  C10. The session table. In every state of a listener, its users and its connections, an entry of
  the table is a connection with that remote address, so two addresses never share one; when
  its goroutine \<open>run\<close> has returned, it is waiting in \<open>chDeadConns\<close> to be removed, unless the listener is
  closed; and every connection satisfies its invariant.
\<close>

theorem listener_table:
  assumes "reachable (\<lambda>l. l = ServeConn) (lis_step wt) l"
  shows "(\<forall>a i. l_sessions l a = Some i \<longrightarrow> i < length (l_conns l) \<and> RemoteAddr (x_conn (l_conns l ! i)) = a \<and>
      (r_pc (x_run (l_conns l ! i)) = Returned \<longrightarrow> i \<in> set (ch_items (l_chDeadConns l)) \<or> ch_closed (l_die l))) \<and>
    length (ch_items (l_chAccepts l)) \<le> 4096 \<and>
    (\<forall>x \<in> set (l_conns l). kcp_inv (c_kcp (x_conn x)))"
  using lis.reachable_inv [OF assms]
  by (auto simp: lis_inv_def table_ok_def queues_ok_def event_ok_def chan_ok_def sys_inv_def conn_inv_def addr_of_def RemoteAddr_def)

theorem listener_table_witness:
  "\<exists>l :: Listener. l_sessions l ''p'' = Some 0 \<and> RemoteAddr (x_conn (l_conns l ! 0)) = ''p'' \<and> 0 < length (l_conns l)"
  using demo_listener listener_table by blast

text \<open>
  C11. Demultiplexing. In its \<open>select\<close>, \<open>server\<close> gives a packet of at least 24 bytes to the
  session of its address when the conversation is that of the session; a packet of another
  conversation is dropped while the session is open to the peer, and opens a new session in its
  place otherwise; an unknown address gets a new session. A shorter packet is dropped.
  The sessions of all other addresses are not touched.
\<close>

theorem listener_routing:
  assumes "reachable (\<lambda>l. l = ServeConn) (lis_step wt) l"
  shows "\<exists>l'. server_packet from data l = Inr l' \<and>
    (\<forall>a. a \<noteq> from \<longrightarrow> l_sessions l' a = l_sessions l a) \<and>
    (if length data < IKCP_OVERHEAD then l' = l
     else \<exists>cv. packet_conv data = Inr cv \<and>
       (let fresh = length (l_conns l);
            opened = (l_sessions l' from = Some fresh \<and> l_conns l' = l_conns l @ [server_conn cv from] \<and>
                      GetConv (x_conn (l_conns l' ! fresh)) = cv \<and> l_pc l' = SrvAccept fresh data)
        in case l_sessions l from of
             None \<Rightarrow> opened
           | Some i \<Rightarrow> if GetConv (x_conn (l_conns l ! i)) = cv then l' = l \<lparr> l_pc := SrvInput i data \<rparr>
                       else if isRemoteOpen (c_kcp (x_conn (l_conns l ! i))) then l' = l else opened))"
proof (cases "length data < IKCP_OVERHEAD")
  case True
  then show ?thesis by (simp add: server_packet_def)
next
  case False
  then obtain cv where "packet_conv data = Inr cv" using packet_conv_total by (metis not_less)
  moreover have "GetConv (x_conn (server_conn cv from)) = cv"
    by (simp add: GetConv_def server_conn_def csys0_def run_start_def accept_def)
  ultimately show ?thesis using False
    by (auto simp: server_packet_def new_session_def Let_def sess.lookup_put sess.lookup_del nth_append split: option.split)
qed

theorem listener_routing_witness:
  "\<exists>l'. server_packet ''p'' hello ServeConn = Inr l' \<and> l_sessions l' ''p'' = Some 0 \<and> l_pc l' = SrvAccept 0 hello"
proof -
  have "reachable (\<lambda>l. l = ServeConn) (lis_step (\<lambda>_. link_up)) ServeConn" by (rule reach_init) simp
  from listener_routing [OF this, of "''p''" hello] show ?thesis
    by (auto simp: ServeConn_def hello_def IKCP_OVERHEAD_def Let_def)
qed

text \<open>
  C12. Whatever arrives, whatever the goroutines of the listener and its connections do, a step of
  \<open>server\<close> does not panic; removing a dead connection removes its own entry and
  no other, even when its address has a new session.
\<close>

theorem listener_server:
  assumes "reachable (\<lambda>l. l = ServeConn) (lis_step wt) l"
  shows "(server_step ev l = None \<or> (\<exists>l'. server_step ev l = Some (Inr l') \<and> lis_inv l')) \<and>
    (\<forall>i a. l_sessions (server_dead i l) a = (if l_sessions l a = Some i then None else l_sessions l a))"
proof -
  have inv: "lis_inv l" using lis.reachable_inv [OF assms] .
  have addr: "l_sessions l a = Some i \<Longrightarrow> RemoteAddr (x_conn (l_conns l ! i)) = a" for a i
    using inv by (auto simp: lis_inv_def table_ok_def addr_of_def RemoteAddr_def)
  have "l_sessions (server_dead i l) a = (if l_sessions l a = Some i then None else l_sessions l a)" for i a
  proof (cases "l_sessions l a = Some i")
    case True
    then show ?thesis using addr [OF True] by (simp add: server_dead_def Let_def sess.lookup_del)
  next
    case False
    then show ?thesis by (auto simp: server_dead_def Let_def sess.lookup_del)
  qed
  then show ?thesis using server_step_inv [OF inv, of ev] by (cases "server_step ev l") auto
qed

theorem listener_server_witness:
  "\<exists>l :: Listener. l_sessions l ''p'' = Some 0 \<and> l_sessions (server_dead 0 l) ''p'' = None"
  using demo_listener listener_server by fastforce

section \<open>End-to-end delivery\<close>

text \<open>
  C13. Safety of the protocol from end to end. Whatever the network loses, duplicates, delays
  or reorders, and whatever datagrams the sending side is fed, the bytes handed to the
  receiver's user are a prefix of the bytes the sender's user has written, while fewer than
  \<open>2 ^ 32\<close> sequence numbers are used.
\<close>

theorem end_to_end_prefix:
  assumes "reachable net_init net_step s" "used s < 2 ^ 32"
  shows "prefix (got s) (sent s)"
  using net_delivery(1) [OF assms] by (rule append_prefixD)

theorem end_to_end_prefix_witness:
  "\<exists>s. reachable net_init net_step s \<and> used s < 2 ^ 32 \<and> got s = [1, 2, 3] \<and> prefix (got s) (sent s)"
  using demo_state end_to_end_prefix by blast

text \<open>
  C14. Nothing is missing. When the receiver expects the sequence number the sender would use
  next, what was written is what was read, what waits in the receive queue, and what waits in
  the send queue, in this order.
\<close>

theorem end_to_end_complete:
  assumes "reachable net_init net_step s" "used s < 2 ^ 32" "rcv_nxt (rcvr s) = snd_nxt (sndr s)"
  shows "sent s = got s @ qbytes (rcv_queue (rcvr s)) @ qbytes (snd_queue (sndr s))"
  using net_delivery(2) [OF assms] .

theorem end_to_end_complete_witness:
  "\<exists>s :: net. sent s = [1, 2, 3] \<and> sent s = got s @ qbytes (rcv_queue (rcvr s)) @ qbytes (snd_queue (sndr s))"
proof -
  obtain s where "reachable net_init net_step s" "used s < 2 ^ 32" "rcv_nxt (rcvr s) = snd_nxt (sndr s)"
    "sent s = [1, 2, 3]" using demo_state by blast
  then show ?thesis using end_to_end_complete by blast
qed

text \<open>
  C15. Recovery from loss. The segment the receiver waits for is in flight at the sender and its
  retransmission time has come. Then the next flush hands out a packet which, delivered to the
  receiver, takes it past this segment, whatever else was lost, as long as the receive queue has room.
\<close>

theorem loss_recovered:
  assumes "reachable net_init net_step s" "used s + 65535 < 2 ^ 32"
    and "x \<in> set (snd_buf (sndr s))" "s_sn x = rcv_nxt (rcvr s)" "itimediff current (s_resendts x) \<ge> 0 \<or> s_xmit x = 0"
    and "conv (rcvr s) = conv (sndr s)" "length (rcv_queue (rcvr s)) < unat (rcv_wnd (rcvr s))"
    and "mtu (sndr s) \<le> int udpPacketSizeLimit"
  shows "\<exists>k pkts p. flush current (sndr s) = Inr k \<and> outputs k = outputs (sndr s) @ pkts \<and> p \<in> set pkts \<and>
    (\<forall>now upd. \<exists>res r n n'. input now p upd (rcvr s) = Inr (res, r) \<and>
       rcv_nxt (rcvr s) = of_nat n \<and> rcv_nxt r = of_nat n' \<and> n < n' \<and> n' < 2 ^ 32)"
proof -
  have inv: "kcp_inv (sndr s)" "kcp_inv (rcvr s)" using net.reachable_inv [OF assms(1)] by (simp_all add: net_inv_def)
  obtain k where fl: "flush current (sndr s) = Inr k" using flush_kcp_inv [OF inv(1)] by blast
  have u: "used s < 2 ^ 32" "used s + soff (snd_nxt (sndr s)) (snd_nxt k) < 2 ^ 32"
    using assms(2) flush_used [OF inv(1) fl] by (simp_all add: WND_MAX_def)
  have "due_now current x" using assms(5) by (auto simp: due_now_def)
  from resend_advances [OF assms(1) u(1) assms(3,4) this assms(6,7) fl u(2)] obtain pkts p where p:
    "outputs k = outputs (sndr s) @ pkts" "p \<in> set pkts"
    "\<forall>now upd res r'. input now p upd (rcvr s) = Inr (res, r') \<longrightarrow>
       (\<exists>n n'. n < n' \<and> n' < 2 ^ 32 \<and> rcv_nxt (rcvr s) = of_nat n \<and> rcv_nxt r' = of_nat n')" by blast
  have "length p \<le> udpPacketSizeLimit"
    using flush_ok [of "sndr s" current] inv(1) fl p(1,2) assms(8) by (fastforce simp: kcp_inv_def pkt_ok_def)
  then have "\<exists>res r n n'. input now p upd (rcvr s) = Inr (res, r) \<and>
       rcv_nxt (rcvr s) = of_nat n \<and> rcv_nxt r = of_nat n' \<and> n < n' \<and> n' < 2 ^ 32" for now upd
    using input_kcp_total [OF inv(2), of p now upd] p(3) by meson
  then show ?thesis using fl p(1,2) by metis
qed

theorem loss_recovered_witness:
  "\<exists>(s :: net) k p r. flush 1000 (sndr s) = Inr k \<and> p \<in> set (outputs k) \<and> input 1005 p True (rcvr s) = Inr r \<and> rcv_nxt (snd r) \<noteq> rcv_nxt (rcvr s)"
proof -
  obtain s x where s: "reachable net_init net_step s" "used s = 1" "x \<in> set (snd_buf (sndr s))" "s_sn x = rcv_nxt (rcvr s)"
    "due_now 1000 x" "conv (rcvr s) = conv (sndr s)" "length (rcv_queue (rcvr s)) < unat (rcv_wnd (rcvr s))" "mtu (sndr s) = 1400"
    using demo_lost by blast
  have d: "itimediff 1000 (s_resendts x) \<ge> 0 \<or> s_xmit x = 0" "used s + 65535 < 2 ^ 32" "mtu (sndr s) \<le> int udpPacketSizeLimit"
    using s(2,5,8) by (auto simp: due_now_def udpPacketSizeLimit_def)
  obtain k pkts p where p: "flush 1000 (sndr s) = Inr k" "outputs k = outputs (sndr s) @ pkts" "p \<in> set pkts"
    "\<forall>now upd. \<exists>res r n n'. input now p upd (rcvr s) = Inr (res, r) \<and>
       rcv_nxt (rcvr s) = of_nat n \<and> rcv_nxt r = of_nat n' \<and> n < n' \<and> n' < 2 ^ 32"
    using loss_recovered [OF s(1) d(2) s(3,4) d(1) s(6,7) d(3)] by blast
  then obtain res r n n' where r: "input 1005 p True (rcvr s) = Inr (res, r)" "rcv_nxt (rcvr s) = of_nat n" "rcv_nxt r = of_nat n'"
    "n < n'" "n' < 2 ^ 32" by blast
  then have "rcv_nxt r \<noteq> rcv_nxt (rcvr s)" using of_nat_u32_inj [of n n'] by auto
  then show ?thesis using p(1-3) r(1) by (intro exI [of _ s] exI [of _ k] exI [of _ p] exI [of _ "(res, r)"]) simp
qed

section \<open>The control object as a machine\<close>

text \<open>
  C16. Type safety. In every state the operations can reach, every further operation within
  the callers' contract returns: no slice bound, division or conversion panics. The next state
  satisfies the invariant again.
\<close>

theorem operations_never_panic:
  assumes "reachable kcp_init kcp_step k" "op_ok op k"
  shows "\<exists>k'. exec op k = Inr k' \<and> kcp_inv k'"
  using exec_total [OF kcp.reachable_inv [OF assms(1)] assms(2)] .

lemma newKCP_reachable: "reachable kcp_init kcp_step (newKCP \<lparr> conv := c \<rparr>)"
  by (rule reach_init) (auto simp: kcp_init_def)

theorem operations_never_panic_witness:
  "\<exists>k'. exec (OpInput 7 (replicate 30 255) True) (newKCP \<lparr> conv := 9 \<rparr>) = Inr k' \<and> kcp_inv k'"
  using operations_never_panic [OF newKCP_reachable, of "OpInput 7 (replicate 30 255) True" 9]
  by (simp add: udpPacketSizeLimit_def)

text \<open>
  C17. Memory. A peer cannot make the queues grow: the reorder buffer holds at most
  one segment more than the receive window, the receive queue at most two windows, and at most
  65535 segments are in flight.
\<close>

theorem queues_bounded:
  assumes "reachable kcp_init kcp_step k"
  shows "length (rcv_buf k) \<le> unat (rcv_wnd k) + 1 \<and> length (rcv_queue k) \<le> 2 * unat (rcv_wnd k) \<and>
    length (snd_buf k) \<le> 65535"
  using kcp_inv_memory [OF kcp.reachable_inv [OF assms]] by (simp add: WND_MAX_def)

theorem queues_bounded_witness:
  "\<exists>k :: KCP. snd_queue k \<noteq> [] \<and> length (rcv_queue k) \<le> 2 * unat (rcv_wnd k) \<and> length (snd_buf k) \<le> 65535"
proof -
  let ?k = "newKCP \<lparr> conv := 1 \<rparr>"
  have "exec (OpSend [1, 2]) ?k = Inr (?k \<lparr> snd_queue := mk_frags True [[1, 2]] \<rparr>)" by code_simp
  from reach_step [OF newKCP_reachable kcp_step.intros [OF _ this]]
  have "reachable kcp_init kcp_step (?k \<lparr> snd_queue := mk_frags True [[1, 2]] \<rparr>)" by simp
  moreover have "mk_frags True [[1, 2]] \<noteq> []" by simp
  ultimately show ?thesis using queues_bounded
    by (intro exI [of _ "?k \<lparr> snd_queue := mk_frags True [[1, 2]] \<rparr>"]) fastforce
qed

text \<open>
  C18. The retransmission timeout stays between 30 ms and one minute, whatever
  acknowledgements arrive and however the clocks behave.
\<close>

theorem rto_bounded:
  assumes "reachable kcp_init kcp_step k"
  shows "IKCP_RTO_NDL \<le> rx_rto k \<and> rx_rto k \<le> IKCP_RTO_MAX"
  using kcp.reachable_inv [OF assms] by (simp add: kcp_inv_def cfg_inv_def)

theorem rto_bounded_witness: "IKCP_RTO_NDL \<le> rx_rto (newKCP \<lparr> conv := 1 \<rparr>)"
  using rto_bounded [OF newKCP_reachable] by blast

section \<open>Flush\<close>

text \<open>
  C19. What one flush does. It never panics; it admits the segments at the front of the send
  queue for which the effective window has room, in order and with consecutive sequence
  numbers, behind those already in flight; every packet it hands out is non-empty, within the
  MTU, and a sequence of whole frames: control segments of this conversation or segments in
  flight. Pending acknowledgements and probes are used up and the congestion window is at
  least one; the receiving half and the settings are not touched.
\<close>

theorem flush_behaviour:
  assumes "kcp_inv k"
  shows "\<exists>k' pkts. flush current k = Inr k' \<and> kcp_inv k' \<and>
    map ident (snd_buf k') =
      map ident (snd_buf k) @ stamps (conv k) (snd_nxt k) (take (flush_count k) (snd_queue k)) \<and>
    snd_queue k' = drop (flush_count k) (snd_queue k) \<and>
    snd_nxt k' = snd_nxt k + of_nat (flush_count k) \<and>
    outputs k' = outputs k @ pkts \<and>
    (\<forall>p \<in> set pkts. pkt_ok (\<lambda>s. ctl (conv k) s \<or> ident s \<in> set (flush_idents k)) (mtu k) p) \<and>
    acklist k' = [] \<and> probe k' = 0 \<and> 1 \<le> cwnd k' \<and> flush_frame k' = flush_frame k"
proof -
  have pre: "flush_pre k" "snd_inv k" using assms by (simp_all add: kcp_inv_def)
  obtain k' where "flush current k = Inr k'" "kcp_inv k'" using flush_kcp_inv [OF assms] by blast
  then show ?thesis using flush_ok [OF pre, of current] by (auto simp: flush_idents_def)
qed

definition queued1 :: KCP where
  "queued1 = newKCP \<lparr> cwnd := 4, snd_queue := [segment0 \<lparr> s_cmd := IKCP_CMD_PUSH, s_data := [7] \<rparr>] \<rparr>"

lemma queued1_inv: "kcp_inv queued1"
  by (simp add: queued1_def kcp_inv_def rcv_inv_def snd_inv_def una_of_def flush_pre_def cfg_inv_def
      queued_ok_def newKCP_def segment0_def const_defs udpPacketSizeLimit_def WND_MAX_def)

theorem flush_behaviour_witness: "\<exists>k'. flush 5 queued1 = Inr k' \<and> snd_nxt k' = 1 \<and> snd_queue k' = []"
proof -
  have "flush_count queued1 = 1"
    by (simp add: flush_count_def queued1_def calc_cwnd_def newKCP_def const_defs)
  then show ?thesis using flush_behaviour [OF queued1_inv, of 5] by (auto simp: queued1_def newKCP_def)
qed

text \<open>
  C20. Everything that should leave does leave. The bytes a flush adds to the network are the
  frames of the selected acknowledgements, in order, followed by frames among which is one for
  every segment admitted and one for every segment in flight whose retransmission time has come.
\<close>

theorem flush_transmits:
  assumes "kcp_inv k" "flush current k = Inr k'"
  shows "\<exists>ws. concat (outputs k') = concat (outputs k) @
      concat (map wire (map (ack_seg (flush_template k)) (ack_sel (rcv_nxt k) (acklist k)) @ ws)) \<and>
    set (stamps (conv k) (snd_nxt k) (take (flush_count k) (snd_queue k))) \<subseteq> ident ` set ws \<and>
    (\<forall>s \<in> set (snd_buf k). itimediff current (s_resendts s) \<ge> 0 \<longrightarrow> ident s \<in> ident ` set ws)"
proof -
  have "snd_inv k" "\<forall>s \<in> set (snd_queue k). s_xmit s = 0" using assms(1) by (auto simp: kcp_inv_def queued_ok_def)
  from flush_log [OF this assms(2)] obtain ws where ws: "concat (outputs k') = concat (outputs k) @
      concat (map wire (map (ack_seg (flush_template k)) (ack_sel (rcv_nxt k) (acklist k)) @ ws))"
    "set (stamps (conv k) (snd_nxt k) (take (flush_count k) (snd_queue k))) \<union> ident ` {s \<in> set (snd_buf k). due_now current s}
      \<subseteq> ident ` set ws" by blast
  have "ident s \<in> ident ` set ws" if "s \<in> set (snd_buf k)" "itimediff current (s_resendts s) \<ge> 0" for s
    using ws(2) that unfolding due_now_def by blast
  then show ?thesis using ws by blast
qed

theorem flush_transmits_witness:
  "\<exists>k' ws. flush 5 queued1 = Inr k' \<and> concat (outputs k') = concat (map wire ws) \<and>
     (0, IKCP_CMD_PUSH, 0, 0, [7]) \<in> ident ` set ws"
proof -
  obtain k' where k': "flush 5 queued1 = Inr k'" using flush_kcp_inv [OF queued1_inv] by blast
  have "flush_count queued1 = 1"
    by (simp add: flush_count_def queued1_def calc_cwnd_def newKCP_def const_defs)
  then show ?thesis using flush_transmits [OF queued1_inv k'] k'
    by (auto simp: queued1_def newKCP_def segment0_def)
qed

text \<open>
  C21. Flow and congestion control. A flush that sends something new leaves no more sequence numbers
  in flight than the send window, the window the peer advertised and, unless congestion control is
  switched off, the congestion window allow; and no more of the queue waits than these windows
  demand: either it is empty, or the smallest of them is used up.
\<close>

theorem flush_respects_window:
  assumes "kcp_inv k" "flush current k = Inr k'" "snd_nxt k' \<noteq> snd_nxt k"
  shows "soff (snd_una k') (snd_nxt k') \<le> unat (snd_wnd k) \<and> soff (snd_una k') (snd_nxt k') \<le> unat (rmt_wnd k) \<and>
    (nocwnd k = 0 \<longrightarrow> soff (snd_una k') (snd_nxt k') \<le> unat (cwnd k)) \<and>
    soff (snd_una k') (snd_nxt k') \<le> unat (calc_cwnd k) \<and> unat (calc_cwnd k) \<le> unat (rmt_wnd k) \<and>
    unat (calc_cwnd k) \<le> unat (snd_wnd k) \<and>
    (snd_queue k' \<noteq> [] \<longrightarrow> soff (snd_una k') (snd_nxt k') = unat (snd_wnd k) \<or>
       soff (snd_una k') (snd_nxt k') = unat (rmt_wnd k) \<or>
       nocwnd k = 0 \<and> soff (snd_una k') (snd_nxt k') = unat (cwnd k))"
proof -
  have pre: "flush_pre k" and inv: "snd_inv k" using assms(1) by (simp_all add: kcp_inv_def)
  have n: "snd_nxt k' = snd_nxt k + of_nat (flush_count k)" "snd_una k' = snd_una k" "snd_queue k' = drop (flush_count k) (snd_queue k)"
    using flush_ok [OF pre inv, of current] assms(2) by (auto simp: flush_frame_def)
  then have "0 < flush_count k" using assms(3) by (cases "flush_count k") auto
  note span = flush_count_span [OF inv this]
  then have d: "soff (snd_una k') (snd_nxt k') = soff (snd_una k) (snd_nxt k) + flush_count k"
    unfolding n using calc_cwnd_le [OF inv] by (intro soff_advance) (simp add: WND_MAX_def)
  have full: "soff (snd_una k') (snd_nxt k') = unat (calc_cwnd k)" if "snd_queue k' \<noteq> []"
    using that d span n(3) by (simp add: flush_count_def min_def split: if_splits)
  note w = calc_cwnd_windows [of k]
  show ?thesis using d span w full by force
qed

theorem flush_respects_window_witness:
  "\<exists>k'. flush 5 queued1 = Inr k' \<and> soff (snd_una k') (snd_nxt k') \<le> 4"
proof -
  obtain k' where k': "flush 5 queued1 = Inr k'" "snd_nxt k' = snd_nxt queued1 + of_nat (flush_count queued1)"
    using flush_ok [of queued1 5] queued1_inv by (auto simp: kcp_inv_def)
  moreover have "flush_count queued1 = 1" "unat (calc_cwnd queued1) = 4"
    by (simp_all add: flush_count_def queued1_def calc_cwnd_def newKCP_def const_defs)
  ultimately show ?thesis using flush_respects_window [OF queued1_inv k'(1)] by auto
qed

section \<open>Input\<close>

text \<open>
  C22. Robustness against hostile datagrams. Any sequence of bytes that fits the receive
  buffer of the program is processed without a panic and leaves a consistent control object;
  the fields a peer has no business changing keep their values.
\<close>

theorem input_robust:
  assumes "kcp_inv k" "length data \<le> udpPacketSizeLimit"
  shows "\<exists>r k'. input current data upd k = Inr (r, k') \<and> kcp_inv k' \<and> input_frame k' = input_frame k"
proof -
  obtain r k' where "input current data upd k = Inr (r, k')" "kcp_inv k'"
    using input_kcp_total [OF assms] by blast
  then show ?thesis using input_frame_input by blast
qed

theorem input_robust_witness:
  "\<exists>r k'. input 0 (replicate 100 0x51) True newKCP = Inr (r, k') \<and> kcp_inv k'"
  using input_robust [OF newKCP_inv, of "replicate 100 0x51" 0 True] by (auto simp: udpPacketSizeLimit_def)

text \<open>
  C23. Rejected datagrams. \<open>input\<close> gives an error code exactly when the datagram is shorter than a
  header (-1), or consists of well-formed segments of the conversation followed by a rest that starts
  with a whole header and is of another conversation (-1), announces more data than there is (-2) or has
  an unknown command (-3). The control object is then the one that the segments before the
  rest lead to, processed one by one and in full: unchanged when there are none.
\<close>

theorem input_rejects:
  "input current data upd k = Inr (r, k') \<and> r \<noteq> 0 \<longleftrightarrow>
   length data < IKCP_OVERHEAD \<and> r = -1 \<and> k' = k \<or>
   (\<exists>fs rest v. data = concat (map seg_bytes fs) @ rest \<and> list_all (seg_valid (conv k)) fs \<and>
      bad_rest (conv k) rest r \<and> input_segs fs ackvars0 k = Inr (v, k'))"
  by (rule input_rejected)

theorem input_rejects_witness:
  "\<exists>k'. input 0 (wire (segment0 \<lparr> s_cmd := IKCP_CMD_WASK \<rparr>) @ wire (segment0 \<lparr> s_conv := 5 \<rparr>)) True newKCP = Inr (-1, k') \<and>
     probe k' = IKCP_ASK_TELL"
proof -
  let ?h = "seg_header (segment0 \<lparr> s_cmd := IKCP_CMD_WASK \<rparr>)" and ?f = "seg_header (segment0 \<lparr> s_conv := 5 \<rparr>)"
  have "(case input_segs [(?h, [])] ackvars0 newKCP of Inr (v, k) \<Rightarrow> probe k = IKCP_ASK_TELL | Inl e \<Rightarrow> False)" by code_simp
  then obtain v k' where k': "input_segs [(?h, [])] ackvars0 newKCP = Inr (v, k')" "probe k' = IKCP_ASK_TELL"
    by (auto split: sum.splits)
  have "bad_rest (conv newKCP) (header_bytes ?f) (-1)"
    using decode_header_bytes [of ?f "[]"] by (simp add: bad_rest_def seg_header_def newKCP_def)
  moreover have "seg_valid (conv newKCP) (?h, [])"
    by (simp add: seg_valid_def seg_header_def segment0_def newKCP_def known_cmd_def const_defs)
  moreover have "header_bytes ?h @ header_bytes ?f = concat (map seg_bytes [(?h, [])]) @ header_bytes ?f" by (simp add: seg_bytes_def)
  ultimately have "\<exists>fs rest v. header_bytes ?h @ header_bytes ?f = concat (map seg_bytes fs) @ rest \<and>
      list_all (seg_valid (conv newKCP)) fs \<and> bad_rest (conv newKCP) rest (-1) \<and> input_segs fs ackvars0 newKCP = Inr (v, k')"
    using k'(1) by (intro exI [of _ "[(?h, [])]"] exI [of _ "header_bytes ?f"] exI [of _ v]) simp
  from input_rejects [of 0 "header_bytes ?h @ header_bytes ?f" True newKCP "-1" k', THEN iffD2, OF disjI2, OF this]
  have "input 0 (header_bytes ?h @ header_bytes ?f) True newKCP = Inr (-1, k')" by blast
  then show ?thesis using k'(2) by (simp add: wire_def segment0_def)
qed

section \<open>Reassembly\<close>

text \<open>
  C24. Reassembly. A segment outside the receive window changes nothing. A segment inside it
  is filed once (a repeat is not), the reorder buffer stays sorted and free of duplicates, and
  then the run of consecutive segments from \<open>rcv_nxt\<close> on moves to the receive queue; if the
  queue had room, no further segment is ready afterwards.
\<close>

theorem reassembly:
  assumes inv: "rcv_inv k" and k': "k' = parse_data s k"
  shows "rcv_inv k' \<and>
    (\<not> soff (rcv_nxt k) (s_sn s) < unat (rcv_wnd k) \<longrightarrow> k' = k) \<and>
    (soff (rcv_nxt k) (s_sn s) < unat (rcv_wnd k) \<longrightarrow>
      (\<exists>new. rcv_queue k' = rcv_queue k @ new \<and>
        map s_sn new = map (\<lambda>i. rcv_nxt k + of_nat i) [0..<length new] \<and>
        rcv_nxt k' = rcv_nxt k + of_nat (length new) \<and>
        set new \<union> set (rcv_buf k') =
          set (rcv_buf k) \<union> (if s_sn s \<in> s_sn ` set (rcv_buf k) then {} else {s}) \<and>
        (length (rcv_queue k) < unat (rcv_wnd k) \<longrightarrow>
          rcv_buf k' = [] \<or> s_sn (hd (rcv_buf k')) \<noteq> rcv_nxt k')))"
proof -
  have w: "unat (rcv_wnd k) < 2 ^ 31" using inv by (simp add: rcv_inv_def)
  note eq = parse_data_eq [OF w, of s]
  have "\<exists>new. rcv_queue k' = rcv_queue k @ new \<and>
        map s_sn new = map (\<lambda>i. rcv_nxt k + of_nat i) [0..<length new] \<and>
        rcv_nxt k' = rcv_nxt k + of_nat (length new) \<and>
        set new \<union> set (rcv_buf k') =
          set (rcv_buf k) \<union> (if s_sn s \<in> s_sn ` set (rcv_buf k) then {} else {s}) \<and>
        (length (rcv_queue k) < unat (rcv_wnd k) \<longrightarrow> rcv_buf k' = [] \<or> s_sn (hd (rcv_buf k')) \<noteq> rcv_nxt k')"
    if win: "soff (rcv_nxt k) (s_sn s) < unat (rcv_wnd k)"
  proof -
    have m: "k' = move_ready (rcv_filed s k)" using eq win k' by simp
    have f: "rcv_nxt (rcv_filed s k) = rcv_nxt k" "rcv_queue (rcv_filed s k) = rcv_queue k"
      "rcv_wnd (rcv_filed s k) = rcv_wnd k"
      "set (rcv_buf (rcv_filed s k)) = set (rcv_buf k) \<union> (if s_sn s \<in> s_sn ` set (rcv_buf k) then {} else {s})"
      using rcv_filed_fields [OF inv win] by auto
    show ?thesis using move_ready_moves [of "rcv_filed s k"] m f by metis
  qed
  then show ?thesis using parse_data_inv [OF inv, of s] eq k' by auto
qed

theorem reassembly_witness:
  "set (rcv_buf (parse_data (segment0 \<lparr> s_sn := 3, s_data := [1] \<rparr>) newKCP)) = {segment0 \<lparr> s_sn := 3, s_data := [1] \<rparr>}"
proof -
  let ?s = "segment0 \<lparr> s_sn := 3, s_data := [1] \<rparr>"
  have i: "rcv_inv newKCP" using newKCP_inv by (simp add: kcp_inv_def)
  have w: "soff (rcv_nxt newKCP) (s_sn ?s) < unat (rcv_wnd newKCP)" "rcv_nxt newKCP = 0" "rcv_buf newKCP = []"
    by (simp_all add: newKCP_def soff_def const_defs)
  obtain new where n: "map s_sn new = map (\<lambda>i. of_nat i) [0..<length new]"
    "set new \<union> set (rcv_buf (parse_data ?s newKCP)) = {?s}"
    using reassembly [OF i refl, of ?s] w by auto
  have "new = []"
  proof (cases new)
    case (Cons a as)
    then have "s_sn a = 0" using n(1) by (simp add: upt_conv_Cons del: upt_Suc)
    moreover have "a = ?s" using n(2) Cons by auto
    ultimately show ?thesis by simp
  qed
  then show ?thesis using n(2) by simp
qed

section \<open>Acknowledgements\<close>

text \<open>
  C25. A selective acknowledgement removes exactly the segment it names from the send buffer,
  and nothing else changes; one for a segment that is not in flight has no effect.
\<close>

theorem ack_exact:
  assumes "snd_inv k"
  shows "parse_ack sn k = k \<lparr> snd_buf := filter (\<lambda>s. s_sn s \<noteq> sn) (snd_buf k) \<rparr>"
  using parse_ack_exact [OF assms] .

text \<open>Two segments in flight.\<close>

definition inflight :: KCP where
  "inflight = newKCP \<lparr> snd_buf := [segment0, segment0 \<lparr> s_sn := 1 \<rparr>], snd_nxt := 2 \<rparr>"

lemma inflight_inv: "snd_inv inflight"
  by (simp add: inflight_def snd_inv_def in_flight_def una_of_def newKCP_def segment0_def const_defs soff_def WND_MAX_def)

theorem ack_exact_witness: "map s_sn (snd_buf (parse_ack 0 inflight)) = [1]"
  using ack_exact [OF inflight_inv, of 0] by (simp add: inflight_def segment0_def)

text \<open>
  C26. A cumulative acknowledgement removes exactly the segments before \<open>una\<close>. One that is
  half the number circle or more ahead of \<open>snd_una\<close>, a stale one, removes nothing.
\<close>

theorem una_exact:
  assumes "snd_inv k"
  shows "snd_buf (parse_una una k) =
    (if soff (snd_una k) una < 2 ^ 31
     then filter (\<lambda>s. soff (snd_una k) una \<le> soff (snd_una k) (s_sn s)) (snd_buf k) else snd_buf k)"
  using parse_una_exact [OF assms] .

theorem una_exact_witness: "map s_sn (snd_buf (parse_una 1 inflight)) = [1]"
  using una_exact [OF inflight_inv, of 1] by (simp add: inflight_def newKCP_def segment0_def soff_def)

text \<open>
  Fast retransmit counts. An acknowledgement of a segment in flight adds one to the skip
  count of every earlier segment still in flight and to no other.
\<close>

theorem fastack_exact:
  assumes "snd_inv k"
  shows "snd_buf (parse_fastack sn k) = map (\<lambda>s.
    if soff (snd_una k) sn < soff (snd_una k) (snd_nxt k) \<and> soff (snd_una k) (s_sn s) < soff (snd_una k) sn
    then s \<lparr> s_fastack := s_fastack s + 1 \<rparr> else s) (snd_buf k)"
  using parse_fastack_exact [OF assms] .

theorem fastack_exact_witness: "map s_fastack (snd_buf (parse_fastack 1 inflight)) = [1, 0]"
  using fastack_exact [OF inflight_inv, of 1] by (simp add: inflight_def newKCP_def segment0_def soff_def)

section \<open>The wire format\<close>

text \<open>
  C27. Round trip of a segment header: what \<open>encode\<close> writes into a buffer with room is
  24 bytes which the receiver decodes to the same fields (the two small ones cut to their width
  on the wire), leaving the rest of the datagram.
\<close>

theorem header_round_trip:
  assumes "IKCP_OVERHEAD \<le> n"
  shows "\<exists>hb. encode seg (n, w) = Inr (n - IKCP_OVERHEAD, w @ hb) \<and> length hb = 24 \<and>
    decode_header (hb @ rest) = Inr (seg_header seg, rest)"
  using encode_eq [of seg n w] assms decode_header_bytes [of "seg_header seg" rest]
  by (auto simp: IKCP_OVERHEAD_def)

theorem header_round_trip_witness:
  "\<exists>hb. encode (segment0 \<lparr> s_sn := 258 \<rparr>) (100, []) = Inr (76, hb) \<and>
    decode_header hb = Inr (seg_header (segment0 \<lparr> s_sn := 258 \<rparr>), [])"
  using header_round_trip [of 100 "segment0 \<lparr> s_sn := 258 \<rparr>" "[]" "[]"] by (auto simp: IKCP_OVERHEAD_def)

text \<open>
  Decoding a header is total on 24 bytes or more, panics on fewer, and loses nothing:
  the datagram is the encoding of the decoded header followed by the rest.
\<close>

theorem header_decode_exact:
  "(if length p < IKCP_OVERHEAD then decode_header p = Inl SliceBounds
    else \<exists>h rest. decode_header p = Inr (h, rest) \<and> p = header_bytes h @ rest)"
  using hdr.dec_total [of p] hdr.dec_short [of p] decode_header_exact [of p] by auto

section \<open>User data\<close>

text \<open>
  C28. Message boundaries. In message mode, one accepted call of \<open>send\<close> appends fragments to
  the send queue; a receiver that has these fragments at the front of its queue announces
  exactly the length of the message and returns exactly the message.
\<close>

theorem message_round_trip:
  assumes "kcp_inv k" "stream k = 0" "send buf k = Inr (0, k')"
    and "rcv_queue r = drop (length (snd_queue k)) (snd_queue k') @ rest" "length buf \<le> length p"
  shows "fst (recvSize r) = int (length buf) \<and>
    (\<exists>r'. recv p r = Inr (int (length buf), buf @ drop (length buf) p, r'))"
proof -
  note m = kcp_inv_mss [OF assms(1)]
  let ?cs = "chunks (nat (mss k)) buf"
  have ne: "buf \<noteq> []" using assms(3) by (auto simp: send_def)
  then have len: "length ?cs \<le> 255" and q: "snd_queue k' = snd_queue k @ mk_frags True ?cs"
    using assms(3) send_msg_eq [of k buf] m assms(2) by (auto split: if_splits)
  have cs: "?cs \<noteq> []" using ne m chunks_Cons [of buf "nat (mss k)"] by simp
  have rq: "rcv_queue r = mk_frags True ?cs @ rest" using assms(4) q by simp
  have fm: "first_msg (rcv_queue r) = mk_frags True ?cs" using first_msg_mk_frags [OF cs] len rq by simp
  then have dat: "concat (map s_data (first_msg (rcv_queue r))) = buf"
    using m by (simp add: mk_frags_data concat_chunks)
  then have fl: "frag_len (rcv_queue r) = length buf" by (simp add: frag_len_first_msg)
  have "fst (recvSize r) = int (frag_len (rcv_queue r))"
    using recvSize_mk_frags [OF cs len, of r rest] rq by simp
  moreover have "recv_merge (rcv_queue r) p = Inr (buf @ drop (length buf) p, length buf, length (first_msg (rcv_queue r)))"
    using recv_merge_ok [of "rcv_queue r" p] fl dat assms(5) by simp
  ultimately show ?thesis using fl by (simp add: recv_def Let_def)
qed

theorem message_round_trip_witness:
  "\<exists>k' r'. send [1, 2] newKCP = Inr (0, k') \<and>
     recv [0, 0, 0] (newKCP \<lparr> rcv_queue := snd_queue k' \<rparr>) = Inr (2, [1, 2, 0], r')"
proof -
  note m = kcp_inv_mss [OF newKCP_inv]
  have c: "chunks (nat (mss newKCP)) [1, 2] = [[1, 2 :: u8]]"
    by (simp add: chunks.simps newKCP_def const_defs)
  have st: "stream newKCP = 0" "snd_queue newKCP = []" by (simp_all add: newKCP_def)
  then obtain k' where k': "send [1, 2] newKCP = Inr (0, k')" using send_msg_eq [of newKCP "[1, 2]"] m c by auto
  from message_round_trip [OF newKCP_inv st(1) k', of "newKCP \<lparr> rcv_queue := snd_queue k' \<rparr>" "[]" "[0, 0, 0]"]
  show ?thesis using k' st(2) by auto
qed

text \<open>
  In stream mode every accepted call of \<open>send\<close> appends exactly the user's bytes to the
  bytes waiting in the send queue, and every segment still fits the MTU.
\<close>

theorem stream_send_appends:
  assumes "kcp_inv k" "stream k \<noteq> 0" "buf \<noteq> []"
  shows "\<exists>k'. send buf k = Inr (0, k') \<and> kcp_inv k' \<and> qbytes (snd_queue k') = qbytes (snd_queue k) @ buf"
proof -
  note m = kcp_inv_mss [OF assms(1)]
  obtain r k' where k': "send buf k = Inr (r, k')" "kcp_inv k'" using send_kcp_inv [OF assms(1)] by blast
  then have "r = 0" "snd_queue k' = fill_last buf k @ mk_frags False (chunks (nat (mss k)) (drop (room_in_last k) buf))"
    using send_stream_eq [of k buf] m assms(2,3) by auto
  then show ?thesis using k' m fill_last_data [of buf k]
    by (simp add: qbytes_def mk_frags_data concat_chunks)
qed

theorem stream_send_appends_witness:
  "\<exists>k'. send [1, 2, 3] (newKCP \<lparr> stream := 1 \<rparr>) = Inr (0, k') \<and> qbytes (snd_queue k') = [1, 2, 3]"
proof -
  have "kcp_inv (newKCP \<lparr> stream := 1 \<rparr>)" using newKCP_inv by (simp add: kcp_inv_def flush_pre_def cfg_inv_def)
  from stream_send_appends [OF this, of "[1, 2, 3]"] show ?thesis by (auto simp: newKCP_def)
qed

text \<open>
  C29. \<open>send\<close> is the reference: in message mode, the message cut into pieces of \<open>mss\<close> bytes, numbered
  downwards to 0, or refused when there are more than 255; in stream mode, the last queued segment
  filled up and the rest cut into pieces.
\<close>

theorem send_reference:
  assumes "kcp_inv k" "buf \<noteq> []"
  shows "send buf k =
    (if stream k = 0
     then if length (chunks (nat (mss k)) buf) > 255 then Inr (-2, k)
          else Inr (0, k \<lparr> snd_queue := snd_queue k @ mk_frags True (chunks (nat (mss k)) buf) \<rparr>)
     else Inr (0, k \<lparr> snd_queue := fill_last buf k @ mk_frags False (chunks (nat (mss k)) (drop (room_in_last k) buf)) \<rparr>))"
  using send_msg_eq [of k buf] send_stream_eq [of k buf] kcp_inv_mss [OF assms(1)] assms(2) by simp

theorem send_reference_witness:
  "send [1, 2, 3] newKCP = Inr (0, newKCP \<lparr> snd_queue := mk_frags True [[1, 2, 3]] \<rparr>)"
proof -
  have "chunks (nat (mss newKCP)) [1, 2, 3] = [[1, 2, 3 :: u8]]" "stream newKCP = 0" "snd_queue newKCP = []"
    by (subst chunks.simps, simp add: newKCP_def const_defs, simp_all add: newKCP_def)
  then show ?thesis using send_reference [OF newKCP_inv, of "[1, 2, 3]"] by simp
qed

text \<open>
  What \<open>send\<close> refuses: nothing to send (-1) and, in message mode, a message of
  more than 255 fragments (-2). Nothing is queued then.
\<close>

theorem send_refuses:
  assumes "kcp_inv k"
  shows "send [] k = Inr (-1, k) \<and>
    (stream k = 0 \<and> 255 * mss k < int (length buf) \<longrightarrow> send buf k = Inr (-2, k))"
proof -
  note m = kcp_inv_mss [OF assms]
  have "send buf k = Inr (-2, k)" if s: "stream k = 0" and l: "255 * mss k < int (length buf)"
  proof -
    have "buf \<noteq> []" using l m(1) by auto
    moreover have "int (255 * nat (mss k)) < int (length buf)" using l m(1) by simp
    then have "length (chunks (nat (mss k)) buf) > 255"
      using chunks_count_gt [of "nat (mss k)" 255 buf] m(1) by linarith
    ultimately show ?thesis using send_msg_eq [of k buf] m s by simp
  qed
  then show ?thesis by (simp add: send_def)
qed

theorem send_refuses_witness: "send [] newKCP = Inr (-1, newKCP)"
  using send_refuses [OF newKCP_inv] by blast

text \<open>
  \<open>recv\<close> into a slice that is large enough returns the whole first message of the queue
  and removes its segments; into a shorter one it panics.
\<close>

theorem recv_exact:
  "(if frag_len (rcv_queue k) \<le> length p
    then \<exists>k'. recv p k = Inr (int (frag_len (rcv_queue k)),
           qbytes (first_msg (rcv_queue k)) @ drop (frag_len (rcv_queue k)) p, k') \<and>
         rcv_queue k' @ rcv_buf k' = drop (length (first_msg (rcv_queue k))) (rcv_queue k) @ rcv_buf k
    else recv p k = Inl SliceBounds)"
proof (cases "frag_len (rcv_queue k) \<le> length p")
  case True
  let ?k = "k \<lparr> rcv_queue := drop (length (first_msg (rcv_queue k))) (rcv_queue k) \<rparr>"
  show ?thesis
    using True recv_merge_ok [OF True] move_ready_stream [of ?k] by (simp add: recv_def Let_def qbytes_def)
qed (simp add: recv_def recv_merge_panics)

section \<open>The clock\<close>

text \<open>
  C30. Flush schedule. \<open>update\<close> flushes exactly when a flush is due (at the first call, once
  the flush time has passed, or when the clock has jumped back by more than ten seconds), and
  the next flush time it sets is in the future, at most one interval away, however the clock
  jumps or wraps around.
\<close>

theorem update_schedule:
  assumes "kcp_inv k"
  shows "(if flush_due current k
      then \<exists>k' u. update current k = Inr k' \<and>
             flush current (k \<lparr> updated := u, ts_flush := ts_flush k' \<rparr>) = Inr k' \<and>
             1 \<le> soff current (ts_flush k') \<and> soff current (ts_flush k') \<le> unat (interval k)
      else update current k = Inr k)"
proof (cases "flush_due current k")
  case True
  let ?u = "if updated k = 0 then 1 else updated k" and ?t = "next_flush current k"
  let ?k = "k \<lparr> updated := ?u, ts_flush := ?t \<rparr>"
  have inv: "kcp_inv ?k" using assms by (simp add: kcp_inv_def flush_pre_def cfg_inv_def)
  then obtain k' where k': "flush current ?k = Inr k'" "flush_frame k' = flush_frame ?k"
    using flush_ok [of ?k current] by (auto simp: kcp_inv_def)
  then have t: "ts_flush k' = ?t" by (simp add: flush_frame_def)
  have "10 \<le> unat (interval k)" "unat (interval k) \<le> 5000" using assms by (simp_all add: kcp_inv_def cfg_inv_def)
  then have "soff current ?t \<in> {1..unat (interval k)}" using next_flush_near [OF _ _ True] by simp
  moreover have "update current k = Inr k'" using True k'(1) by (simp add: update_eq)
  ultimately show ?thesis using True k'(1) t by (auto intro!: exI [of _ k'] exI [of _ ?u])
qed (simp add: update_eq)

theorem update_schedule_witness:
  "\<exists>k'. update 5 newKCP = Inr k' \<and> 1 \<le> soff 5 (ts_flush k')"
proof -
  have "flush_due 5 newKCP" by (simp add: flush_due_def newKCP_def)
  then show ?thesis using update_schedule [OF newKCP_inv, of 5] by auto
qed

text \<open>
  C31. \<open>check\<close> promises no more than it can hold: before the time it returns, neither
  a flush is due nor has the retransmission time of a segment in flight come; if a flush is due
  now, it returns the present time, and it never looks further ahead than one interval.
\<close>

theorem check_sound:
  assumes "e < soff current (check current k)"
  shows "\<not> flush_due current k \<and> \<not> flush_due (current + of_nat e) k \<and>
    (\<forall>s \<in> set (snd_buf k). itimediff (current + of_nat e) (s_resendts s) < 0) \<and>
    e < unat (interval k)"
proof -
  have nd: "\<not> flush_due current k" using assms check_due [of current k] by auto
  then obtain t where "check_segs current (snd_buf k) 0x7fffffff = Some t"
    using assms by (cases "check_segs current (snd_buf k) 0x7fffffff") (auto simp: check_def Let_def flush_due_def)
  from check_wait [OF nd this] show ?thesis using nd check_no_event_missed [OF assms] assms by auto
qed

theorem check_sound_witness: "\<not> flush_due 7 (newKCP \<lparr> updated := 1, ts_flush := 50 \<rparr>)"
proof -
  have "check 5 (newKCP \<lparr> updated := 1, ts_flush := 50 \<rparr>) = 50" by code_simp
  then have "2 < soff 5 (check 5 (newKCP \<lparr> updated := 1, ts_flush := 50 \<rparr>))" by (simp add: soff_def)
  from check_sound [OF this] show ?thesis by simp
qed

section \<open>Closing\<close>


text \<open>
  C32. Closing is one-way. \<open>sendCloseFlush\<close> on a connected control object marks the local side
  closed, takes it out of the connected state and queues one empty segment after everything
  written so far, which is the peer's end-of-stream mark; on any other object it does nothing, so a
  second call has no effect.
\<close>

theorem close_once:
  assumes "kcp_inv k" "sendCloseFlush current k = Inr k'"
  shows "sendCloseFlush later k' = Inr k' \<and>
    (if isStateConnected k \<and> \<not> isStateLocalClosed k
     then isStateLocalClosed k' \<and> \<not> isStateConnected k' \<and>
       map s_data (snd_buf k' @ snd_queue k') = map s_data (snd_buf k @ snd_queue k) @ [[]]
     else k' = k)"
proof (cases "isStateConnected k \<and> \<not> isStateLocalClosed k")
  case True
  define c where "c = k \<lparr> state := (state k OR IKCP_STATE_LOCAL_CLOSED) AND NOT IKCP_STATE_CONNECTED \<rparr>"
  define q where "q = c \<lparr> snd_queue := snd_queue c @ [segment0 \<lparr> s_cmd := IKCP_CMD_PUSH \<rparr>] \<rparr>"
  have inv: "kcp_inv q" unfolding q_def using assms(1) by (intro enqueue_empty) (simp_all add: c_def)
  have fl: "flush current q = Inr k'"
    using assms(2) True by (simp add: sendCloseFlush_def newSegment_0 Let_def q_def c_def)
  have "state k' = state q" using flush_ok [of q current] inv fl by (auto simp: kcp_inv_def flush_frame_def)
  then have st: "isStateLocalClosed k'" "\<not> isStateConnected k'"
    by (simp_all add: isStateLocalClosed_def isStateConnected_def closed_bits q_def c_def)
  have "map s_data (snd_buf k' @ snd_queue k') = map s_data (snd_buf q @ snd_queue q)"
    using flush_keeps_data [OF inv fl] .
  also have "\<dots> = map s_data (snd_buf k @ snd_queue k) @ [[]]" by (simp add: q_def c_def segment0_def)
  finally show ?thesis using True st by (simp add: sendCloseFlush_def)
next
  case False
  then show ?thesis using assms(2) by (auto simp: sendCloseFlush_def)
qed

theorem close_once_witness:
  "\<exists>k'. sendCloseFlush 5 (newKCP \<lparr> state := IKCP_STATE_CONNECTED \<rparr>) = Inr k' \<and> isStateLocalClosed k'"
proof -
  have inv: "kcp_inv (newKCP \<lparr> state := IKCP_STATE_CONNECTED \<rparr>)" using newKCP_inv by simp
  then obtain k' where k': "sendCloseFlush 5 (newKCP \<lparr> state := IKCP_STATE_CONNECTED \<rparr>) = Inr k'"
    using sendCloseFlush_inv by blast
  have "isStateConnected (newKCP \<lparr> state := IKCP_STATE_CONNECTED \<rparr>)"
    "\<not> isStateLocalClosed (newKCP \<lparr> state := IKCP_STATE_CONNECTED \<rparr>)"
    by (simp_all add: isStateConnected_def isStateLocalClosed_def const_defs)
  with close_once [OF inv k'] k' show ?thesis by auto
qed

section \<open>Byte buffer\<close>

text \<open>
  C33. The buffer is a first-in first-out queue of bytes: in every sequence of writes and
  reads, starting from an empty buffer, no operation panics, and the bytes read followed by
  those still buffered are the bytes written.
\<close>

theorem buffer_fifo:
  "\<exists>out b. bq_run Write buf_get ops Buffer0 = Inr (out, b) \<and> buf_inv b \<and> out @ contents b = Byte_Buffer.written ops"
  using buf.fifo [OF Buffer0_inv(1), of ops] Buffer0_inv(2) by auto

text \<open>
  Growing in place. \<open>Extend n\<close> keeps the unread bytes, whether it slides them down,
  moves to a larger array or stays where it is, and the slice it returns is exactly the next
  \<open>n\<close> bytes of the buffer: filling it appends what was filled in.
\<close>

theorem extend_appends:
  assumes "buf_inv b" "0 \<le> n"
  shows "\<exists>m b'. Extend n b = Inr (m, b') \<and> length (tail_slice m b') = nat n \<and>
    (\<forall>p. length p = nat n \<longrightarrow> buf_inv (fill m p b') \<and> contents (fill m p b') = contents b @ p)"
  using Extend_fill [OF assms] .

theorem extend_appends_witness:
  "\<exists>m b'. Extend 3 (NewBuffer [1, 2] []) = Inr (m, b') \<and> contents (fill m [7, 8, 9] b') = [1, 2, 7, 8, 9]"
proof -
  have "buf_inv (NewBuffer [1, 2] [])" "contents (NewBuffer [1, 2] []) = [1, 2]"
    by (simp_all add: NewBuffer_def buf_inv_def Cap_def contents_def buf_slice_def)
  then obtain m b' where "Extend 3 (NewBuffer [1, 2] []) = Inr (m, b')"
    "\<forall>p. length p = nat 3 \<longrightarrow> contents (fill m p b') = [1, 2] @ p"
    using extend_appends [of "NewBuffer [1, 2] []" 3] by auto
  then show ?thesis by (auto dest: spec [of _ "[7, 8, 9]"])
qed

text \<open>
  C34. Reading ahead. Over any connection that is a stream (a read takes from the front of what is
  pending the bytes it counts, with an error or without), any sequence of \<open>Read\<close> and
  \<open>ReadToBuffer\<close> on a \<open>BufferConn\<close> never panics. What was returned and what is buffered are the bytes taken
  from the connection, in order and without a gap, except those that came with an error to
  \<open>ReadToBuffer\<close>, and what was not taken is still pending. So nothing is lost unless a read
  ahead gets an error and bytes at once.
\<close>

theorem buffered_stream:
  assumes "stream_conn I pending rd" "I c" "list_all bc_ok ops"
  shows "\<exists>out t c'. bc_run rd ops (NewBufferConn c) = Inr (out, t, c') \<and>
    out @ BufferBytes c' = kept_of t (pending c) \<and>
    taken_of t \<le> length (pending c) \<and> pending (bc_conn c') = drop (taken_of t) (pending c) \<and>
    (list_all (\<lambda>(kept, n). kept \<or> n = 0) t \<longrightarrow> out @ BufferBytes c' @ pending (bc_conn c') = pending c)"
proof -
  have "buf_inv (bc_buf (NewBufferConn c))" "I (bc_conn (NewBufferConn c))"
    using Buffer0_inv assms(2) by (simp_all add: NewBufferConn_def)
  from stream_conn.run_stream [OF assms(1) this assms(3)] obtain out t c' where
    r: "bc_run rd ops (NewBufferConn c) = Inr (out, t, c')" "stream_conn.streams pending (NewBufferConn c) out t c'" by blast
  then have "out @ BufferBytes c' = kept_of t (pending c)"
    "taken_of t \<le> length (pending c)" "pending (bc_conn c') = drop (taken_of t) (pending c)"
    using Buffer0_inv by (simp_all add: stream_conn.streams_def [OF assms(1)] NewBufferConn_def BufferBytes_def)
  moreover from this have "list_all (\<lambda>(kept, n). kept \<or> n = 0) t \<Longrightarrow> out @ BufferBytes c' @ pending (bc_conn c') = pending c"
    using kept_of_all [of t "pending c"] by (metis append.assoc)
  ultimately show ?thesis using r(1) by blast
qed

theorem buffered_stream_witness:
  "\<exists>out c'. bc_run buf_read [BAhead 2, BRead [0], BRead [0, 0]] (NewBufferConn (NewBuffer [1, 2, 3] [])) =
       Inr (out, [(True, 2)], c') \<and>
    out @ BufferBytes c' = [1, 2] \<and> out @ BufferBytes c' @ contents (bc_conn c') = [1, 2, 3]"
proof -
  let ?b = "NewBuffer [1, 2, 3] []" and ?ops = "[BAhead 2, BRead [0], BRead [0, 0]]"
  have b: "buf_inv ?b" "contents ?b = [1, 2, 3]"
    by (simp_all add: NewBuffer_def buf_inv_def Cap_def contents_def buf_slice_def)
  have "(case bc_run buf_read ?ops (NewBufferConn ?b) of Inr (out, t, c') \<Rightarrow> t | Inl e \<Rightarrow> []) = [(True, 2)]" by code_simp
  then show ?thesis
    using buffered_stream [OF buf_stream.stream_conn_axioms b(1), of ?ops] b(2) by (auto simp: numeral_2_eq_2)
qed

text \<open>
  \<open>ReadToBuffer\<close> over any connection that keeps the contract of \<open>io.Reader\<close>: it never
  panics and, when the read succeeds, the buffer has grown by exactly the bytes read. When the
  read fails the buffer is as before, so bytes that came with the error are dropped.
\<close>

theorem read_to_buffer_exact:
  assumes "buf_inv (bc_buf c)" "0 \<le> sz" "reader_ok rd"
  shows "\<exists>n err b' p q conn. ReadToBuffer rd sz c = Inr (n, err, c \<lparr> bc_buf := b', bc_conn := conn \<rparr>) \<and> buf_inv b' \<and>
    int (length q) = sz \<and> rd q (bc_conn c) = (n, err, p, conn) \<and>
    contents b' = contents (bc_buf c) @ (if err then [] else take (nat n) p)"
  by (rule ReadToBuffer_ok [OF assms(1,2)]) (use assms(3) in \<open>simp add: reader_ok_def\<close>)

section \<open>Network emulation\<close>

text \<open>
  C35. Conservation. In every run of a lossy channel the items received are those lost,
  dropped for the speed limit, dropped for a slow receiver, sent on, and still in the ring, and
  the counter of the last is exact; what comes out was put in, as often as it was put in at most.
\<close>

theorem lossy_conserves:
  assumes "lossy_run evs (lossy0 now) = Inr s"
  shows "l_total s = l_loss s + dropSpeed s + dropOut s + int (length (l_out s)) + l_n s \<and>
    l_n s = int (sum_list (map length (l_q s))) \<and>
    mset (l_out s) + mset (concat (l_q s)) \<subseteq># mset (offered evs)"
  using lossy_run_inv [OF lossy0_inv assms] by (simp add: lossy_inv_def queued_def)

theorem lossy_conserves_witness:
  "\<exists>s. lossy_run [EvItem False 0 0 7 (ItemBytes [1])] (lossy0 5) = Inr s \<and> mset (l_out s) + mset (concat (l_q s)) \<subseteq># {# ItemBytes [1] #}"
proof -
  let ?e = "EvItem False 0 0 7 (ItemBytes [1])"
  obtain s where "lossy_step ?e (lossy0 5) = Inr s"
    using lossy_step_total [OF lossy0_inv [of 5], of ?e] by (auto simp: lossy0_def)
  then have "lossy_run [?e] (lossy0 5) = Inr s" by (auto simp: lossy0_def)
  from lossy_conserves [OF this] this show ?thesis by auto
qed

text \<open>
  While the clock does not go back and delays are not negative, no step of the channel
  panics.
\<close>

theorem lossy_no_panic:
  assumes "lossy_run evs (lossy0 now) = Inr s" "0 \<le> curIdx s" "forward ev s"
  shows "\<exists>s'. lossy_step ev s = Inr s' \<and> 0 \<le> curIdx s'"
  using lossy_step_total [OF lossy_run_inv [OF lossy0_inv assms(1)] assms(2,3)] .

theorem lossy_no_panic_witness: "\<exists>s'. lossy_step (EvItem False 0 0 7 (ItemBytes [1])) (lossy0 5) = Inr s'"
  using lossy_no_panic [of "[]" 5 "lossy0 5" "EvItem False 0 0 7 (ItemBytes [1])"] by (auto simp: lossy0_def)

text \<open>
  When the clock goes back, the position in the ring becomes negative and the next item
  without delay makes the channel panic with an index out of range.
\<close>

theorem lossy_clock_back_panics:
  "lossy_run [EvTick 99 (\<lambda>_. 0), EvItem False 0 0 0 v] (lossy0 100) = Inl SliceBounds"
  by (simp add: lossy_tick_def lossy0_def lossy_item_in_def speed_check_def Let_def go_mod_def go_div_def ring_size_def)

section \<open>Deviations\<close>

text \<open>
  A repeated \<open>CONNECT\<close> is not acknowledged: once \<open>rcv_nxt\<close> has left 0, a datagram that
  holds one adds nothing to the list of pending acknowledgements, although a repeat means the
  peer has not seen the first acknowledgement.
\<close>

theorem repeated_connect_not_acked:
  assumes "s_conv s = conv k" "s_cmd s = IKCP_CMD_CONNECT" "s_data s = []" "rcv_nxt k \<noteq> 0" "kcp_inv k"
  shows "\<exists>k'. input current (wire s) upd k = Inr (0, k') \<and> acklist k' = acklist k \<and> rcv_nxt k' = rcv_nxt k"
proof -
  let ?h = "seg_header s"
  define q where "q = shrink_buf (parse_una (h_una ?h) (k \<lparr> rmt_wnd := ucast (h_wnd ?h) \<rparr>))"
  have q: "rcv_nxt q = rcv_nxt k" "acklist q = acklist k" "mss q = mss k"
    by (simp_all add: q_def shrink_buf_def parse_una_def split: list.split)
  have c: "ucast (h_cmd ?h) = IKCP_CMD_CONNECT" using cmd_ucast [of s] assms(2) by simp
  then have seg: "input_seg ?h [] v k = Inr (v, q)" for v
    using q(1) assms(4) by (simp add: input_seg_def input_connect_def q_def [symmetric])
  have d: "decode_header (wire s) = Inr (?h, [])"
    using decode_header_bytes [of ?h "[]"] assms(3) by (simp add: wire_def)
  have l: "length (wire s) = IKCP_OVERHEAD" "unat (h_len ?h) = 0" "h_conv ?h = conv k" "known_cmd (h_cmd ?h)"
    using assms(1,3) c by (simp_all add: seg_header_def known_cmd_def)
  have "input_loop [] v q = Inr (Break v, q)" for v by (subst input_loop.simps) (simp add: IKCP_OVERHEAD_def)
  then have "input_loop (wire s) ackvars0 k = Inr (Break ackvars0, q)"
    using l d seg by (subst input_loop.simps) simp
  moreover have "input_rtt current upd ackvars0 q = q" by (simp add: input_rtt_def ackvars0_def)
  moreover obtain k' where "cwnd_grow q = Inr k'"
    using cwnd_grow_no_panic [of q] kcp_inv_mss(3) [OF assms(5)] q(3) by (auto simp: no_panic_iff)
  moreover from cwnd_grow_upd [OF this] have "acklist k' = acklist k" "rcv_nxt k' = rcv_nxt k" using q by auto
  ultimately show ?thesis using l(1) q by (simp add: input_def Let_def)
qed

theorem repeated_connect_not_acked_witness:
  "\<exists>k'. input 9 (wire (segment0 \<lparr> s_cmd := IKCP_CMD_CONNECT \<rparr>)) True (newKCP \<lparr> rcv_nxt := 1 \<rparr>) = Inr (0, k') \<and>
     acklist k' = []"
proof -
  have inv: "kcp_inv (newKCP \<lparr> rcv_nxt := 1 \<rparr>)"
    using newKCP_inv connect_rcv_inv [of newKCP]
    by (simp add: kcp_inv_def flush_pre_def cfg_inv_def) (simp add: newKCP_def)
  show ?thesis
    using repeated_connect_not_acked [OF _ _ _ _ inv, of "segment0 \<lparr> s_cmd := IKCP_CMD_CONNECT \<rparr>" 9 True]
    by (auto simp: newKCP_def segment0_def)
qed

text \<open>
  C36. A segment that overtakes the \<open>CONNECT\<close> is stranded. Segment 1 lies in the reorder buffer when the
  \<open>CONNECT\<close> (segment 0) arrives: it is then the next one expected, but it is not moved on. Whatever the
  control object does afterwards, in any order and within its contract, flushes, updates, sends, setters
  and any datagrams without a \<open>PUSH\<close>, the segment stays where it is and \<open>recvSize\<close> reports
  nothing (so that a caller who relies on it does not call \<open>recv\<close>).
\<close>

theorem overtaken_segment_stranded:
  assumes "kcp_inv k" "rcv_nxt k = 0" "rcv_queue k = []" "s \<in> set (rcv_buf k)" "s_sn s = 1"
    "seg_valid (conv k) f" "ucast (h_cmd (fst f)) = IKCP_CMD_CONNECT" "length (seg_bytes f) \<le> udpPacketSizeLimit"
  shows "\<exists>k1. input current (seg_bytes f) upd k = Inr (0, k1) \<and> rcv_nxt k1 = s_sn s \<and>
    (\<forall>k2. push_wait\<^sup>*\<^sup>* k1 k2 \<longrightarrow>
       rcv_nxt k2 = s_sn s \<and> s \<in> set (rcv_buf k2) \<and> rcv_queue k2 = [] \<and> fst (recvSize k2) = 0)"
proof -
  obtain k1 where k1: "input current (seg_bytes f) upd k = Inr (0, k1)" "kcp_inv k1" "rcv_view k1 = (1, rcv_buf k, rcv_queue k)"
    using input_first_connect [OF assms(1,2,6-8)] by blast
  have "rcv_nxt k2 = s_sn s \<and> s \<in> set (rcv_buf k2) \<and> rcv_queue k2 = [] \<and> fst (recvSize k2) = 0"
    if "push_wait\<^sup>*\<^sup>* k1 k2" for k2
  proof -
    have "rcv_view k2 = rcv_view k1" using push_wait_forever [OF that k1(2)] k1(3) assms(3) by (simp add: rcv_view_def)
    then show ?thesis using k1(3) assms(3-5) by (simp add: rcv_view_def recvSize_def)
  qed
  then show ?thesis using k1(1,3) assms(5) by (auto simp: rcv_view_def)
qed

theorem overtaken_segment_stranded_witness:
  "\<exists>k k1. input 0 (wire (segment0 \<lparr> s_cmd := IKCP_CMD_PUSH, s_sn := 1, s_data := [5] \<rparr>)) True newKCP = Inr (0, k) \<and>
     map a_sn (acklist k) = [1] \<and>
     input 0 (wire (segment0 \<lparr> s_cmd := IKCP_CMD_CONNECT \<rparr>)) True k = Inr (0, k1) \<and> rcv_nxt k1 = 1 \<and>
     (\<forall>k2. push_wait\<^sup>*\<^sup>* k1 k2 \<longrightarrow> rcv_queue k2 = [] \<and> fst (recvSize k2) = 0)"
proof -
  let ?p = "wire (segment0 \<lparr> s_cmd := IKCP_CMD_PUSH, s_sn := 1, s_data := [5] \<rparr>)" and ?s = "segment0 \<lparr> s_cmd := IKCP_CMD_CONNECT \<rparr>"
  let ?f = "(seg_header ?s, [] :: bytes)"
  have "length ?p \<le> udpPacketSizeLimit" by (simp add: wire_def udpPacketSizeLimit_def IKCP_OVERHEAD_def)
  from input_kcp_total [OF newKCP_inv this] obtain r k where k: "input 0 ?p True newKCP = Inr (r, k)" "kcp_inv k" by blast
  have "(case input 0 ?p True newKCP of Inr (r, k) \<Rightarrow> (r, rcv_nxt k, rcv_queue k, map s_sn (rcv_buf k), map a_sn (acklist k), conv k)
      | Inl e \<Rightarrow> (1, 0, [], [], [], 0)) = (0, 0, [], [1], [1], 0)" by code_simp
  then have v: "r = 0" "rcv_nxt k = 0" "rcv_queue k = []" "map s_sn (rcv_buf k) = [1]" "map a_sn (acklist k) = [1]" "conv k = 0"
    using k(1) by simp_all
  then obtain s where s: "s \<in> set (rcv_buf k)" "s_sn s = 1" by (cases "rcv_buf k") auto
  have f: "seg_bytes ?f = wire ?s" "seg_valid (conv k) ?f" "ucast (h_cmd (fst ?f)) = IKCP_CMD_CONNECT"
    using v(6) by (simp_all add: seg_bytes_def wire_def seg_valid_def seg_header_def segment0_def known_cmd_def const_defs)
  moreover have "length (seg_bytes ?f) \<le> udpPacketSizeLimit" by (simp add: seg_bytes_def udpPacketSizeLimit_def IKCP_OVERHEAD_def)
  ultimately obtain k1 where "input 0 (wire ?s) True k = Inr (0, k1)" "rcv_nxt k1 = s_sn s"
    "\<forall>k2. push_wait\<^sup>*\<^sup>* k1 k2 \<longrightarrow> rcv_queue k2 = [] \<and> fst (recvSize k2) = 0"
    using overtaken_segment_stranded [OF k(2) v(2,3) s, of ?f 0 True] unfolding f(1) by blast
  then show ?thesis using k(1) v(1,5) s(2) by (intro exI [of _ k] exI [of _ k1]) simp
qed

text \<open>
  Shrinking the MTU below a queued segment makes the next flush panic: 300 bytes are
  queued, the MTU is set to 50, and the segment no longer fits the scratch buffer.
\<close>

theorem shrink_mtu_panics:
  "bind_res (send (replicate 300 0) (newKCP \<lparr> cwnd := 1 \<rparr>)) (\<lambda>(r, k). flush 0 (snd (setMtu 50 k))) = Inl SliceBounds"
  by code_simp

text \<open>
  With fast resend off, an early retransmit leaves the congestion window one below the
  new threshold: the resend limit \<open>0xffffffff\<close> is added as if it were a count.
\<close>

theorem early_retransmit_cwnd:
  assumes "fastresend k \<le> 0" "change fv \<noteq> 0" "\<not> lost fv"
  shows "cwnd (flush_cwnd cw (flush_resent k) fv k) = ssthresh (flush_cwnd cw (flush_resent k) fv k) - 1 \<and>
    ssthresh (flush_cwnd cw (flush_resent k) fv k) = max IKCP_THRESH_MIN ((snd_nxt k - snd_una k) div 2)"
proof -
  define th where "th = max IKCP_THRESH_MIN ((snd_nxt k - snd_una k) div 2)"
  have "2 \<le> th" by (simp add: th_def IKCP_THRESH_MIN_def)
  then have "th \<noteq> 1" by (auto simp: word_le_nat_alt)
  moreover have "(0xffffffff :: u32) = - 1" by simp
  ultimately have "th + 0xffffffff \<noteq> 0" by (metis add.commute uminus_add_conv_diff right_minus_eq)
  moreover have "(if (snd_nxt k - snd_una k) div 2 < IKCP_THRESH_MIN then IKCP_THRESH_MIN
      else (snd_nxt k - snd_una k) div 2) = th"
    by (auto simp: th_def max_def)
  ultimately show ?thesis
    using assms by (simp add: flush_cwnd_def flush_resent_def Let_def th_def [symmetric])
qed

theorem early_retransmit_cwnd_witness:
  "cwnd (flush_cwnd 8 (flush_resent newKCP) (flush_vars0 \<lparr> change := 1 \<rparr>) newKCP) = 1"
  using early_retransmit_cwnd [of newKCP "flush_vars0 \<lparr> change := 1 \<rparr>" 8]
  by (simp add: newKCP_def flush_vars0_def IKCP_THRESH_MIN_def)


text \<open>
  C37. A connection that its peer has closed before the handshake makes the next reader panic. The first round
  of \<open>Read\<close> finds nothing to read and calls \<open>closeInternal\<close>, which closes \<open>die\<close> but, as
  \<open>sendCloseFlush\<close> does nothing without the handshake, does not mark the connection closed; \<open>die\<close> wakes
  the reader, and its second round, whichever case of the \<open>select\<close> it took, closes \<open>die\<close> again. One
  datagram of the peer is enough to get there: a \<open>PUSH\<close> with sequence number 0 and no data.
\<close>

theorem one_packet_panics_reader:
  assumes "reachable sys_init (conn_step wt) x" "x_reader x = RIdle" "b \<noteq> []"
    "isStateRemoteClosed (c_kcp (x_conn x))" "\<not> isStateConnected (c_kcp (x_conn x))" "\<not> isStateLocalClosed (c_kcp (x_conn x))"
    "\<not> ch_closed (c_die (x_conn x))" "contents (c_bufRead (x_conn x)) = []" "fst (recvSize (c_kcp (x_conn x))) \<le> 0"
    "\<And>d. c_deadlineRead (x_conn x) = Some d \<Longrightarrow> now2 < d"
  shows "conn_runs wt [CReadCall b, CReadRound now1 now2, CReadWake WakeDie, CReadRound now3 now4] x =
      Some (Inl CloseOfClosedChannel) \<and>
    (\<forall>wk. conn_runs wt [CReadCall b, CReadRound now1 now2, CReadWake wk] x \<noteq> None \<longrightarrow>
      conn_runs wt [CReadCall b, CReadRound now1 now2, CReadWake wk, CReadRound now3 now4] x = Some (Inl CloseOfClosedChannel))"
proof -
  have inv: "conn_inv (x_conn x)" using conn.reachable_inv [OF assms(1)] by (simp add: sys_inv_def)
  let ?t = "map_option (\<lambda>d. d - now2) (c_deadlineRead (x_conn x))"
  obtain s where s: "Read_iter wt now1 now2 b (x_conn x) = Inr (ReadWait ?t, s)" "\<exists>s''. read_wake WakeDie ?t s = Some s''"
    "\<And>wk s''. read_wake wk ?t s = Some s'' \<Longrightarrow> Read_iter wt now3 now4 b s'' = Inl CloseOfClosedChannel"
    using read_closes_twice [OF inv assms(3-10), of wt now1 ?t now3 now4] by blast
  have r: "conn_runs wt (CReadCall b # CReadRound now1 now2 # ops) x =
      conn_runs wt ops ((with_conn s x) \<lparr> x_reader := RBlocked b ?t \<rparr>)" for ops
    using assms(2) s(1) by (simp add: with_conn_def)
  let ?x = "(with_conn s x) \<lparr> x_reader := RBlocked b ?t \<rparr>"
  have "conn_runs wt [CReadWake wk, CReadRound now3 now4] ?x = Some (Inl CloseOfClosedChannel)"
    if "read_wake wk ?t s = Some s''" for wk s'' using that s(3) [OF that] by simp
  moreover have "conn_runs wt [CReadWake wk] ?x = None" if "read_wake wk ?t s = None" for wk using that by simp
  ultimately show ?thesis unfolding r using s(2) by (metis not_None_eq)
qed

theorem one_packet_panics_reader_witness:
  "\<exists>x. conn_runs link_up [CUdp (RecvOk lone_push) False, CRun 0 0 EvUdp, CRun 0 0 EvUdp] (server_conn 7 ''peer'') = Some (Inr x) \<and>
     conn_runs link_up [CReadCall [0], CReadRound 0 0, CReadWake WakeDie, CReadRound 0 0] x = Some (Inl CloseOfClosedChannel)"
proof -
  obtain x where x: "conn_runs link_up lone_ops (server_conn 7 ''peer'') = Some (Inr x)" "reachable sys_init (conn_step link_up) x"
    "x_reader x = RIdle" "isStateRemoteClosed (c_kcp (x_conn x))" "\<not> isStateConnected (c_kcp (x_conn x))"
    "\<not> isStateLocalClosed (c_kcp (x_conn x))" "\<not> ch_closed (c_die (x_conn x))" "contents (c_bufRead (x_conn x)) = []"
    "fst (recvSize (c_kcp (x_conn x))) \<le> 0" "c_deadlineRead (x_conn x) = None"
    using demo_lone by blast
  from one_packet_panics_reader [OF x(2,3) _ x(4-9), of "[0]" 0 0 0 0] x(1,10) show ?thesis by (auto simp: lone_ops_def)
qed

text \<open>
  C38. A blocked writer is stranded when the peer closes. The writer waits without a deadline, the
  end-of-stream mark of the peer has been processed, and \<open>run\<close> leaves its loop: it marks the
  connection closed, but it neither closes \<open>die\<close> nor signals the write event, and \<open>Close\<close> does nothing
  any more. Whatever the goroutines do then, until a datagram arrives or a write deadline is set,
  \<open>Write\<close> does not return.
\<close>

theorem writer_stranded:
  assumes "reachable sys_init (conn_step wt) x" "r_pc (x_run x) = MainHead" "x_writer x = WBlocked b None"
    "isStateRemoteClosed (c_kcp (x_conn x))" "isStateConnected (c_kcp (x_conn x))" "\<not> ch_closed (c_die (x_conn x))"
    "ch_items (c_chWriteEvent (x_conn x)) = []" "ch_items (c_chUdpInput (x_conn x)) = []"
  shows "\<exists>x1. conn_exec wt (CRun now1 now2 ev) x = Some (Inr x1) \<and> isStateLocalClosed (c_kcp (x_conn x1)) \<and>
    (\<forall>x2 wk. (silent_step wt)\<^sup>*\<^sup>* x1 x2 \<longrightarrow> x_writer x2 = WBlocked b None \<and> conn_exec wt (CWriteWake wk) x2 = None)"
proof -
  have "conn_inv (x_conn x)" using conn.reachable_inv [OF assms(1)] by (simp add: sys_inv_def)
  from stranded_enter [OF this assms(2-8)]
  obtain x1 where x1: "conn_exec wt (CRun now1 now2 ev) x = Some (Inr x1)" "stranded b x1" by blast
  have "x_writer x2 = WBlocked b None \<and> conn_exec wt (CWriteWake wk) x2 = None" if "(silent_step wt)\<^sup>*\<^sup>* x1 x2" for x2 wk
    using stranded_blocked [OF stranded_forever [OF that x1(2)]] .
  then show ?thesis using x1 by (auto simp: stranded_def)
qed

theorem writer_stranded_witness:
  "\<exists>x x1. conn_exec link_up (CRun 0 0 EvTimer) x = Some (Inr x1) \<and>
     (\<forall>x2 wk. (silent_step link_up)\<^sup>*\<^sup>* x1 x2 \<longrightarrow> x_writer x2 = WBlocked [1] None \<and> conn_exec link_up (CWriteWake wk) x2 = None)"
proof -
  obtain x where x: "reachable sys_init (safe_step link_up) x" "r_pc (x_run x) = MainHead" "x_writer x = WBlocked [1] None"
    "isStateRemoteClosed (c_kcp (x_conn x))" "isStateConnected (c_kcp (x_conn x))" "\<not> ch_closed (c_die (x_conn x))"
    "ch_items (c_chWriteEvent (x_conn x)) = []" "ch_items (c_chUdpInput (x_conn x)) = []"
    using demo_writer by blast
  from writer_stranded [OF safe_reachable [OF x(1)] x(2-8)] show ?thesis by blast
qed

text \<open>
  C39. Two calls that make the caller panic: a second \<open>Close\<close> before the handshake is complete, and
  a \<open>Write\<close> of no bytes on an open connection with room in its window.
\<close>

theorem caller_panics:
  assumes "reachable sys_init (conn_step wt) x"
  shows "(\<not> isStateConnected (c_kcp (x_conn x)) \<and> \<not> isStateLocalClosed (c_kcp (x_conn x)) \<and> \<not> ch_closed (c_die (x_conn x)) \<longrightarrow>
      conn_runs wt [CClose now1, CClose now2] x = Some (Inl CloseOfClosedChannel)) \<and>
    (x_writer x = WIdle \<and> canKcpSendInternal (x_conn x) \<and> \<not> isStateLocalClosed (c_kcp (x_conn x)) \<longrightarrow>
      conn_runs wt [CWriteCall [], CWriteRound now1] x = Some (Inl (Explicit ''internal bug, kcp send'')))"
proof -
  have inv: "conn_inv (x_conn x)" using conn.reachable_inv [OF assms] by (simp add: sys_inv_def)
  show ?thesis using close_unconnected [OF inv]
    by (auto simp: Close_def Write_iter_def Write_send_def send_def canKcpSendInternal_def)
qed

theorem caller_panics_witness:
  "conn_runs link_up [CClose 3, CClose 4] (client_conn 9 ''a'') = Some (Inl CloseOfClosedChannel)"
proof -
  have i: "sys_init (client_conn 9 ''a'')" by (auto simp: sys_init_def)
  have s: "\<not> isStateConnected (c_kcp (x_conn (client_conn 9 ''a'')))" "\<not> isStateLocalClosed (c_kcp (x_conn (client_conn 9 ''a'')))"
    "\<not> ch_closed (c_die (x_conn (client_conn 9 ''a'')))"
    using sys_init_fields [OF i] by (simp_all add: state_bits)
  from caller_panics [OF reach_init [of sys_init, OF i], of link_up 3 4] s show ?thesis by blast
qed

text \<open>
  C40. What \<open>DialTimeout\<close> leaves behind. Once its timer has fired, the goroutine it started never ends, and
  the connection it may still make is never handed over nor closed by anyone. Without a timeout the caller
  waits forever once \<open>run\<close> has returned before the handshake: nothing sends the event it waits for. One
  empty segment from the peer's address is enough to get there.
\<close>

theorem dial_leaks:
  assumes "reachable (\<lambda>e. e = d) (dial_step wt) d'"
  shows "(d_ret d = Some (False, Some DialTimedOut) \<and> d_pc d \<noteq> DialEnd \<longrightarrow>
      d_pc d' \<noteq> DialEnd \<and> d_ret d' = Some (False, Some DialTimedOut)) \<and>
    (d_pc d = DialWait \<and> d_ret d = None \<and> d_timeout d = 0 \<and> d_sys d = Some x \<and> r_pc (x_run x) = Returned \<and>
      ch_items (c_chWriteEvent (x_conn x)) = [] \<and> \<not> ch_closed (c_chWriteEvent (x_conn x)) \<longrightarrow>
      d_pc d' = DialWait \<and> d_ret d' = None)"
proof -
  have "abandoned d \<Longrightarrow> abandoned d'" "dial_stuck d \<Longrightarrow> dial_stuck d'"
    using assms by (induction rule: reachable.induct) (auto intro: abandoned_step dial_stuck_step)
  then show ?thesis by (auto simp: abandoned_def dial_stuck_def)
qed

theorem dial_leaks_witness:
  "\<exists>d :: dial. reachable dial_init (dial_step link_up) d \<and> d_pc d = DialWait \<and>
     (\<forall>d'. reachable (\<lambda>e. e = d) (dial_step link_up) d' \<longrightarrow> d_ret d' = None)"
proof -
  obtain d where d: "dial_run link_up hang_ops (dial0 0) = Some d" "(d_pc d, d_ret d, d_timeout d,
      map_option (\<lambda>x. (r_pc (x_run x), ch_items (c_chWriteEvent (x_conn x)), ch_closed (c_chWriteEvent (x_conn x)))) (d_sys d))
      = (DialWait, None, 0, Some (Returned, [], False))"
    using demo_hang_run unfolding map_option_eq_Some by (elim exE conjE) (rule that)
  then obtain x where x: "d_pc d = DialWait" "d_ret d = None" "d_timeout d = 0" "d_sys d = Some x" "r_pc (x_run x) = Returned"
    "ch_items (c_chWriteEvent (x_conn x)) = []" "\<not> ch_closed (c_chWriteEvent (x_conn x))" by auto
  have "d_ret d' = None" if "reachable (\<lambda>e. e = d) (dial_step link_up) d'" for d'
    using dial_leaks [OF that, of x] x by simp
  then show ?thesis using dial_run_start [OF d(1)] x(1) by blast
qed

text \<open>
  A lossy connection hands every datagram on as a slice of 4096 bytes, whatever its length, so
  that a reader with the 2048-byte buffer of the KCP layer panics.
\<close>

theorem lossy_conn_panics:
  assumes "rd (replicate 4096 0) = (n, addr, None, p)" "length p = 4096" "n \<noteq> 0" "0 < channelSize" "length b = udpPacketSizeLimit"
  shows "\<exists>c. packet_reader rd False (NewLossyConn channelSize) = Some (Inr (True, c)) \<and>
    ch_items (lp_chRead c) = [ItemPacket p addr] \<and>
    (\<forall>c'. ch_items (lp_chReadTricked c') = [ItemPacket p addr] \<and> lp_deadlineRead c' = None \<longrightarrow>
      packetConn_ReadFrom now False b c' = Some (Inl (Explicit ''buffer too small'')))"
proof -
  have "\<exists>c. packet_reader rd False (NewLossyConn channelSize) = Some (Inr (True, c)) \<and> ch_items (lp_chRead c) = [ItemPacket p addr]"
    using packet_reader_whole_slice [of "NewLossyConn channelSize" rd n addr p] assms by (simp add: NewLossyConn_def make_chan_def)
  moreover have "packetConn_ReadFrom now False b c' = Some (Inl (Explicit ''buffer too small''))"
    if "ch_items (lp_chReadTricked c') = [ItemPacket p addr]" "lp_deadlineRead c' = None" for c'
    using that packet_ReadFrom_small [of b p addr] assms(2,5) by (simp add: packetConn_ReadFrom_def try_recv_def udpPacketSizeLimit_def)
  ultimately show ?thesis by blast
qed

theorem lossy_conn_panics_witness:
  "\<exists>c. packet_reader (\<lambda>b. (3, ''p'', None, [1, 2, 3] @ drop 3 b)) False (NewLossyConn 8) = Some (Inr (True, c)) \<and>
    ch_items (lp_chRead c) = [ItemPacket ([1, 2, 3] @ replicate 4093 0) ''p'']"
  using lossy_conn_panics [of "\<lambda>b. (3, ''p'', None, [1, 2, 3] @ drop 3 b)" 3 "''p''" "[1, 2, 3] @ replicate 4093 0" 8 "replicate 2048 0" 0]
  by (auto simp: udpPacketSizeLimit_def)

end
